(* ===== verification/Prelude.thy ===== *)
theory Prelude
  imports Main "HOL-Library.Word" "HOL-Library.AList"
begin

text \<open>
  What the components share: the widths of the machine integers, little-endian byte
  encodings with their round trip, the ordered map that stands for Rust's
  \<open>BTreeMap\<close> (an association list sorted by key), the decimal text of a number as
  \<open>format!\<close> prints it, the bind of a fallible call (Rust's \<open>?\<close>), and small
  lemmas on lists and finite maps. \<open>usize\<close> values are \<open>nat\<close> unless a theory says
  otherwise; an \<open>f32\<close> that is only stored and moved is its 32-bit pattern.
\<close>

unbundle bit_operations_syntax

named_theorems result_iff \<open>a fallible call returned this value\<close>

type_synonym u8 = "8 word"
type_synonym u32 = "32 word"
type_synonym u64 = "64 word"
type_synonym f32 = "32 word"


section \<open>Fallible calls\<close>

definition bindE :: "'e + 'a \<Rightarrow> ('a \<Rightarrow> 'e + 'b) \<Rightarrow> 'e + 'b" where
  "bindE m f = (case m of Inl e \<Rightarrow> Inl e | Inr a \<Rightarrow> f a)"

lemma bindE_simps [simp]: "bindE (Inl e) f = Inl e" "bindE (Inr a) f = f a"
  by (simp_all add: bindE_def)

lemma bindE_Inr_iff [result_iff]: "bindE m f = Inr b \<longleftrightarrow> (\<exists>a. m = Inr a \<and> f a = Inr b)"
  by (cases m) auto

lemma bindE_Inl_iff [result_iff]:
  "bindE m f = Inl e \<longleftrightarrow> m = Inl e \<or> (\<exists>a. m = Inr a \<and> f a = Inl e)"
  by (cases m) auto


section \<open>Conjunctions of several parts\<close>

lemma conj3I: "A \<Longrightarrow> B \<Longrightarrow> C \<Longrightarrow> A \<and> B \<and> C" by simp
lemma conj4I: "A \<Longrightarrow> B \<Longrightarrow> C \<Longrightarrow> D \<Longrightarrow> A \<and> B \<and> C \<and> D" by simp
lemma conj6I: "A \<Longrightarrow> B \<Longrightarrow> C \<Longrightarrow> D \<Longrightarrow> E \<Longrightarrow> F \<Longrightarrow> A \<and> B \<and> C \<and> D \<and> E \<and> F"
  by simp


section \<open>Lists\<close>

lemma take_drop_append_row:
  "length xs = i * d \<Longrightarrow> length x = d \<Longrightarrow> take d (drop (i * d) (xs @ x)) = x"
  by simp

lemma take_drop_prefix_row:
  assumes "length xs = n * d" and "i < n"
  shows "take d (drop (i * d) (xs @ ys)) = take d (drop (i * d) xs)"
proof -
  have "i * d + d \<le> n * d" using assms(2) by (metis Suc_leI add.commute mult_Suc mult_le_mono1)
  then show ?thesis using assms(1) by simp
qed

lemma take_drop_take_row:
  assumes "i < k"
  shows "take d (drop (i * d) (take (k * d) xs)) = take d (drop (i * d) xs)"
proof -
  have "i * d + d \<le> k * d" using assms by (metis Suc_leI add.commute mult_Suc mult_le_mono1)
  then show ?thesis by (simp add: take_drop min_def)
qed

lemma sum_list_map_remove1:
  "x \<in> set xs \<Longrightarrow> f x + sum_list (map f (remove1 x xs)) = (sum_list (map f xs) :: nat)"
  by (induction xs) auto

lemma distinct_removeAll_snoc: "distinct xs \<Longrightarrow> distinct (removeAll x xs @ [x])"
  by (simp add: distinct_removeAll)


section \<open>Little-endian byte encodings\<close>

definition le_bytes :: "nat \<Rightarrow> 'a::len word \<Rightarrow> u8 list" where
  "le_bytes n w = map (\<lambda>i. ucast (drop_bit (8 * i) w)) [0..<n]"

fun le_word :: "u8 list \<Rightarrow> 'a::len word" where
  "le_word [] = 0"
| "le_word (b # bs) = push_bit 8 (le_word bs) OR ucast b"

lemma length_le_bytes [simp]: "length (le_bytes n w) = n"
  by (simp add: le_bytes_def)

lemma bit_le_word:
  "bit (le_word bs :: 'a::len word) i \<longleftrightarrow>
     i < LENGTH('a) \<and> i div 8 < length bs \<and> bit (bs ! (i div 8)) (i mod 8)"
proof (induction bs arbitrary: i)
  case Nil
  then show ?case by simp
next
  case (Cons b bs)
  show ?case
  proof (cases "i < 8")
    case True
    then show ?thesis by (auto simp: bit_or_iff bit_push_bit_iff bit_ucast_iff)
  next
    case False
    then have "\<not> bit b i" using bit_imp_le_length [of b i] by auto
    moreover have "(i - 8) div 8 = i div 8 - 1" and "(i - 8) mod 8 = i mod 8" and "0 < i div 8"
      using False by (simp_all add: le_div_geq le_mod_geq)
    ultimately show ?thesis
      using False Cons.IH [of "i - 8"]
      by (auto simp: bit_or_iff bit_push_bit_iff bit_ucast_iff nth_Cons') linarith
  qed
qed

lemma le_word_le_bytes:
  assumes "LENGTH('a) \<le> 8 * n"
  shows "le_word (le_bytes n w) = (w :: 'a::len word)"
proof (rule bit_word_eqI)
  fix i assume i: "i < LENGTH('a)"
  then have "i div 8 < n" using assms by auto
  then show "bit (le_word (le_bytes n w) :: 'a word) i = bit w i"
    using i by (simp add: bit_le_word le_bytes_def bit_ucast_iff bit_drop_bit_eq)
qed

lemma le_word32_bytes [simp]: "le_word (le_bytes 4 w) = (w :: u32)"
  by (rule le_word_le_bytes) simp

lemma le_word64_bytes [simp]: "le_word (le_bytes 8 w) = (w :: u64)"
  by (rule le_word_le_bytes) simp

text \<open>\<open>chunks_exact\<close>: whole chunks of \<open>n\<close>, a shorter tail is left out.\<close>

function chunks_exact :: "nat \<Rightarrow> 'a list \<Rightarrow> 'a list list" where
  "chunks_exact n xs =
     (if n = 0 \<or> length xs < n then [] else take n xs # chunks_exact n (drop n xs))"
  by pat_completeness auto
termination
proof (relation "measure (\<lambda>(n, xs). length xs)", goal_cases)
  case (2 n xs)
  then have "0 < n" and "n \<le> length xs" by simp_all
  then show ?case by simp
qed simp

declare chunks_exact.simps [simp del]

lemma chunks_exact_append:
  "0 < n \<Longrightarrow> length x = n \<Longrightarrow> chunks_exact n (x @ xs) = x # chunks_exact n xs"
  by (simp add: chunks_exact.simps [of n "x @ xs"])

lemma chunks_exact_Nil [simp]: "chunks_exact n [] = []"
  by (cases n) (simp_all add: chunks_exact.simps)

definition f32s_to_bytes :: "f32 list \<Rightarrow> u8 list" where
  "f32s_to_bytes vs = concat (map (le_bytes 4) vs)"

definition f32s_of_bytes :: "u8 list \<Rightarrow> f32 list" where
  "f32s_of_bytes bs = map le_word (chunks_exact 4 bs)"

lemma length_f32s_to_bytes [simp]: "length (f32s_to_bytes vs) = 4 * length vs"
  by (induction vs) (simp_all add: f32s_to_bytes_def)

lemma f32s_to_bytes_append: "f32s_to_bytes (xs @ ys) = f32s_to_bytes xs @ f32s_to_bytes ys"
  by (simp add: f32s_to_bytes_def)

lemma f32s_of_to_bytes [simp]: "f32s_of_bytes (f32s_to_bytes vs) = vs"
  by (induction vs) (simp_all add: f32s_to_bytes_def f32s_of_bytes_def chunks_exact_append)

lemma le_bytes_le_word:
  assumes "8 * length bs \<le> LENGTH('a)"
  shows "le_bytes (length bs) (le_word bs :: 'a::len word) = bs"
proof (rule nth_equalityI)
  fix i assume i: "i < length (le_bytes (length bs) (le_word bs :: 'a word))"
  then have ib: "i < length bs" by simp
  show "le_bytes (length bs) (le_word bs :: 'a word) ! i = bs ! i"
  proof (rule bit_word_eqI)
    fix j assume "j < LENGTH(8)"
    then have "j < 8" by simp
    moreover from this have "8 * i + j < LENGTH('a)" using ib assms by linarith
    ultimately show "bit (le_bytes (length bs) (le_word bs :: 'a word) ! i) j = bit (bs ! i) j"
      using ib by (simp add: le_bytes_def bit_ucast_iff bit_drop_bit_eq bit_le_word)
  qed
qed simp

lemma f32s_to_of_bytes:
  "length bs = 4 * n \<Longrightarrow> f32s_to_bytes (f32s_of_bytes bs) = bs"
proof (induction n arbitrary: bs)
  case 0
  then show ?case by (simp add: f32s_of_bytes_def f32s_to_bytes_def)
next
  case (Suc n)
  have t: "length (take 4 bs) = 4" using Suc.prems by simp
  have "chunks_exact 4 bs = take 4 bs # chunks_exact 4 (drop 4 bs)"
    using Suc.prems by (simp add: chunks_exact.simps [of 4 bs])
  moreover have "le_bytes 4 (le_word (take 4 bs) :: f32) = take 4 bs"
    using le_bytes_le_word [of "take 4 bs", where 'a = 32] t by simp
  moreover have "f32s_to_bytes (f32s_of_bytes (drop 4 bs)) = drop 4 bs"
    using Suc.prems by (intro Suc.IH) simp
  ultimately show ?case by (simp add: f32s_of_bytes_def f32s_to_bytes_def)
qed

lemma length_f32s_of_bytes: "length bs = 4 * n \<Longrightarrow> length (f32s_of_bytes bs) = n"
  using f32s_to_of_bytes [of bs n] length_f32s_to_bytes [of "f32s_of_bytes bs"] by simp


section \<open>Ordered maps\<close>

text \<open>
  Rust's \<open>BTreeMap\<close>: iteration is in key order, so the model keeps the entries in an
  association list sorted by key.
\<close>

type_synonym ('k, 'v) btree = "('k \<times> 'v) list"

fun bt_insert :: "'k::linorder \<Rightarrow> 'v \<Rightarrow> ('k, 'v) btree \<Rightarrow> ('k, 'v) btree" where
  "bt_insert k v [] = [(k, v)]"
| "bt_insert k v ((k', v') # m) =
     (if k < k' then (k, v) # (k', v') # m
      else if k = k' then (k, v) # m
      else (k', v') # bt_insert k v m)"

definition bt_remove :: "'k \<Rightarrow> ('k, 'v) btree \<Rightarrow> ('k, 'v) btree" where
  "bt_remove k m = filter (\<lambda>e. fst e \<noteq> k) m"

definition bt_retain :: "('k \<Rightarrow> bool) \<Rightarrow> ('k, 'v) btree \<Rightarrow> ('k, 'v) btree" where
  "bt_retain P m = filter (\<lambda>e. P (fst e)) m"

definition bt_keys :: "('k, 'v) btree \<Rightarrow> 'k list" where
  "bt_keys m = map fst m"

definition bt_inv :: "('k::linorder, 'v) btree \<Rightarrow> bool" where
  "bt_inv m \<longleftrightarrow> sorted_wrt (<) (map fst m)"

locale ordered_map =
  fixes empty :: "'m"
    and update :: "'k::linorder \<Rightarrow> 'v \<Rightarrow> 'm \<Rightarrow> 'm"
    and delete :: "'k \<Rightarrow> 'm \<Rightarrow> 'm"
    and retain :: "('k \<Rightarrow> bool) \<Rightarrow> 'm \<Rightarrow> 'm"
    and lookup :: "'m \<Rightarrow> 'k \<rightharpoonup> 'v"
    and keys :: "'m \<Rightarrow> 'k list"
    and invar :: "'m \<Rightarrow> bool"
  assumes invar_empty: "invar empty"
    and invar_update: "invar m \<Longrightarrow> invar (update k v m)"
    and invar_delete: "invar m \<Longrightarrow> invar (delete k m)"
    and invar_retain: "invar m \<Longrightarrow> invar (retain P m)"
    and lookup_empty: "lookup empty = Map.empty"
    and lookup_update: "invar m \<Longrightarrow> lookup (update k v m) = (lookup m)(k \<mapsto> v)"
    and lookup_delete: "invar m \<Longrightarrow> lookup (delete k m) = (lookup m)(k := None)"
    and lookup_retain: "invar m \<Longrightarrow> lookup (retain P m) = lookup m |` {k. P k}"
    and keys_sorted: "invar m \<Longrightarrow> sorted_wrt (<) (keys m)"
    and set_keys: "set (keys m) = dom (lookup m)"
begin

lemma keys_update:
  "invar m \<Longrightarrow> set (keys (update k v m)) = insert k (set (keys m))"
  by (simp add: set_keys lookup_update)

lemma keys_delete: "invar m \<Longrightarrow> set (keys (delete k m)) = set (keys m) - {k}"
  by (simp add: set_keys lookup_delete)

lemma distinct_keys: "invar m \<Longrightarrow> distinct (keys m)"
  using keys_sorted strict_sorted_iff by blast

lemma length_keys: "invar m \<Longrightarrow> length (keys m) = card (dom (lookup m))"
  by (metis distinct_card distinct_keys set_keys)

text \<open>The first key that a test accepts is the least one.\<close>

lemma find_key_least:
  assumes "invar m" and "find P (keys m) = Some k"
  shows "k \<in> dom (lookup m) \<and> P k \<and> (\<forall>k' \<in> dom (lookup m). P k' \<longrightarrow> k \<le> k')"
proof -
  from assms(2) obtain i where i: "i < length (keys m)" "P (keys m ! i)" "k = keys m ! i"
    "\<forall>j<i. \<not> P (keys m ! j)" by (auto simp: find_Some_iff)
  have "k \<le> k'" if k': "k' \<in> dom (lookup m)" "P k'" for k'
  proof -
    from k'(1) obtain j where j: "j < length (keys m)" "k' = keys m ! j"
      by (metis in_set_conv_nth set_keys)
    with i(4) k'(2) have "i \<le> j" by (meson not_le)
    with i j keys_sorted [OF assms(1)] show ?thesis
      by (metis le_less sorted_wrt_iff_nth_less order.order_iff_strict)
  qed
  with i show ?thesis by (metis nth_mem set_keys)
qed

lemma find_key_None:
  "find P (keys m) = None \<longleftrightarrow> (\<forall>k \<in> dom (lookup m). \<not> P k)"
  by (simp add: find_None_iff set_keys) blast

end

lemma bt_insert_keys: "set (map fst (bt_insert k v m)) = insert k (set (map fst m))"
  by (induction k v m rule: bt_insert.induct) auto

lemma bt_insert_sorted:
  "sorted_wrt (<) (map fst m) \<Longrightarrow> sorted_wrt (<) (map fst (bt_insert k v m))"
proof (induction k v m rule: bt_insert.induct)
  case (1 k v)
  then show ?case by simp
next
  case (2 k v k' v' m)
  then show ?case using bt_insert_keys [of k v m] by force
qed

lemma bt_insert_lookup:
  "sorted_wrt (<) (map fst m) \<Longrightarrow> map_of (bt_insert k v m) = (map_of m)(k \<mapsto> v)"
  by (induction k v m rule: bt_insert.induct) (auto simp: fun_eq_iff)

lemma map_of_filter_key: "map_of (filter (\<lambda>e. P (fst e)) m) = map_of m |` {k. P k}"
  by (induction m) (auto simp: fun_eq_iff restrict_map_def)

lemma sorted_wrt_filter_fst:
  "sorted_wrt (<) (map fst m) \<Longrightarrow> sorted_wrt (<) (map fst (filter P m))"
  by (induction m) auto

lemma bt_remove_lookup: "map_of (bt_remove k m) = (map_of m)(k := None)"
  by (induction m) (auto simp: bt_remove_def fun_eq_iff)

interpretation bt: ordered_map "[]" bt_insert bt_remove bt_retain map_of bt_keys bt_inv
proof (unfold_locales, goal_cases)
  case 1 show ?case by (simp add: bt_inv_def)
next
  case 2 then show ?case by (simp add: bt_inv_def bt_insert_sorted)
next
  case 3 then show ?case by (simp add: bt_inv_def bt_remove_def sorted_wrt_filter_fst)
next
  case 4 then show ?case by (simp add: bt_inv_def bt_retain_def sorted_wrt_filter_fst)
next
  case 5 show ?case by simp
next
  case 6 then show ?case by (simp add: bt_inv_def bt_insert_lookup)
next
  case 7 then show ?case by (simp add: bt_remove_lookup)
next
  case 8 then show ?case by (simp add: bt_retain_def map_of_filter_key)
next
  case 9 then show ?case by (simp add: bt_inv_def bt_keys_def)
next
  case 10 show ?case by (simp add: bt_keys_def dom_map_of_conv_image_fst)
qed

lemma bt_distinct: "bt_inv m \<Longrightarrow> distinct (map fst m)"
  using bt.distinct_keys by (simp add: bt_keys_def)

lemma bt_mem_lookup: "bt_inv m \<Longrightarrow> (k, v) \<in> set m \<Longrightarrow> map_of m k = Some v"
  by (simp add: bt_distinct)

lemma bt_insert_less: "\<forall>k' \<in> fst ` set m. k < k' \<Longrightarrow> bt_insert k v m = (k, v) # m"
  by (cases m) auto

lemma bt_reinsert:
  "bt_inv m \<Longrightarrow> map_of m k = Some v \<Longrightarrow> bt_insert k v (bt_remove k m) = m"
proof (induction m)
  case (Cons e m)
  obtain k' v' where e: "e = (k', v')" by (cases e)
  have less: "\<forall>x \<in> fst ` set m. k' < x" and inv: "bt_inv m"
    using Cons.prems(1) e by (auto simp: bt_inv_def)
  show ?case
  proof (cases "k = k'")
    case True
    then have "bt_remove k (e # m) = m"
      using e less inv by (simp add: bt_remove_def bt_inv_def) (rule filter_True, auto)
    with True e Cons.prems(2) less show ?thesis by (simp add: bt_insert_less)
  next
    case False
    then have m: "map_of m k = Some v" using Cons.prems(2) e by simp
    then have "k \<in> fst ` set m" by (force dest: map_of_SomeD)
    with less have "k' < k" by blast
    then show ?thesis using e False Cons.IH [OF inv m] by (auto simp: bt_remove_def)
  qed
qed simp

lemmas bt_simps = bt.lookup_update bt.lookup_delete bt.lookup_retain bt.lookup_empty
lemmas bt_invs = bt.invar_update bt.invar_delete bt.invar_retain bt.invar_empty


section \<open>Decimal text\<close>

function show_nat :: "nat \<Rightarrow> string" where
  "show_nat n =
     (if n < 10 then [char_of (48 + n)] else show_nat (n div 10) @ [char_of (48 + n mod 10)])"
  by pat_completeness auto
termination by (relation "measure id") auto

declare show_nat.simps [simp del]

definition is_digit_char :: "char \<Rightarrow> bool" where
  "is_digit_char c \<longleftrightarrow> 48 \<le> (of_char c :: nat) \<and> (of_char c :: nat) \<le> 57"

lemma of_char_digit: "d < 10 \<Longrightarrow> (of_char (char_of (48 + d) :: char) :: nat) = 48 + d"
  by simp

lemma show_nat_digits: "c \<in> set (show_nat n) \<Longrightarrow> is_digit_char c"
proof (induction n rule: show_nat.induct)
  case (1 n)
  show ?case
  proof (cases "n < 10")
    case True
    with "1.prems" show ?thesis by (simp add: show_nat.simps [of n] is_digit_char_def)
  next
    case False
    with "1.prems" have "c \<in> set (show_nat (n div 10)) \<or> c = char_of (48 + n mod 10)"
      by (auto simp: show_nat.simps [of n])
    then show ?thesis
    proof
      assume "c = char_of (48 + n mod 10)"
      then show ?thesis by (simp add: is_digit_char_def)
    qed (use "1.IH" False in blast)
  qed
qed

fun read_nat :: "string \<Rightarrow> nat" where
  "read_nat cs = foldl (\<lambda>n c. 10 * n + (of_char c - 48)) 0 cs"

lemma read_show_nat: "read_nat (show_nat n) = n"
proof (induction n rule: show_nat.induct)
  case (1 n)
  show ?case
    by (cases "n < 10") (use 1 in \<open>simp_all add: show_nat.simps [of n]\<close>)
qed

lemma show_nat_inject [simp]: "show_nat m = show_nat n \<longleftrightarrow> m = n"
  by (metis read_show_nat)

lemma show_nat_nonempty [simp]: "show_nat n \<noteq> []"
  by (simp add: show_nat.simps [of n])

text \<open>Two texts that continue a number with a non-digit agree only on the same number.\<close>

lemma digits_prefix_unique:
  assumes "xs @ a # us = ys @ b # vs"
    and "\<forall>c \<in> set xs. is_digit_char c" "\<forall>c \<in> set ys. is_digit_char c"
    and "\<not> is_digit_char a" "\<not> is_digit_char b"
  shows "xs = ys \<and> a # us = b # vs"
  using assms
proof (induction xs arbitrary: ys)
  case Nil
  then show ?case by (cases ys) auto
next
  case (Cons x xs)
  then show ?case by (cases ys) auto
qed

lemma show_nat_prefix_unique:
  assumes "show_nat m @ a # us = show_nat n @ b # vs"
    and "\<not> is_digit_char a" "\<not> is_digit_char b"
  shows "m = n \<and> us = vs"
  using digits_prefix_unique [OF assms(1)] assms(2,3) show_nat_digits by (metis list.inject show_nat_inject)


section \<open>Text\<close>

text \<open>\<open>to_ascii_lowercase\<close>.\<close>

definition lower_char :: "char \<Rightarrow> char" where
  "lower_char c = (let n = of_char c :: nat in if 65 \<le> n \<and> n \<le> 90 then char_of (n + 32) else c)"

definition ascii_lower :: "string \<Rightarrow> string" where
  "ascii_lower s = map lower_char s"

end
