(* ===== verification/Core.thy ===== *)
theory Core
  imports Prelude
begin

text \<open>
  \<open>garuda/src/core/mod.rs\<close>: the error type, the model's shape and its validation,
  tensors, experts, and the two storage-side plugin traits. A trait object
  (\<open>Arc<dyn StorageBackend>\<close>) is a record of its methods, as a vtable is; the state
  the methods work on (the disk) is passed explicitly. The laws a client may rely on are
  the assumptions of the locale \<open>storage_backend\<close>.

  An error keeps the variant of the source; its message is the source's format string,
  with the holes not filled in.
\<close>

type_synonym token = "32 word"
type_synonym expert_id = "32 word"
type_synonym path = string

datatype garuda_error =
    Io string
  | Storage string
  | Inference string
  | Scheduler string
  | Cache string
  | Model string
  | InvalidToken token
  | Config string
  | Timeout
  | Cancelled
  | Busy
  | RateLimit

type_synonym 'a res = "garuda_error + 'a"


section \<open>The model's shape\<close>

record model_dims =
  d_model :: nat
  n_heads :: nat
  head_dim :: nat
  d_ff :: nat
  n_experts :: nat
  dims_top_k :: nat
  vocab_size :: nat
  dims_block_size :: nat
  rope_theta :: f32

text \<open>\<open>f32::total_cmp\<close> compares these.\<close>

definition total_key :: "f32 \<Rightarrow> int" where
  "total_key x = sint (if bit x 31 then xor x 0x7FFFFFFF else x)"

definition validate_dims :: "model_dims \<Rightarrow> unit res" where
  "validate_dims d =
     (if n_heads d = 0 \<or> head_dim d = 0
      then Inl (Config ''n_heads and head_dim must both be non-zero'')
      else if n_heads d * head_dim d < d_model d
      then Inl (Config ''n_heads * head_dim ({} * {}) must cover d_model ({})'')
      else if dims_top_k d = 0 \<or> dims_top_k d > n_experts d
      then Inl (Config ''top_k ({}) must be in 1..={}'')
      else if dims_block_size d = 0
      then Inl (Config ''block_size must be non-zero'')
      else Inr ())"

lemma validate_dims_iff [result_iff]:
  "validate_dims d = Inr u \<longleftrightarrow>
     0 < n_heads d \<and> 0 < head_dim d \<and> d_model d \<le> n_heads d * head_dim d \<and>
     0 < dims_top_k d \<and> dims_top_k d \<le> n_experts d \<and> 0 < dims_block_size d"
  by (auto simp: validate_dims_def)


section \<open>Tensors and experts\<close>

record 'f tensor =
  shape :: "nat list"
  tdata :: "'f list"

definition tensor_new :: "nat list \<Rightarrow> 'f list \<Rightarrow> 'f tensor res" where
  "tensor_new sh xs =
     (if prod_list sh \<noteq> length xs
      then Inl (Inference ''shape {shape:?} implies {expected} elements but {} were supplied'')
      else Inr \<lparr>shape = sh, tdata = xs\<rparr>)"

definition tensor_zeros :: "'f \<Rightarrow> nat list \<Rightarrow> 'f tensor" where
  "tensor_zeros zero sh = \<lparr>shape = sh, tdata = replicate (prod_list sh) zero\<rparr>"

definition tensor_vector :: "'f list \<Rightarrow> 'f tensor" where
  "tensor_vector xs = \<lparr>shape = [length xs], tdata = xs\<rparr>"

definition tensor_wf :: "'f tensor \<Rightarrow> bool" where
  "tensor_wf t \<longleftrightarrow> prod_list (shape t) = length (tdata t)"

lemma tensor_constructors_wf:
  "tensor_new sh xs = Inr t \<Longrightarrow> tensor_wf t" "tensor_wf (tensor_zeros z sh)"
  "tensor_wf (tensor_vector xs)"
  by (auto simp: tensor_new_def tensor_zeros_def tensor_vector_def tensor_wf_def split: if_splits)

text \<open>The load instant of an expert is never read, and is left out.\<close>

record expert =
  e_id :: expert_id
  gate :: "f32 list"
  up :: "f32 list"
  down :: "f32 list"
  e_dims :: model_dims

definition n_params :: "model_dims \<Rightarrow> nat" where
  "n_params d = 2 * d_ff d * d_model d + d_model d * d_ff d"

definition size_bytes :: "expert \<Rightarrow> nat" where
  "size_bytes e = (length (gate e) + length (up e) + length (down e)) * 4"


section \<open>The storage trait\<close>

record 's storage_ops =
  so_read :: "'s \<Rightarrow> path \<Rightarrow> 's \<times> u8 list res"
  so_write :: "'s \<Rightarrow> path \<Rightarrow> u8 list \<Rightarrow> 's \<times> unit res"
  so_remove :: "'s \<Rightarrow> path \<Rightarrow> 's \<times> unit res"
  so_exists :: "'s \<Rightarrow> path \<Rightarrow> bool"

text \<open>
  What the caches rely on. Any call may fail, for reasons of its own; what a failed call
  must not do is touch the contents. \<open>good\<close> are the paths the laws speak of: a
  backend may use other names for its own purposes.
\<close>

locale storage_backend =
  fixes ops :: "'s storage_ops"
    and content :: "'s \<Rightarrow> path \<rightharpoonup> u8 list"
    and good :: "path \<Rightarrow> bool"
  assumes read_ok: "so_read ops s p = (s', Inr bs) \<Longrightarrow> good p \<Longrightarrow> content s p = Some bs"
    and read_frame: "so_read ops s p = (s', rr) \<Longrightarrow> good p \<Longrightarrow> good q \<Longrightarrow>
      content s' q = content s q"
    and write_ok: "so_write ops s p bs = (s', Inr u) \<Longrightarrow> good p \<Longrightarrow> content s' p = Some bs"
    and write_err: "so_write ops s p bs = (s', Inl e) \<Longrightarrow> good p \<Longrightarrow> content s' p = content s p"
    and write_frame: "so_write ops s p bs = (s', r) \<Longrightarrow> good p \<Longrightarrow> good q \<Longrightarrow> q \<noteq> p \<Longrightarrow>
      content s' q = content s q"
    and remove_frame: "so_remove ops s p = (s', r) \<Longrightarrow> good p \<Longrightarrow> good q \<Longrightarrow> q \<noteq> p \<Longrightarrow>
      content s' q = content s q"
    and remove_ok: "so_remove ops s p = (s', Inr u) \<Longrightarrow> good p \<Longrightarrow> content s' p = None"
    and exists_iff: "good p \<Longrightarrow> so_exists ops s p \<longleftrightarrow> content s p \<noteq> None"

end
