(* ===== verification/Weights.thy ===== *)
theory Weights
  imports Core
begin

text \<open>
  \<open>garuda/src/weights/mod.rs\<close>: the generator the synthetic weights come from, the
  synthetic weights themselves, and the on-disk expert format. A weight is its 32-bit
  pattern. The rounded arithmetic of the hardware is the parameter \<open>F\<close>; which patterns
  are finite is read off the exponent bits.
\<close>

section \<open>The generator\<close>

definition golden :: u64 where
  "golden = 0x9E3779B97F4A7C15"

definition mix :: "nat \<Rightarrow> u64 \<Rightarrow> u64" where
  "mix k z = z XOR drop_bit k z"

definition splitmix64 :: "u64 \<Rightarrow> u64 \<times> u64" where
  "splitmix64 st =
     (let st' = st + golden;
          z1 = mix 30 st' * 0xBF58476D1CE4E5B9;
          z2 = mix 27 z1 * 0x94D049BB133111EB
      in (st', mix 31 z2))"

record f32_ops =
  f_of_u64 :: "u64 \<Rightarrow> f32"
  f_sub :: "f32 \<Rightarrow> f32 \<Rightarrow> f32"
  f_mul :: "f32 \<Rightarrow> f32 \<Rightarrow> f32"
  f_div :: "f32 \<Rightarrow> f32 \<Rightarrow> f32"
  f_sqrt :: "f32 \<Rightarrow> f32"

definition unit_draw :: "f32_ops \<Rightarrow> u64 \<Rightarrow> f32 \<Rightarrow> f32" where
  "unit_draw F z b =
     (let u = f_div F (f_of_u64 F (drop_bit 40 z)) (f_of_u64 F (push_bit 24 1))
      in f_mul F (f_sub F (f_mul F u (f_of_u64 F 2)) (f_of_u64 F 1)) b)"

fun seeded :: "f32_ops \<Rightarrow> u64 \<Rightarrow> nat \<Rightarrow> f32 \<Rightarrow> f32 list" where
  "seeded F st 0 b = []"
| "seeded F st (Suc n) b = (case splitmix64 st of (st', z) \<Rightarrow> unit_draw F z b # seeded F st' n b)"

definition bound :: "f32_ops \<Rightarrow> nat \<Rightarrow> f32" where
  "bound F fan_in = f_div F (f_of_u64 F 1) (f_sqrt F (f_of_u64 F (of_nat fan_in)))"

lemma length_seeded [simp]: "length (seeded F st n b) = n"
  by (induction n arbitrary: st) (simp_all split: prod.split)


section \<open>The synthetic model\<close>

record model_weights =
  mw_dims :: model_dims
  embedding :: "f32 list"
  wq :: "f32 list"
  wk :: "f32 list"
  wv :: "f32 list"
  wo :: "f32 list"
  router :: "f32 list"

definition synthesize :: "f32_ops \<Rightarrow> model_dims \<Rightarrow> model_weights res" where
  "synthesize F dims =
     (case validate_dims dims of Inl e \<Rightarrow> Inl e
      | Inr _ \<Rightarrow>
          (let d = d_model dims; b = bound F d in
           Inr \<lparr>mw_dims = dims,
                embedding = seeded F 0x6761727564610001 (vocab_size dims * d) b,
                wq = seeded F 0x6761727564610002 (d * d) b,
                wk = seeded F 0x6761727564610003 (d * d) b,
                wv = seeded F 0x6761727564610004 (d * d) b,
                wo = seeded F 0x6761727564610005 (d * d) b,
                router = seeded F 0x6761727564610006 (n_experts dims * d) b\<rparr>))"

definition embed :: "model_weights \<Rightarrow> token \<Rightarrow> f32 list res" where
  "embed w t =
     (let d = d_model (mw_dims w); idx = unat t in
      if idx \<ge> vocab_size (mw_dims w) then Inl (InvalidToken t)
      else Inr (take d (drop (idx * d) (embedding w))))"

definition expert_seed :: "expert_id \<Rightarrow> u64" where
  "expert_seed i = 0x6761727564611000 XOR (ucast i * golden)"

definition synthesize_expert :: "f32_ops \<Rightarrow> expert_id \<Rightarrow> model_dims \<Rightarrow> expert" where
  "synthesize_expert F i dims =
     (let d = d_model dims; f = d_ff dims; seed = expert_seed i in
      \<lparr>e_id = i, gate = seeded F seed (f * d) (bound F d),
       up = seeded F (seed XOR 0xAAAAAAAA) (f * d) (bound F d),
       down = seeded F (seed XOR 0x55555555) (d * f) (bound F f), e_dims = dims\<rparr>)"


section \<open>The expert file\<close>

definition is_finite :: "f32 \<Rightarrow> bool" where
  "is_finite v \<longleftrightarrow> drop_bit 23 v AND 0xFF \<noteq> 0xFF"

definition expert_to_bytes :: "expert \<Rightarrow> u8 list" where
  "expert_to_bytes e = f32s_to_bytes (gate e) @ f32s_to_bytes (up e) @ f32s_to_bytes (down e)"

definition expert_from_bytes :: "expert_id \<Rightarrow> model_dims \<Rightarrow> u8 list \<Rightarrow> expert res" where
  "expert_from_bytes i dims bytes =
     (let d = d_model dims; f = d_ff dims; expected = n_params dims * 4 in
      if length bytes \<noteq> expected
      then Inl (Model ''expert {id}: expected {expected} bytes for dims {d}x{f}, found {}'')
      else
        let vals = f32s_of_bytes bytes
        in case find (\<lambda>v. \<not> is_finite v) vals of
             Some _ \<Rightarrow> Inl (Model ''expert {id}: non-finite weight at index {bad}'')
           | None \<Rightarrow>
               Inr \<lparr>e_id = i, gate = take (f * d) vals,
                    up = drop (f * d) (take (2 * f * d) vals),
                    down = drop (2 * f * d) vals, e_dims = dims\<rparr>)"

definition expert_wf :: "expert_id \<Rightarrow> model_dims \<Rightarrow> expert \<Rightarrow> bool" where
  "expert_wf i dims e \<longleftrightarrow>
     e_id e = i \<and> e_dims e = dims \<and>
     length (gate e) = d_ff dims * d_model dims \<and> length (up e) = d_ff dims * d_model dims \<and>
     length (down e) = d_model dims * d_ff dims \<and>
     list_all is_finite (gate e @ up e @ down e)"

lemma expert_from_bytes_wf:
  assumes "expert_from_bytes i dims bytes = Inr e"
  shows "expert_wf i dims e \<and> expert_to_bytes e = bytes"
proof -
  define n where "n = d_ff dims * d_model dims"
  define vals where "vals = f32s_of_bytes bytes"
  have np: "n_params dims = 3 * n" by (simp add: n_params_def n_def)
  have len: "length bytes = 4 * (3 * n)" and fin: "list_all is_finite vals"
    and e: "e = \<lparr>e_id = i, gate = take n vals, up = drop n (take (2 * n) vals),
                 down = drop (2 * n) vals, e_dims = dims\<rparr>"
    using assms np
    by (auto simp: expert_from_bytes_def Let_def vals_def n_def find_None_iff list_all_iff mult.assoc
        split: if_splits option.splits)
  have lv: "length vals = 3 * n" unfolding vals_def by (rule length_f32s_of_bytes [OF len])
  have vals: "take n vals @ drop n (take (2 * n) vals) @ drop (2 * n) vals = vals"
    by (metis append_assoc append_take_drop_id min.absorb1 take_take le_add1 mult_2)
  have "expert_to_bytes e = f32s_to_bytes (take n vals @ drop n (take (2 * n) vals) @ drop (2 * n) vals)"
    by (simp only: expert_to_bytes_def e f32s_to_bytes_append expert.simps)
  also have "\<dots> = bytes" unfolding vals unfolding vals_def by (rule f32s_to_of_bytes [OF len])
  finally have "expert_to_bytes e = bytes" .
  moreover have "gate e @ up e @ down e = vals" using vals by (simp add: e)
  ultimately show ?thesis using fin lv by (simp add: expert_wf_def e n_def)
qed

lemma expert_to_bytes_back:
  assumes "expert_wf i dims e"
  shows "expert_from_bytes i dims (expert_to_bytes e) = Inr e"
proof -
  define n where "n = d_ff dims * d_model dims"
  have len: "length (gate e) = n" "length (up e) = n" "length (down e) = n"
    and fin: "list_all is_finite (gate e @ up e @ down e)" and eq: "e_id e = i" "e_dims e = dims"
    using assms by (simp_all add: expert_wf_def n_def)
  have np: "n_params dims = 3 * n" by (simp add: n_params_def n_def)
  have bytes: "expert_to_bytes e = f32s_to_bytes (gate e @ up e @ down e)"
    by (simp add: expert_to_bytes_def f32s_to_bytes_append)
  have none: "find (\<lambda>v. \<not> is_finite v) (gate e @ up e @ down e) = None"
    using fin by (auto simp: find_None_iff list_all_iff)
  have e: "e = \<lparr>e_id = i, gate = gate e, up = up e, down = down e, e_dims = dims\<rparr>"
    using eq by simp
  show ?thesis
    unfolding expert_from_bytes_def bytes Let_def f32s_of_to_bytes none
    using len np by (subst e) (simp add: n_def [symmetric] mult.assoc)
qed

text \<open>C40 The expert file format: a file is accepted for an expert exactly when it is the encoding of
  finite weights of the model's shape, and what is read back is that expert. A file of the
  wrong length or with an infinity or a NaN in it is an error.\<close>

theorem expert_file_exact:
  "expert_from_bytes i dims bytes = Inr e \<longleftrightarrow> expert_wf i dims e \<and> bytes = expert_to_bytes e"
  using expert_from_bytes_wf [of i dims bytes e] expert_to_bytes_back [of i dims e] by auto

lemma expert_file_exact_sides:
  "expert_wf 3 \<lparr>d_model = 1, n_heads = 1, head_dim = 1, d_ff = 1, n_experts = 4, dims_top_k = 1,
        vocab_size = 256, dims_block_size = 2, rope_theta = 0\<rparr>
     \<lparr>e_id = 3, gate = [0x3F800000], up = [0], down = [0x80000000],
      e_dims = \<lparr>d_model = 1, n_heads = 1, head_dim = 1, d_ff = 1, n_experts = 4, dims_top_k = 1,
        vocab_size = 256, dims_block_size = 2, rope_theta = 0\<rparr>\<rparr>"
  "\<not> is_finite 0x7F800000" "\<not> is_finite 0x7FC00000"
  by (simp_all add: expert_wf_def is_finite_def)


section \<open>The generator never repeats\<close>

lemma bit_mix: "bit (mix k z) i \<longleftrightarrow> bit z i \<noteq> bit z (k + i)"
  by (simp add: mix_def bit_xor_iff bit_drop_bit_eq)

lemma mix_inject: "0 < k \<Longrightarrow> mix k z = mix k w \<longleftrightarrow> z = w"
proof
  assume k: "0 < k" and eq: "mix k z = mix k w"
  have "bit z i = bit w i" for i
  proof (induction "64 - i" arbitrary: i rule: less_induct)
    case less
    show ?case
    proof (cases "i < 64")
      case False
      then show ?thesis using bit_imp_le_length [of z i] bit_imp_le_length [of w i] by auto
    next
      case True
      then have "bit z (k + i) = bit w (k + i)" using k by (intro less) simp
      then show ?thesis using eq bit_mix [of k z i] bit_mix [of k w i] by metis
    qed
  qed
  then show "z = w" by (simp add: bit_eq_iff)
qed simp

lemma times_inject:
  assumes cd: "c * d = (1 :: u64)"
  shows "z * c = w * c \<longleftrightarrow> z = w"
proof
  assume "z * c = w * c"
  then have "z * c * d = w * c * d" by simp
  then show "z = w" by (simp add: mult.assoc cd)
qed simp

lemma mult_inverses:
  "(0xBF58476D1CE4E5B9 :: u64) * 0x96DE1B173F119089 = 1"
  "(0x94D049BB133111EB :: u64) * 0x319642B2D24D8EC3 = 1"
  "golden * 0xF1DE83E19937733D = 1"
  by (simp_all add: golden_def)

lemma splitmix_snd_inject: "snd (splitmix64 s) = snd (splitmix64 t) \<longleftrightarrow> s = t"
  by (simp add: splitmix64_def Let_def mix_inject times_inject [OF mult_inverses(1)]
      times_inject [OF mult_inverses(2)])

fun draw_state :: "nat \<Rightarrow> u64 \<Rightarrow> u64" where
  "draw_state 0 st = st"
| "draw_state (Suc n) st = draw_state n (fst (splitmix64 st))"

lemma draw_state_eq: "draw_state n st = st + of_nat n * golden"
  by (induction n arbitrary: st) (simp_all add: splitmix64_def Let_def algebra_simps)

text \<open>The generator behind the synthetic weights and the sampler is a permutation of its state: two
  different states never give the same draw, and a stream does not repeat a draw within \<open>2 ^ 64\<close>
  steps.\<close>

theorem splitmix64_no_repeat:
  "(snd (splitmix64 s) = snd (splitmix64 t) \<longleftrightarrow> s = t) \<and>
     (i < 2 ^ 64 \<and> j < 2 ^ 64 \<longrightarrow>
      (snd (splitmix64 (draw_state i s)) = snd (splitmix64 (draw_state j s)) \<longleftrightarrow> i = j))"
proof (rule conjI)
  show "snd (splitmix64 s) = snd (splitmix64 t) \<longleftrightarrow> s = t" by (rule splitmix_snd_inject)
  show "i < 2 ^ 64 \<and> j < 2 ^ 64 \<longrightarrow>
      (snd (splitmix64 (draw_state i s)) = snd (splitmix64 (draw_state j s)) \<longleftrightarrow> i = j)"
  proof
  assume ij: "i < 2 ^ 64 \<and> j < 2 ^ 64"
  have "(of_nat i * golden = of_nat j * golden) = ((of_nat i :: u64) = of_nat j)"
    by (rule times_inject [OF mult_inverses(3)])
  moreover have "(of_nat i :: u64) = of_nat j \<longleftrightarrow> i = j"
  proof -
    have "unat (of_nat i :: u64) = i" "unat (of_nat j :: u64) = j" using ij by (simp_all add: unat_of_nat)
    then show ?thesis by metis
  qed
  ultimately show "snd (splitmix64 (draw_state i s)) = snd (splitmix64 (draw_state j s)) \<longleftrightarrow> i = j"
    by (simp add: splitmix_snd_inject draw_state_eq)
  qed
qed

lemma splitmix64_no_repeat_witness:
  "snd (splitmix64 (draw_state 1 42)) \<noteq> snd (splitmix64 (draw_state 1000 42))"
  using splitmix64_no_repeat [where s = 42 and i = 1 and j = 1000, THEN conjunct2] by simp

lemma ucast_u32_inject: "(ucast (i :: u32) :: u64) = ucast j \<longleftrightarrow> i = j"
proof
  assume "(ucast i :: u64) = ucast j"
  then have "bit i n = bit j n" if "n < 32" for n
  proof -
    have "bit (ucast i :: u64) n = bit (ucast j :: u64) n" by (simp add: \<open>ucast i = ucast j\<close>)
    then show ?thesis using that by (simp add: bit_ucast_iff)
  qed
  then show "i = j" by (intro bit_word_eqI) simp
qed simp

lemma xor_left_cancel: "a XOR b = a XOR c \<Longrightarrow> b = (c :: 'a::len word)"
  by (auto simp: bit_eq_iff bit_xor_iff)

lemma expert_seed_inject: "expert_seed i = expert_seed j \<longleftrightarrow> i = j"
proof
  assume "expert_seed i = expert_seed j"
  then have "(ucast i :: u64) * golden = ucast j * golden"
    unfolding expert_seed_def by (rule xor_left_cancel)
  then show "i = j" by (simp add: times_inject [OF mult_inverses(3)] ucast_u32_inject)
qed simp

end
