(* ===== verification/Sampling.thy ===== *)
theory Sampling
  imports Weights
begin

text \<open>
  \<open>garuda/src/runtime/mod.rs\<close>, from logits to a token: the parameters and their
  validation, the generator, the candidate list (temperature, top-k, top-p), the draw, and
  the decision on a speculated token. The float type is a parameter \<open>'f\<close> with the
  operations the code uses in the record \<open>fops\<close>; what a lemma needs of them it says.
\<close>

record 'f fops =
  fzero :: 'f
  fone :: 'f
  neg_infinity :: 'f
  flt :: "'f \<Rightarrow> 'f \<Rightarrow> bool"
  fle :: "'f \<Rightarrow> 'f \<Rightarrow> bool"
  ffinite :: "'f \<Rightarrow> bool"
  fadd :: "'f \<Rightarrow> 'f \<Rightarrow> 'f"
  fsub :: "'f \<Rightarrow> 'f \<Rightarrow> 'f"
  fmul :: "'f \<Rightarrow> 'f \<Rightarrow> 'f"
  fdiv :: "'f \<Rightarrow> 'f \<Rightarrow> 'f"
  fmin :: "'f \<Rightarrow> 'f \<Rightarrow> 'f"
  fmax :: "'f \<Rightarrow> 'f \<Rightarrow> 'f"
  softmax :: "'f list \<Rightarrow> 'f list"
  unit_of :: "u64 \<Rightarrow> 'f"

record 'f sampling_params =
  temperature :: 'f
  top_p :: 'f
  sp_top_k :: nat
  max_tokens :: nat
  sp_seed :: "u64 option"

definition validate_params :: "'f fops \<Rightarrow> 'f sampling_params \<Rightarrow> unit res" where
  "validate_params F p =
     (if \<not> ffinite F (temperature p) \<or> flt F (temperature p) (fzero F)
      then Inl (Config ''temperature must be a non-negative number, got {}'')
      else if \<not> ffinite F (top_p p) \<or> fle F (top_p p) (fzero F) \<or> flt F (fone F) (top_p p)
      then Inl (Config ''top_p must be in (0, 1], got {}'')
      else if max_tokens p = 0
      then Inl (Config ''max_tokens must be at least 1'')
      else Inr ())"

definition is_greedy :: "'f fops \<Rightarrow> 'f sampling_params \<Rightarrow> bool" where
  "is_greedy F p \<longleftrightarrow> fle F (temperature p) (fzero F) \<and> fle F (fzero F) (temperature p)"

definition rng_new :: "u64 \<Rightarrow> u64" where
  "rng_new seed = seed XOR golden"

text \<open>The top 24 bits of a draw, as a number in \<open>[0, 1)\<close>.\<close>

definition next_f32 :: "'f fops \<Rightarrow> u64 \<Rightarrow> u64 \<times> 'f" where
  "next_f32 F r = (case splitmix64 r of (r', z) \<Rightarrow> (r', unit_of F (drop_bit 40 z)))"

type_synonym 'f cand = "token \<times> 'f"

definition fsum :: "'f fops \<Rightarrow> 'f list \<Rightarrow> 'f" where
  "fsum F xs = foldl (fadd F) (fzero F) xs"

definition by_likelihood :: "('f, 'z) fops_scheme \<Rightarrow> 'f cand \<Rightarrow> 'f cand \<Rightarrow> bool" where
  "by_likelihood F a b =
     (if flt F (snd b) (snd a) then True
      else if flt F (snd a) (snd b) then False
      else fst a \<le> fst b)"

fun insert_by :: "('a \<Rightarrow> 'a \<Rightarrow> bool) \<Rightarrow> 'a \<Rightarrow> 'a list \<Rightarrow> 'a list" where
  "insert_by le x [] = [x]"
| "insert_by le x (y # ys) = (if le x y then x # y # ys else y # insert_by le x ys)"

definition sort_by :: "('a \<Rightarrow> 'a \<Rightarrow> bool) \<Rightarrow> 'a list \<Rightarrow> 'a list" where
  "sort_by le xs = foldr (insert_by le) xs []"

text \<open>How many candidates top-p keeps: up to the first whose running sum reaches it.\<close>

fun nucleus :: "'f fops \<Rightarrow> 'f \<Rightarrow> 'f \<Rightarrow> nat \<Rightarrow> 'f cand list \<Rightarrow> nat" where
  "nucleus F limit cum i [] = i"
| "nucleus F limit cum i (c # cs) =
     (let cum' = fadd F cum (snd c)
      in if fle F limit cum' then Suc i else nucleus F limit cum' (Suc i) cs)"

text \<open>The partition before the sort keeps the first \<open>top_k\<close> of the order, sorted.\<close>

definition candidates_of :: "'f fops \<Rightarrow> 'f list \<Rightarrow> 'f sampling_params \<Rightarrow> 'f cand list" where
  "candidates_of F logits p =
     (let scaled = softmax F (map (\<lambda>v. fdiv F v (temperature p)) logits);
          all = map (\<lambda>(i, w). (of_nat i, w)) (enumerate 0 scaled);
          sorted = sort_by (by_likelihood F) all;
          top = (if 0 < sp_top_k p \<and> sp_top_k p < length all then take (sp_top_k p) sorted else sorted)
      in if flt F (top_p p) (fone F)
         then take (max (nucleus F (top_p p) (fzero F) 0 top) 1) top
         else top)"

definition greedy_pick :: "'f fops \<Rightarrow> 'f list \<Rightarrow> token" where
  "greedy_pick F logits =
     of_nat (fst (foldl (\<lambda>(bi, bv) (i, v). if flt F bv v then (i, v) else (bi, bv))
                        (0, neg_infinity F) (enumerate 0 logits)))"

text \<open>Walk the list, taking weights off the point, until it is used up.\<close>

fun draw_at :: "'f fops \<Rightarrow> 'f \<Rightarrow> 'f cand list \<Rightarrow> token option" where
  "draw_at F point [] = None"
| "draw_at F point ((t, w) # cs) =
     (let point' = fsub F point w in if fle F point' (fzero F) then Some t else draw_at F point' cs)"

definition draw_token :: "'f fops \<Rightarrow> 'f cand list \<Rightarrow> u64 \<Rightarrow> u64 \<times> token" where
  "draw_token F cs r =
     (let tot = fsum F (map snd cs) in
      if fle F tot (fzero F) then (r, fst (hd cs))
      else case next_f32 F r of (r', u) \<Rightarrow>
        (case draw_at F (fmul F u tot) cs of Some t \<Rightarrow> (r', t) | None \<Rightarrow> (r', fst (last cs))))"

definition sample :: "'f fops \<Rightarrow> 'f list \<Rightarrow> 'f sampling_params \<Rightarrow> u64 \<Rightarrow> u64 \<times> token res" where
  "sample F logits p r =
     (if logits = [] then (r, Inl (Inference ''cannot sample from empty logits''))
      else if is_greedy F p then (r, Inr (greedy_pick F logits))
      else case draw_token F (candidates_of F logits p) r of (r', t) \<Rightarrow> (r', Inr t))"


section \<open>Verifying a guess\<close>

definition mass :: "'f fops \<Rightarrow> 'f cand list \<Rightarrow> token \<Rightarrow> 'f" where
  "mass F d t = (case find (\<lambda>(x, _). x = t) d of Some (_, w) \<Rightarrow> w | None \<Rightarrow> fzero F)"

definition residual_of :: "'f fops \<Rightarrow> token \<Rightarrow> 'f cand list option \<Rightarrow> 'f \<Rightarrow> 'f \<Rightarrow> 'f cand \<Rightarrow> 'f" where
  "residual_of F drafted dist q_norm tot c =
     (case dist of
        None \<Rightarrow> (if fst c = drafted then fzero F else snd c)
      | Some q \<Rightarrow> fmax F (fsub F (snd c) (fmul F (fdiv F (mass F q (fst c)) q_norm) tot)) (fzero F))"

definition reject_with :: "'f fops \<Rightarrow> 'f cand list \<Rightarrow> token \<Rightarrow> 'f cand list option \<Rightarrow> 'f \<Rightarrow> u64 \<Rightarrow> u64 \<times> bool \<times> token" where
  "reject_with F cands drafted dist tot r =
     (let q_norm = (case dist of None \<Rightarrow> fone F | Some q \<Rightarrow> fsum F (map snd q));
          rest = map (\<lambda>c. (fst c, residual_of F drafted dist q_norm tot c)) cands;
          residual = fsum F (map snd rest)
      in if fle F residual (fzero F) then (r, True, drafted)
         else case next_f32 F r of (r', u) \<Rightarrow>
           (case draw_at F (fmul F u residual) rest of
              Some t \<Rightarrow> (r', False, t)
            | None \<Rightarrow>
                (r', False, case find (\<lambda>(t, _). t \<noteq> drafted) (rev cands) of
                              Some (t, _) \<Rightarrow> t | None \<Rightarrow> drafted)))"

definition verify_against ::
    "'f fops \<Rightarrow> 'f cand list \<Rightarrow> token \<Rightarrow> 'f cand list option \<Rightarrow> u64 \<Rightarrow> u64 \<times> bool \<times> token" where
  "verify_against F cands drafted dist r =
     (let tot = fsum F (map snd cands) in
      if fle F tot (fzero F) then (r, False, fst (hd cands))
      else
        let q_drafted =
              (case dist of
                 None \<Rightarrow> Some (fone F)
               | Some q \<Rightarrow>
                   (let qt = fsum F (map snd q)
                    in if fle F qt (fzero F) then None else Some (fdiv F (mass F q drafted) qt)))
        in case q_drafted of
             None \<Rightarrow> (r, False, fst (hd cands))
           | Some qd \<Rightarrow>
               (let pd = fdiv F (mass F cands drafted) tot
                in if flt F (fzero F) qd
                   then case next_f32 F r of (r1, u) \<Rightarrow>
                     (if flt F u (fmin F (fdiv F pd qd) (fone F)) then (r1, True, drafted)
                      else reject_with F cands drafted dist tot r1)
                   else reject_with F cands drafted dist tot r))"


section \<open>Guessing from the context\<close>

fun latest_match :: "token list \<Rightarrow> nat \<Rightarrow> nat \<Rightarrow> token list \<Rightarrow> nat \<Rightarrow> token list" where
  "latest_match ctx maxt ngram needle 0 = []"
| "latest_match ctx maxt ngram needle (Suc start) =
     (if take ngram (drop start ctx) \<noteq> needle then latest_match ctx maxt ngram needle start
      else
        let from = start + ngram; n = min maxt (length ctx - from)
        in if 0 < n then take n (drop from ctx) else latest_match ctx maxt ngram needle start)"

definition draft_from_context :: "token list \<Rightarrow> nat \<Rightarrow> nat \<Rightarrow> token list" where
  "draft_from_context ctx maxt ngram =
     (if maxt = 0 \<or> ngram = 0 \<or> length ctx \<le> ngram then []
      else latest_match ctx maxt ngram (drop (length ctx - ngram) ctx) (length ctx - ngram))"

section \<open>What the functions answer\<close>

lemma set_insert_by [simp]: "set (insert_by le x ys) = insert x (set ys)"
  by (induction ys) auto

lemma length_insert_by [simp]: "length (insert_by le x ys) = Suc (length ys)"
  by (induction ys) auto

lemma sort_by_simps [simp]: "sort_by le [] = []" "sort_by le (x # xs) = insert_by le x (sort_by le xs)"
  by (simp_all add: sort_by_def)

lemma set_sort_by [simp]: "set (sort_by le xs) = set xs"
  by (induction xs) auto

lemma length_sort_by [simp]: "length (sort_by le xs) = length xs"
  by (induction xs) auto

lemma sort_by_sorted:
  assumes total: "\<And>a b. le a b \<or> le b a" and trans: "\<And>a b c. le a b \<Longrightarrow> le b c \<Longrightarrow> le a c"
  shows "sorted_wrt le (sort_by le xs)"
proof (induction xs)
  case (Cons x xs)
  have "sorted_wrt le ys \<Longrightarrow> sorted_wrt le (insert_by le x ys)" for ys
  proof (induction ys)
    case (Cons y ys)
    then show ?case using total [of x y] trans by (auto intro: trans)
  qed simp
  then show ?case using Cons by simp
qed simp

lemma draw_at_in: "draw_at F pt cs = Some t \<Longrightarrow> t \<in> fst ` set cs"
  by (induction F pt cs rule: draw_at.induct) (auto simp: Let_def split: if_splits)

lemma draw_token_in: "cs \<noteq> [] \<Longrightarrow> snd (draw_token F cs r) \<in> fst ` set cs"
  by (auto simp: draw_token_def Let_def draw_at_in split: prod.split option.split)

lemma candidates_of_spec:
  assumes "length (softmax F (map (\<lambda>v. fdiv F v (temperature p)) logits)) = length logits"
  shows "fst ` set (candidates_of F logits p) \<subseteq> of_nat ` {..<length logits}"
    and "logits \<noteq> [] \<Longrightarrow> candidates_of F logits p \<noteq> []"
    and "0 < sp_top_k p \<Longrightarrow> length (candidates_of F logits p) \<le> sp_top_k p"
proof -
  define scaled where "scaled = softmax F (map (\<lambda>v. fdiv F v (temperature p)) logits)"
  define all where "all = map (\<lambda>(i, w). (of_nat i :: token, w)) (enumerate 0 scaled)"
  define top where "top = (if 0 < sp_top_k p \<and> sp_top_k p < length all
    then take (sp_top_k p) (sort_by (by_likelihood F) all) else sort_by (by_likelihood F) all)"
  have c: "candidates_of F logits p =
      (if flt F (top_p p) (fone F) then take (max (nucleus F (top_p p) (fzero F) 0 top) 1) top else top)"
    by (simp add: candidates_of_def Let_def scaled_def all_def top_def)
  have len: "length all = length logits" using assms by (simp add: all_def scaled_def)
  have "fst ` set all = of_nat ` {..<length logits}"
  proof -
    have "fst ` set all = of_nat ` fst ` set (enumerate 0 scaled)" by (force simp: all_def)
    also have "fst ` set (enumerate 0 scaled) = {..<length logits}"
      using assms by (simp add: scaled_def flip: list.set_map) auto
    finally show ?thesis .
  qed
  moreover have "set top \<subseteq> set all" by (auto simp: top_def dest: in_set_takeD)
  moreover have "set (candidates_of F logits p) \<subseteq> set top" by (auto simp: c dest: in_set_takeD)
  ultimately show "fst ` set (candidates_of F logits p) \<subseteq> of_nat ` {..<length logits}" by blast
  show "candidates_of F logits p \<noteq> []" if "logits \<noteq> []"
  proof -
    have "length (sort_by (by_likelihood F) all) = length logits" using len by simp
    then have "length top \<noteq> 0" using that by (auto simp: top_def simp del: length_sort_by)
    then have "top \<noteq> []" by auto
    then show ?thesis by (auto simp: c max_def)
  qed
  show "length (candidates_of F logits p) \<le> sp_top_k p" if "0 < sp_top_k p"
  proof -
    have "length top \<le> sp_top_k p" using that by (auto simp: top_def)
    then show ?thesis by (auto simp: c intro: le_trans [OF min.cobounded1])
  qed
qed

lemma greedy_fold:
  "fst (foldl (\<lambda>(bi, bv) (i, v). if flt F bv v then (i, v) else (bi, bv)) (b, w) (enumerate n xs))
     \<in> insert b {n..<n + length xs}"
proof (induction xs arbitrary: b w n)
  case (Cons x xs)
  show ?case using Cons [of n x "Suc n"] Cons [of b w "Suc n"] by auto
qed simp

lemma greedy_pick_in:
  assumes "logits \<noteq> []" and "length logits < 2 ^ 32"
  shows "unat (greedy_pick F logits) < length logits"
proof -
  let ?i = "fst (foldl (\<lambda>(bi, bv) (i, v). if flt F bv v then (i, v) else (bi, bv))
      (0, neg_infinity F) (enumerate 0 logits))"
  have "?i \<in> insert 0 {0..<0 + length logits}" by (rule greedy_fold)
  then have "?i < length logits" using assms(1) by auto
  then show ?thesis using assms(2) by (simp add: greedy_pick_def unat_of_nat)
qed


section \<open>Properties\<close>

text \<open>C14 Sampling stays in the vocabulary: whatever the logits and the parameters, a sampled token is the
  index of one of the logits; under top-k it is one of at most \<open>top_k\<close> candidates. Greedy
  sampling does not consume the generator. Only empty logits are refused.\<close>

theorem sample_in_vocabulary:
  assumes "length (softmax F (map (\<lambda>v. fdiv F v (temperature p)) logits)) = length logits"
    and "length logits < 2 ^ 32"
  shows "case sample F logits p r of
      (r', Inl e) \<Rightarrow> logits = [] \<and> r' = r
    | (r', Inr t) \<Rightarrow> unat t < length logits \<and> (is_greedy F p \<longrightarrow> r' = r) \<and>
        (\<not> is_greedy F p \<and> 0 < sp_top_k p \<longrightarrow>
          t \<in> fst ` set (candidates_of F logits p) \<and> length (candidates_of F logits p) \<le> sp_top_k p)"
proof -
  note c = candidates_of_spec [OF assms(1)]
  consider "logits = []" | "logits \<noteq> []" "is_greedy F p" | "logits \<noteq> []" "\<not> is_greedy F p" by blast
  then show ?thesis
  proof cases
    case 2
    then show ?thesis using greedy_pick_in [OF _ assms(2)] by (simp add: sample_def)
  next
    case 3
    obtain r' t where d: "draw_token F (candidates_of F logits p) r = (r', t)" by fastforce
    have t: "t \<in> fst ` set (candidates_of F logits p)"
      using draw_token_in [OF c(2) [OF 3(1)], of F r] by (simp add: d)
    then obtain i where "i < length logits" "t = of_nat i" using c(1) by auto
    then have "unat t < length logits" using assms(2) by (simp add: unat_of_nat)
    then show ?thesis using 3 t c(3) by (simp add: sample_def d)
  qed (simp add: sample_def)
qed

text \<open>Integer arithmetic, for the witnesses: weights are counted in units of a draw.\<close>

definition int_ops :: "int fops" where
  "int_ops = \<lparr>fzero = 0, fone = 1, neg_infinity = -1000, flt = (<), fle = (\<le>), ffinite = \<lambda>_. True,
     fadd = (+), fsub = (-), fmul = (*), fdiv = (div), fmin = min, fmax = max,
     softmax = (\<lambda>xs. xs), unit_of = (\<lambda>_. 1)\<rparr>"

definition hot :: "int sampling_params" where
  "hot = \<lparr>temperature = 1, top_p = 1, sp_top_k = 2, max_tokens = 8, sp_seed = None\<rparr>"

definition cold :: "int sampling_params" where
  "cold = \<lparr>temperature = 0, top_p = 1, sp_top_k = 0, max_tokens = 8, sp_seed = None\<rparr>"

lemma sample_in_vocabulary_witness:
  "case sample int_ops [3, 1, 4, 1, 5] hot 42 of (r', Inr t) \<Rightarrow> unat t < 5 | (r', Inl e) \<Rightarrow> False"
  using sample_in_vocabulary [of int_ops hot "[3, 1, 4, 1, 5]" 42]
  by (auto simp: int_ops_def hot_def split: prod.splits sum.splits)

lemma greedy_fold_max:
  fixes lt :: "'f \<Rightarrow> 'f \<Rightarrow> bool"
  assumes irr: "\<forall>a. \<not> lt a a" and tr: "\<forall>a b c. lt a b \<longrightarrow> lt b c \<longrightarrow> lt a c"
    and ntr: "\<forall>a b c. \<not> lt a b \<longrightarrow> \<not> lt b c \<longrightarrow> \<not> lt a c"
  defines "step \<equiv> \<lambda>(bi :: nat, bv) (i, v). if lt bv v then (i, v) else (bi, bv)"
  shows "foldl step (b, w) (enumerate n xs) = (i, v) \<Longrightarrow>
    (i = b \<and> v = w \<and> (\<forall>j < length xs. \<not> lt w (xs ! j))) \<or>
    (n \<le> i \<and> i - n < length xs \<and> v = xs ! (i - n) \<and> lt w v \<and>
     (\<forall>j < length xs. \<not> lt v (xs ! j)) \<and> (\<forall>j < i - n. lt (xs ! j) v))"
proof (induction xs arbitrary: b w n)
  case Nil
  then show ?case by simp
next
  case (Cons x xs)
  have run: "foldl step (if lt w x then (n, x) else (b, w)) (enumerate (Suc n) xs) = (i, v)"
    using Cons.prems by (simp add: step_def)
  show ?case
  proof (cases "lt w x")
    case True
    from Cons.IH [of n x "Suc n"] run True
    consider "i = n" "v = x" "\<forall>j < length xs. \<not> lt x (xs ! j)" |
      "Suc n \<le> i" "i - Suc n < length xs" "v = xs ! (i - Suc n)" "lt x v"
      "\<forall>j < length xs. \<not> lt v (xs ! j)" "\<forall>j < i - Suc n. lt (xs ! j) v" by auto
    then show ?thesis
    proof cases
      case 1
      then show ?thesis using True irr by (auto simp: nth_Cons')
    next
      case 2
      have "lt w v" using True 2(4) tr by blast
      moreover have "\<not> lt v x" using 2(4) irr tr by blast
      moreover have "i - n = Suc (i - Suc n)" using 2(1) by simp
      ultimately show ?thesis using 2 by (auto simp: less_Suc_eq_0_disj nth_Cons')
    qed
  next
    case False
    from Cons.IH [of b w "Suc n"] run False
    consider "i = b" "v = w" "\<forall>j < length xs. \<not> lt w (xs ! j)" |
      "Suc n \<le> i" "i - Suc n < length xs" "v = xs ! (i - Suc n)" "lt w v"
      "\<forall>j < length xs. \<not> lt v (xs ! j)" "\<forall>j < i - Suc n. lt (xs ! j) v" by auto
    then show ?thesis
    proof cases
      case 1
      then show ?thesis using False by (auto simp: nth_Cons')
    next
      case 2
      have xv: "lt x v" using False 2(4) ntr by blast
      then have "\<not> lt v x" using irr tr by blast
      moreover have "i - n = Suc (i - Suc n)" using 2(1) by simp
      ultimately show ?thesis using 2 xv by (auto simp: less_Suc_eq_0_disj nth_Cons')
    qed
  qed
qed



lemma latest_match_spec:
  assumes "0 < maxt" and "n + ngram \<le> length ctx"
  shows "(latest_match ctx maxt ngram needle n = [] \<and> (\<forall>s < n. take ngram (drop s ctx) \<noteq> needle)) \<or>
    (\<exists>s < n. take ngram (drop s ctx) = needle \<and> (\<forall>u < n. s < u \<longrightarrow> take ngram (drop u ctx) \<noteq> needle) \<and>
       latest_match ctx maxt ngram needle n = take maxt (drop (s + ngram) ctx) \<and>
       latest_match ctx maxt ngram needle n \<noteq> [])"
  using assms(2)
proof (induction n)
  case (Suc n)
  show ?case
  proof (cases "take ngram (drop n ctx) = needle")
    case True
    have "n + ngram < length ctx" using Suc.prems by simp
    moreover have "take (min maxt (length ctx - (n + ngram))) (drop (n + ngram) ctx) = take maxt (drop (n + ngram) ctx)"
      by (simp add: min_def)
    ultimately have "latest_match ctx maxt ngram needle (Suc n) = take maxt (drop (n + ngram) ctx)"
      and "take maxt (drop (n + ngram) ctx) \<noteq> []"
      using True assms(1) by (simp_all add: Let_def)
    with True show ?thesis by (intro disjI2 exI [of _ n]) auto
  next
    case False
    then have eq: "latest_match ctx maxt ngram needle (Suc n) = latest_match ctx maxt ngram needle n" by simp
    from Suc.IH Suc.prems consider
      "latest_match ctx maxt ngram needle n = []" "\<forall>s < n. take ngram (drop s ctx) \<noteq> needle" |
      s where "s < n" "take ngram (drop s ctx) = needle" "\<forall>u < n. s < u \<longrightarrow> take ngram (drop u ctx) \<noteq> needle"
        "latest_match ctx maxt ngram needle n = take maxt (drop (s + ngram) ctx)"
        "latest_match ctx maxt ngram needle n \<noteq> []" by auto
    then show ?thesis
    proof cases
      case 1
      then show ?thesis using False eq by (simp add: less_Suc_eq)
    next
      case 2
      then show ?thesis using False unfolding eq by (intro disjI2 exI [of _ s]) (auto simp: less_Suc_eq)
    qed
  qed
qed simp

text \<open>C16 Prompt lookup: a guess is made exactly when the last few tokens occurred before in the context,
  and it is then the run of tokens that followed their latest earlier occurrence, up to the
  length asked for.\<close>

theorem draft_is_latest_match:
  assumes "0 < maxt" and "0 < ngram" and "ngram < length ctx"
  shows "(draft_from_context ctx maxt ngram = [] \<longleftrightarrow>
      (\<forall>s < length ctx - ngram. take ngram (drop s ctx) \<noteq> drop (length ctx - ngram) ctx)) \<and>
    (draft_from_context ctx maxt ngram \<noteq> [] \<longrightarrow>
      (\<exists>s < length ctx - ngram. take ngram (drop s ctx) = drop (length ctx - ngram) ctx \<and>
        (\<forall>u < length ctx - ngram. s < u \<longrightarrow> take ngram (drop u ctx) \<noteq> drop (length ctx - ngram) ctx) \<and>
        draft_from_context ctx maxt ngram = take maxt (drop (s + ngram) ctx)))"
  using latest_match_spec [OF assms(1), of "length ctx - ngram" ngram ctx "drop (length ctx - ngram) ctx"] assms
  by (auto simp: draft_from_context_def)

lemma draft_is_latest_match_witness:
  "let ctx = [1, 2, 3, 1, 2, 9, 1, 2] in draft_from_context ctx 3 2 = [9, 1, 2] \<and>
   (\<exists>s < length ctx - 2. take 2 (drop s ctx) = drop (length ctx - 2) ctx \<and>
     draft_from_context ctx 3 2 = take 3 (drop (s + 2) ctx))"
proof -
  define ctx where "ctx = [1, 2, 3, 1, 2, 9, 1, 2 :: token]"
  have d: "draft_from_context ctx 3 2 = [9, 1, 2]" unfolding ctx_def by code_simp
  have "2 < length ctx" by (simp add: ctx_def)
  with draft_is_latest_match [of 3 2 ctx] d
  have "\<exists>s < length ctx - 2. take 2 (drop s ctx) = drop (length ctx - 2) ctx \<and>
     draft_from_context ctx 3 2 = take 3 (drop (s + 2) ctx)" by (metis list.distinct(1) zero_less_numeral)
  with d show ?thesis unfolding Let_def ctx_def by blast
qed

end
