(* ===== verification/LocalStorage.thy ===== *)
theory LocalStorage
  imports Core
begin

text \<open>
  \<open>garuda/src/storage/mod.rs\<close>: the local-disk storage backend. A path is text, split
  into components as \<open>std::path\<close> splits it on Unix; the disk maps component lists to
  file contents. Every system call may fail: \<open>fs_faults\<close> is what the environment
  has in store for the next calls (\<open>None\<close> succeeds, \<open>Some n\<close> fails, having
  written \<open>n\<close> bytes when the call was a write). An empty list succeeds. Directories
  are implicit.
\<close>

section \<open>Paths\<close>

datatype path_component = RootDir | CurDir | ParentDir | Normal string

fun split_slash :: "string \<Rightarrow> string list" where
  "split_slash [] = [[]]"
| "split_slash (c # cs) =
     (if c = CHR ''/'' then [] # split_slash cs
      else (c # hd (split_slash cs)) # tl (split_slash cs))"

fun join_slash :: "string list \<Rightarrow> string" where
  "join_slash [] = []"
| "join_slash [w] = w"
| "join_slash (w # ws) = w @ CHR ''/'' # join_slash ws"

definition is_absolute :: "path \<Rightarrow> bool" where
  "is_absolute p = (case p of [] \<Rightarrow> False | c # _ \<Rightarrow> c = CHR ''/'')"

text \<open>Empty parts are skipped; a \<open>.\<close> counts only as the first part of a relative path.\<close>

definition part_component :: "string \<Rightarrow> path_component list" where
  "part_component w =
     (if w = [] \<or> w = ''.'' then [] else if w = ''..'' then [ParentDir] else [Normal w])"

definition components :: "path \<Rightarrow> path_component list" where
  "components p =
     (if is_absolute p then [RootDir]
      else if hd (split_slash p) = ''.'' then [CurDir] else [])
     @ concat (map part_component (split_slash p))"

fun normal_names :: "path_component list \<Rightarrow> string list" where
  "normal_names [] = []"
| "normal_names (Normal w # cs) = w # normal_names cs"
| "normal_names (_ # cs) = normal_names cs"

text \<open>\<open>Path::with_extension(\"tmp\")\<close>, on the last component.\<close>

definition file_stem :: "string \<Rightarrow> string" where
  "file_stem w =
     (let stem = rev (tl (dropWhile (\<lambda>c. c \<noteq> CHR ''.'') (rev w)))
      in if CHR ''.'' \<in> set w \<and> stem \<noteq> [] then stem else w)"

definition with_tmp :: "string list \<Rightarrow> string list" where
  "with_tmp full = (if full = [] then [] else butlast full @ [file_stem (last full) @ ''.tmp''])"


section \<open>The disk\<close>

record fs =
  fs_files :: "string list \<rightharpoonup> u8 list"
  fs_faults :: "nat option list"

definition fs_call :: "fs \<Rightarrow> fs \<times> nat option" where
  "fs_call f = (case fs_faults f of [] \<Rightarrow> (f, None) | b # bs \<Rightarrow> (f\<lparr>fs_faults := bs\<rparr>, b))"

definition set_file :: "string list \<Rightarrow> u8 list option \<Rightarrow> fs \<Rightarrow> fs" where
  "set_file q c f = f\<lparr>fs_files := (fs_files f)(q := c)\<rparr>"


section \<open>The backend\<close>

record local_storage_backend =
  base_path :: "string list"

definition resolve :: "local_storage_backend \<Rightarrow> path \<Rightarrow> string list res" where
  "resolve b p =
     (if is_absolute p then Inl (Storage ''absolute path not allowed: {}'')
      else if ParentDir \<in> set (components p) then Inl (Storage ''path escapes storage root: {}'')
      else Inr (base_path b @ normal_names (components p)))"

definition local_read :: "local_storage_backend \<Rightarrow> fs \<Rightarrow> path \<Rightarrow> fs \<times> u8 list res" where
  "local_read b f p =
     (case resolve b p of Inl e \<Rightarrow> (f, Inl e)
      | Inr full \<Rightarrow>
          (case fs_call f of
             (f1, Some _) \<Rightarrow> (f1, Inl (Storage ''read {}: {e}''))
           | (f1, None) \<Rightarrow>
               (case fs_files f1 full of
                  None \<Rightarrow> (f1, Inl (Storage ''read {}: {e}''))
                | Some bs \<Rightarrow> (f1, Inr bs))))"

text \<open>
  The five system calls of a write, in the order the code makes them: create the parent
  directory, create the temporary file (empty), write it, sync it, rename it over the
  target. A rename that fails removes the temporary file if it can.
\<close>

definition finish_write :: "string list \<Rightarrow> string list \<Rightarrow> u8 list \<Rightarrow> fs \<Rightarrow> fs \<times> unit res" where
  "finish_write full tmp bs f =
     (case fs_call f of
        (f1, Some _) \<Rightarrow>
          (case fs_call f1 of
             (f2, Some _) \<Rightarrow> (f2, Inl (Storage ''rename into {}: {e}''))
           | (f2, None) \<Rightarrow> (set_file tmp None f2, Inl (Storage ''rename into {}: {e}'')))
      | (f1, None) \<Rightarrow> (set_file full (Some bs) (set_file tmp None f1), Inr ()))"

definition write_tmp :: "string list \<Rightarrow> string list \<Rightarrow> u8 list \<Rightarrow> fs \<Rightarrow> fs \<times> unit res" where
  "write_tmp full tmp bs f =
     (case fs_call f of
        (f1, Some _) \<Rightarrow> (f1, Inl (Storage ''create {}: {e}''))
      | (f1, None) \<Rightarrow>
          (case fs_call (set_file tmp (Some []) f1) of
             (f2, Some n) \<Rightarrow> (set_file tmp (Some (take n bs)) f2, Inl (Storage ''write {}: {e}''))
           | (f2, None) \<Rightarrow>
               (case fs_call (set_file tmp (Some bs) f2) of
                  (f3, Some _) \<Rightarrow> (f3, Inl (Storage ''sync {}: {e}''))
                | (f3, None) \<Rightarrow> finish_write full tmp bs f3)))"

definition local_write ::
    "local_storage_backend \<Rightarrow> fs \<Rightarrow> path \<Rightarrow> u8 list \<Rightarrow> fs \<times> unit res" where
  "local_write b f p bs =
     (case resolve b p of Inl e \<Rightarrow> (f, Inl e)
      | Inr full \<Rightarrow>
          (if full = [] then (f, Inl (Storage ''create {}: {e}''))
           else case fs_call f of
             (f1, Some _) \<Rightarrow> (f1, Inl (Storage ''create {}: {e}''))
           | (f1, None) \<Rightarrow> write_tmp full (with_tmp full) bs f1))"

text \<open>Removing a file that is not there succeeds.\<close>

definition local_remove :: "local_storage_backend \<Rightarrow> fs \<Rightarrow> path \<Rightarrow> fs \<times> unit res" where
  "local_remove b f p =
     (case resolve b p of Inl e \<Rightarrow> (f, Inl e)
      | Inr full \<Rightarrow>
          (case fs_call f of
             (f1, Some _) \<Rightarrow> (f1, Inl (Storage ''remove {}: {e}''))
           | (f1, None) \<Rightarrow> (set_file full None f1, Inr ())))"

definition local_exists :: "local_storage_backend \<Rightarrow> fs \<Rightarrow> path \<Rightarrow> bool" where
  "local_exists b f p = (case resolve b p of Inl _ \<Rightarrow> False | Inr full \<Rightarrow> fs_files f full \<noteq> None)"

definition local_ops :: "local_storage_backend \<Rightarrow> fs storage_ops" where
  "local_ops b = \<lparr>so_read = local_read b, so_write = local_write b,
                  so_remove = local_remove b, so_exists = local_exists b\<rparr>"



section \<open>The system calls\<close>

lemma fs_call_files: "fs_call f = (f', r) \<Longrightarrow> fs_files f' = fs_files f"
  by (auto simp: fs_call_def split: list.splits)

lemma set_file_files [simp]: "fs_files (set_file q c f) = (fs_files f)(q := c)"
  by (simp add: set_file_def)

lemma finish_write_files:
  assumes "finish_write full tmp bs f = (f', r)" and "full \<noteq> tmp"
  shows "q \<noteq> tmp \<Longrightarrow> q \<noteq> full \<Longrightarrow> fs_files f' q = fs_files f q"
    and "fs_files f' full = (case r of Inl _ \<Rightarrow> fs_files f full | Inr _ \<Rightarrow> Some bs)"
    and "r = Inr u \<Longrightarrow> fs_files f' tmp = None"
  using assms
  by (auto simp: finish_write_def fs_call_files split: prod.splits option.splits)

lemma write_tmp_files:
  assumes "write_tmp full tmp bs f = (f', r)" and "full \<noteq> tmp"
  shows "q \<noteq> tmp \<Longrightarrow> q \<noteq> full \<Longrightarrow> fs_files f' q = fs_files f q"
    and "fs_files f' full = (case r of Inl _ \<Rightarrow> fs_files f full | Inr _ \<Rightarrow> Some bs)"
    and "r = Inr u \<Longrightarrow> fs_files f' tmp = None"
  using assms
  by (auto simp: write_tmp_def finish_write_files dest!: fs_call_files split: prod.splits option.splits sum.splits)

lemma local_write_files:
  assumes "local_write b f p bs = (f', r)" and "resolve b p = Inr full" and "full \<noteq> with_tmp full"
  shows "q \<noteq> with_tmp full \<Longrightarrow> q \<noteq> full \<Longrightarrow> fs_files f' q = fs_files f q"
    and "fs_files f' full = (case r of Inl _ \<Rightarrow> fs_files f full | Inr _ \<Rightarrow> Some bs)"
    and "r = Inr u \<Longrightarrow> fs_files f' (with_tmp full) = None"
  using assms
  by (auto simp: local_write_def write_tmp_files dest!: fs_call_files split: prod.splits option.splits if_splits sum.splits)

lemma local_read_files: "local_read b f p = (f', r) \<Longrightarrow> fs_files f' = fs_files f"
  by (auto simp: local_read_def fs_call_files split: prod.splits option.splits sum.splits)

lemma local_read_Inr:
  "local_read b f p = (f', Inr bs) \<Longrightarrow> \<exists>full. resolve b p = Inr full \<and> fs_files f full = Some bs"
  by (auto simp: local_read_def fs_call_files split: prod.splits option.splits sum.splits)

lemma local_remove_files:
  assumes "local_remove b f p = (f', r)" and "resolve b p = Inr full"
  shows "q \<noteq> full \<Longrightarrow> fs_files f' q = fs_files f q"
    and "r = Inr u \<Longrightarrow> fs_files f' full = None"
  using assms by (auto simp: local_remove_def fs_call_files split: prod.splits option.splits)


section \<open>Path text\<close>

lemma split_slash_nonempty [simp]: "split_slash p \<noteq> []"
  by (cases p) simp_all

lemma split_slash_no_slash: "w \<in> set (split_slash p) \<Longrightarrow> CHR ''/'' \<notin> set w"
proof (induction p arbitrary: w)
  case Nil
  then show ?case by simp
next
  case (Cons c p)
  obtain v vs where v: "split_slash p = v # vs" by (cases "split_slash p") simp_all
  then have "w \<in> set (v # vs) \<Longrightarrow> CHR ''/'' \<notin> set w" for w using Cons.IH by metis
  with Cons.prems v show ?case by (auto split: if_splits)
qed

lemma split_slash_word: "CHR ''/'' \<notin> set w \<Longrightarrow> split_slash w = [w]"
  by (induction w) auto

lemma split_slash_append:
  "CHR ''/'' \<notin> set w \<Longrightarrow> split_slash (w @ CHR ''/'' # p) = w # split_slash p"
  by (induction w) auto

lemma split_join_slash:
  "ws \<noteq> [] \<Longrightarrow> \<forall>w \<in> set ws. CHR ''/'' \<notin> set w \<Longrightarrow> split_slash (join_slash ws) = ws"
  by (induction ws rule: join_slash.induct) (simp_all add: split_slash_word split_slash_append)

definition plain_name :: "string \<Rightarrow> bool" where
  "plain_name w \<longleftrightarrow> w \<noteq> [] \<and> w \<noteq> ''.'' \<and> w \<noteq> ''..'' \<and> CHR ''/'' \<notin> set w"

lemma normal_names_append: "normal_names (xs @ ys) = normal_names xs @ normal_names ys"
  by (induction xs rule: normal_names.induct) simp_all

lemma normal_names_plain:
  "w \<in> set (normal_names (concat (map part_component ws))) \<Longrightarrow>
     w \<in> set ws \<and> w \<noteq> [] \<and> w \<noteq> ''.'' \<and> w \<noteq> ''..''"
  by (induction ws) (auto simp: normal_names_append part_component_def split: if_splits)

lemma components_names:
  "normal_names (components p) = normal_names (concat (map part_component (split_slash p)))"
  by (simp add: components_def normal_names_append)

lemma components_plain: "w \<in> set (normal_names (components p)) \<Longrightarrow> plain_name w"
  unfolding components_names plain_name_def
  by (metis normal_names_plain split_slash_no_slash)

lemma part_components_plain:
  "\<forall>w \<in> set ws. plain_name w \<Longrightarrow> concat (map part_component ws) = map Normal ws"
  by (induction ws) (auto simp: plain_name_def part_component_def)

lemma normal_names_map [simp]: "normal_names (map Normal ws) = ws"
  by (induction ws) simp_all

lemma join_slash_not_absolute:
  "ws \<noteq> [] \<Longrightarrow> \<forall>w \<in> set ws. plain_name w \<Longrightarrow> \<not> is_absolute (join_slash ws)"
proof (induction ws rule: join_slash.induct)
  case (2 w)
  then show ?case by (cases w) (auto simp: is_absolute_def plain_name_def)
next
  case (3 w v vs)
  then show ?case by (cases w) (auto simp: is_absolute_def plain_name_def)
qed simp

lemma resolve_join:
  assumes "ws \<noteq> []" and "\<forall>w \<in> set ws. plain_name w"
  shows "resolve b (join_slash ws) = Inr (base_path b @ ws)"
proof -
  have split: "split_slash (join_slash ws) = ws"
    using assms by (simp add: split_join_slash plain_name_def)
  moreover have "hd ws \<noteq> ''.''" using assms by (simp add: plain_name_def)
  ultimately have "components (join_slash ws) = map Normal ws"
    using assms by (simp add: components_def join_slash_not_absolute part_components_plain)
  then show ?thesis using assms by (auto simp: resolve_def join_slash_not_absolute)
qed


section \<open>The storage contract\<close>

text \<open>
  The paths the caches use: a plain relative path whose file name ends in \<open>.bin\<close>, so
  that no temporary file can be one of them.
\<close>

definition bin_path :: "string list \<Rightarrow> bool" where
  "bin_path ws \<longleftrightarrow> ws \<noteq> [] \<and> (\<forall>w \<in> set ws. plain_name w) \<and> (\<exists>w. last ws = w @ ''.bin'')"

definition good_path :: "path \<Rightarrow> bool" where
  "good_path p \<longleftrightarrow> (\<exists>ws. bin_path ws \<and> p = join_slash ws)"

definition local_content :: "local_storage_backend \<Rightarrow> fs \<Rightarrow> path \<rightharpoonup> u8 list" where
  "local_content b f p = (case resolve b p of Inl _ \<Rightarrow> None | Inr full \<Rightarrow> fs_files f full)"

lemma good_pathE:
  assumes "good_path p"
  obtains ws where "bin_path ws" "p = join_slash ws" "resolve b p = Inr (base_path b @ ws)"
proof -
  from assms obtain ws where ws: "bin_path ws" "p = join_slash ws" by (auto simp: good_path_def)
  with resolve_join [of ws b] show ?thesis using that by (auto simp: bin_path_def)
qed

lemma bin_path_not_tmp:
  assumes "bin_path ws" and "bin_path vs"
  shows "base @ ws \<noteq> with_tmp (base @ vs)"
proof
  assume eq: "base @ ws = with_tmp (base @ vs)"
  have "vs \<noteq> []" "ws \<noteq> []" using assms by (simp_all add: bin_path_def)
  then have "last ws = last (with_tmp (base @ vs))" using eq by (metis last_appendR)
  moreover from \<open>vs \<noteq> []\<close> have "last (with_tmp (base @ vs)) = file_stem (last vs) @ ''.tmp''"
    by (simp add: with_tmp_def)
  moreover obtain w where "last ws = w @ ''.bin''" using assms(1) by (auto simp: bin_path_def)
  ultimately have "w @ ''.bin'' = file_stem (last vs) @ ''.tmp''" by metis
  then show False by (simp add: append_eq_append_conv2)
qed

interpretation local: storage_backend "local_ops b" "local_content b" good_path
proof (unfold_locales, goal_cases)
  case (1 s p s' bs)
  then show ?case by (auto simp: local_ops_def local_content_def dest: local_read_Inr)
next
  case (2 s p s' rr q)
  then have "fs_files s' = fs_files s" by (auto simp: local_ops_def intro: local_read_files)
  then show ?case by (simp add: local_content_def split: sum.split)
next
  case (3 s p bs s' u)
  then show ?case
    by (elim good_pathE [of p b])
      (auto simp: local_ops_def local_content_def bin_path_not_tmp dest!: local_write_files(2))
next
  case (4 s p bs s' e)
  then show ?case
    by (elim good_pathE [of p b])
      (auto simp: local_ops_def local_content_def bin_path_not_tmp dest!: local_write_files(2))
next
  case (5 s p bs s' r q)
  obtain ws where ws: "bin_path ws" "p = join_slash ws" "resolve b p = Inr (base_path b @ ws)"
    using good_pathE [OF 5(2)] by metis
  obtain vs where vs: "bin_path vs" "q = join_slash vs" "resolve b q = Inr (base_path b @ vs)"
    using good_pathE [OF 5(3)] by metis
  show ?case
    using 5 ws vs local_write_files(1) [of b s p bs s' r "base_path b @ ws" "base_path b @ vs"]
    by (auto simp: local_ops_def local_content_def bin_path_not_tmp)
next
  case (6 s p s' r q)
  obtain ws where ws: "bin_path ws" "p = join_slash ws" "resolve b p = Inr (base_path b @ ws)"
    using good_pathE [OF 6(2)] by metis
  obtain vs where vs: "bin_path vs" "q = join_slash vs" "resolve b q = Inr (base_path b @ vs)"
    using good_pathE [OF 6(3)] by metis
  show ?case
    using 6 ws vs local_remove_files(1) [of b s p s' r "base_path b @ ws" "base_path b @ vs"]
    by (auto simp: local_ops_def local_content_def)
next
  case (7 s p s' u)
  then show ?case
    by (elim good_pathE [of p b])
      (auto simp: local_ops_def local_content_def dest!: local_remove_files(2))
next
  case (8 p s)
  then show ?case
    by (elim good_pathE [of p b]) (auto simp: local_ops_def local_content_def local_exists_def)
qed

section \<open>Properties\<close>

lemma concat_part_components:
  "ParentDir \<in> set (concat (map part_component ws)) \<longleftrightarrow> ''..'' \<in> set ws"
  "normal_names (concat (map part_component ws)) = filter (\<lambda>w. w \<noteq> [] \<and> w \<noteq> ''.'' \<and> w \<noteq> ''..'') ws"
  by (induction ws) (auto simp: part_component_def normal_names_append)

lemma resolve_iff:
  "resolve b p = Inr full \<longleftrightarrow>
     \<not> is_absolute p \<and> ''..'' \<notin> set (split_slash p) \<and>
     full = base_path b @ filter (\<lambda>w. w \<noteq> [] \<and> w \<noteq> ''.'' \<and> w \<noteq> ''..'') (split_slash p)"
  using concat_part_components [of "split_slash p"]
  by (auto simp: resolve_def components_names) (auto simp: components_def split: if_splits)

text \<open>Confinement: a path is accepted only when it is relative and has no \<open>..\<close> in it, and then
  names a file under the storage root: the root's own components followed by plain names, none of
  them empty, \<open>.\<close>, \<open>..\<close> or containing a slash. Nothing a caller passes can name a file
  outside the root.\<close>

theorem resolve_confined:
  assumes "resolve b p = Inr full"
  shows "(\<not> is_absolute p \<and> ''..'' \<notin> set (split_slash p)) \<and>
     (\<exists>ws. full = base_path b @ ws \<and> (\<forall>w \<in> set ws. plain_name w))"
proof (rule conjI)
  show "\<not> is_absolute p \<and> ''..'' \<notin> set (split_slash p)" using assms by (simp add: resolve_iff)
  have "full = base_path b @ normal_names (components p)"
    using assms by (simp add: resolve_def split: if_splits)
  then show "\<exists>ws. full = base_path b @ ws \<and> (\<forall>w \<in> set ws. plain_name w)"
    using components_plain by blast
qed

lemma resolve_confined_witness:
  "\<exists>ws. [''data'', ''a'', ''b.bin''] = base_path \<lparr>base_path = [''data'']\<rparr> @ ws \<and>
     (\<forall>w \<in> set ws. plain_name w)"
  by (rule resolve_confined [where p = "''a/./b.bin''", THEN conjunct2]) (simp add: resolve_iff is_absolute_def)



end
