(* ===== verification/KvCache.thy ===== *)
theory KvCache
  imports LocalStorage
begin

text \<open>
  \<open>garuda/src/cache/mod.rs\<close>, the paged key/value cache of one layer of one sequence:
  appending a position, spilling the oldest complete blocks to disk, reading them back,
  truncating. The abstract value of a cache is the list of its positions' key and value
  vectors (\<open>kv_contents\<close>), wherever the blocks currently live; the lemmas show that
  every operation acts on that list as it promises, failed disk calls included.
\<close>

section \<open>State\<close>

record kv_block =
  bkeys :: "f32 list"
  bvals :: "f32 list"
  filled :: nat

record 's kv_config =
  cfg_dims :: model_dims
  cfg_kv_dim :: nat
  n_layers :: nat
  kv_dims :: "nat list option"
  cfg_max_positions :: nat
  cfg_max_resident_blocks :: nat
  cfg_sliding_window :: "nat option"
  cfg_storage :: "'s storage_ops option"

record 's kv_state =
  kv_dim :: nat
  block_size :: nat
  resident :: "(nat, kv_block) btree"
  spilled :: "(nat, path) btree"
  kv_len :: nat
  max_positions :: nat
  max_resident_blocks :: nat
  sliding_window :: "nat option"
  kv_storage :: "'s storage_ops option"
  seq_id :: nat
  layer :: nat
  spills :: nat
  reloads :: nat
  last_experts :: "expert_id list"
  last_predicted :: "expert_id list"

definition mha_config :: "model_dims \<Rightarrow> nat \<Rightarrow> nat \<Rightarrow> nat option \<Rightarrow> 's storage_ops option \<Rightarrow> 's kv_config" where
  "mha_config dims maxp maxr win sto =
     \<lparr>cfg_dims = dims, cfg_kv_dim = d_model dims, n_layers = 1, kv_dims = None,
      cfg_max_positions = maxp, cfg_max_resident_blocks = maxr,
      cfg_sliding_window = win, cfg_storage = sto\<rparr>"

text \<open>A width of 0 is kept when it comes from the per-layer list, and raised to 1 otherwise.\<close>

definition layer_width :: "'s kv_config \<Rightarrow> nat \<Rightarrow> nat" where
  "layer_width cfg l =
     (case kv_dims cfg of
        Some ds \<Rightarrow> (if l < length ds then ds ! l else cfg_kv_dim cfg)
      | None \<Rightarrow> max (cfg_kv_dim cfg) 1)"

definition for_layer :: "'s kv_config \<Rightarrow> nat \<Rightarrow> nat \<Rightarrow> 's kv_state" where
  "for_layer cfg sid l =
     \<lparr>kv_dim = layer_width cfg l, block_size = max (dims_block_size (cfg_dims cfg)) 1,
      resident = [], spilled = [], kv_len = 0,
      max_positions = max (cfg_max_positions cfg) 1,
      max_resident_blocks = max (cfg_max_resident_blocks cfg) 1,
      sliding_window = cfg_sliding_window cfg, kv_storage = cfg_storage cfg,
      seq_id = sid, layer = l, spills = 0, reloads = 0,
      last_experts = [], last_predicted = []\<rparr>"

definition kv_new :: "'s kv_config \<Rightarrow> nat \<Rightarrow> 's kv_state" where
  "kv_new cfg sid = for_layer cfg sid 0"

definition attention_start :: "'s kv_state \<Rightarrow> nat" where
  "attention_start kv = (case sliding_window kv of Some w \<Rightarrow> kv_len kv - w | None \<Rightarrow> 0)"

definition spill_name :: "nat \<Rightarrow> nat \<Rightarrow> nat \<Rightarrow> path" where
  "spill_name s l b =
     ''kv/seq_'' @ show_nat s @ ''/layer_'' @ show_nat l @ ''/block_'' @ show_nat b @ ''.bin''"

definition spill_path :: "'s kv_state \<Rightarrow> nat \<Rightarrow> path" where
  "spill_path kv b = spill_name (seq_id kv) (layer kv) b"


section \<open>The spill file\<close>

definition encode_block :: "kv_block \<Rightarrow> u8 list" where
  "encode_block blk =
     le_bytes 8 (of_nat (filled blk) :: u64) @ f32s_to_bytes (bkeys blk @ bvals blk)"

definition decode_block :: "nat \<Rightarrow> nat \<Rightarrow> u8 list \<Rightarrow> kv_block res" where
  "decode_block d bs bytes =
     (if length bytes < 8
      then Inl (Cache ''spill file for block {block} is truncated'')
      else
        let n = unat (le_word (take 8 bytes) :: u64);
            expected = 8 + n * d * 2 * 4
        in if length bytes \<noteq> expected \<or> n > bs
           then Inl (Cache ''spill file for block {block} is malformed: {} bytes, filled={filled}'')
           else
             let vals = f32s_of_bytes (drop 8 bytes)
             in Inr \<lparr>bkeys = take (n * d) vals, bvals = drop (n * d) vals, filled = n\<rparr>)"


section \<open>Appending and spilling\<close>

text \<open>
  The loop of \<open>enforce_residency\<close>: the first block, in key order, that is not the one
  being written. A failed write puts the block back where it was.
\<close>

function spill_loop :: "'s storage_ops \<Rightarrow> nat \<Rightarrow> 's \<Rightarrow> 's kv_state \<Rightarrow> 's \<times> 's kv_state \<times> unit res" where
  "spill_loop ops cur st kv =
     (if length (resident kv) \<le> max_resident_blocks kv then (st, kv, Inr ())
      else case find (\<lambda>e. fst e \<noteq> cur) (resident kv) of
        None \<Rightarrow> (st, kv, Inr ())
      | Some (victim, blk) \<Rightarrow>
          (case so_write ops st (spill_path kv victim) (encode_block blk) of
             (st', Inl e) \<Rightarrow>
               (st', kv\<lparr>resident := bt_insert victim blk (bt_remove victim (resident kv))\<rparr>, Inl e)
           | (st', Inr _) \<Rightarrow>
               spill_loop ops cur st'
                 (kv\<lparr>resident := bt_remove victim (resident kv),
                     spilled := bt_insert victim (spill_path kv victim) (spilled kv),
                     spills := Suc (spills kv)\<rparr>)))"
  by pat_completeness auto
termination
proof (relation "measure (\<lambda>(ops, cur, st, kv). length (resident kv))", goal_cases)
  case (2 ops cur st kv x victim blk y st' z)
  then have "(victim, blk) \<in> set (resident kv)"
    by (auto simp: find_Some_iff)
  then have "length (bt_remove victim (resident kv)) < length (resident kv)"
    unfolding bt_remove_def by (intro length_filter_less) auto
  then show ?case by simp
qed simp

declare spill_loop.simps [simp del]

definition enforce_residency :: "'s \<Rightarrow> 's kv_state \<Rightarrow> nat \<Rightarrow> 's \<times> 's kv_state \<times> unit res" where
  "enforce_residency st kv cur =
     (if kv_dim kv = 0 then (st, kv, Inr ())
      else case kv_storage kv of
        None \<Rightarrow> (st, kv, Inr ())
      | Some ops \<Rightarrow> spill_loop ops cur st kv)"

definition push_row :: "'s kv_state \<Rightarrow> f32 list \<Rightarrow> f32 list \<Rightarrow> 's kv_state" where
  "push_row kv k v =
     (let idx = kv_len kv div block_size kv;
          blk = (case map_of (resident kv) idx of
                   Some b \<Rightarrow> b | None \<Rightarrow> \<lparr>bkeys = [], bvals = [], filled = 0\<rparr>)
      in kv\<lparr>resident := bt_insert idx
                \<lparr>bkeys = bkeys blk @ k, bvals = bvals blk @ v, filled = Suc (filled blk)\<rparr>
                (resident kv),
            kv_len := Suc (kv_len kv)\<rparr>)"

definition kv_append ::
    "'s \<Rightarrow> 's kv_state \<Rightarrow> f32 list \<Rightarrow> f32 list \<Rightarrow> 's \<times> 's kv_state \<times> unit res" where
  "kv_append st kv k v =
     (if length k \<noteq> kv_dim kv \<or> length v \<noteq> kv_dim kv
      then (st, kv, Inl (Cache ''kv append expects a {d}-dim key and value, got {} and {}''))
      else if kv_len kv \<ge> max_positions kv
      then (st, kv, Inl (Cache ''context window of {} positions is exhausted''))
      else enforce_residency st (push_row kv k v) (kv_len kv div block_size kv))"


section \<open>Reading back\<close>

definition kv_reload :: "'s \<Rightarrow> 's kv_state \<Rightarrow> nat \<Rightarrow> 's \<times> 's kv_state \<times> unit res" where
  "kv_reload st kv b =
     (case map_of (spilled kv) b of
        None \<Rightarrow> (st, kv, Inl (Cache ''block {block} was never spilled''))
      | Some p \<Rightarrow>
          (case kv_storage kv of
             None \<Rightarrow> (st, kv, Inl (Cache ''no storage backend to reload from''))
           | Some ops \<Rightarrow>
               (case so_read ops st p of
                  (st', Inl e) \<Rightarrow> (st', kv, Inl e)
                | (st', Inr bytes) \<Rightarrow>
                    (case decode_block (kv_dim kv) (block_size kv) bytes of
                       Inl e \<Rightarrow> (st', kv, Inl e)
                     | Inr blk \<Rightarrow>
                         (st', kv\<lparr>resident := bt_insert b blk (resident kv),
                                  spilled := bt_remove b (spilled kv),
                                  reloads := Suc (reloads kv)\<rparr>, Inr ())))))"

fun reload_all :: "'s \<Rightarrow> 's kv_state \<Rightarrow> nat list \<Rightarrow> 's \<times> 's kv_state \<times> unit res" where
  "reload_all st kv [] = (st, kv, Inr ())"
| "reload_all st kv (b # bs) =
     (case kv_reload st kv b of
        (st', kv', Inl e) \<Rightarrow> (st', kv', Inl e)
      | (st', kv', Inr _) \<Rightarrow> reload_all st' kv' bs)"

definition ensure_resident ::
    "'s \<Rightarrow> 's kv_state \<Rightarrow> nat \<Rightarrow> nat \<Rightarrow> 's \<times> 's kv_state \<times> unit res" where
  "ensure_resident st kv start end =
     (if start \<ge> end then (st, kv, Inr ())
      else reload_all st kv
        (filter (\<lambda>b. map_of (spilled kv) b \<noteq> None)
           [start div block_size kv ..< Suc ((end - 1) div block_size kv)]))"

definition slice_at :: "'s kv_state \<Rightarrow> nat \<Rightarrow> bool \<Rightarrow> f32 list option" where
  "slice_at kv pos key =
     (if pos \<ge> kv_len kv then None
      else case map_of (resident kv) (pos div block_size kv) of
        None \<Rightarrow> None
      | Some blk \<Rightarrow>
          (let off = (pos mod block_size kv) * kv_dim kv;
               src = (if key then bkeys blk else bvals blk)
           in if off + kv_dim kv \<le> length src then Some (take (kv_dim kv) (drop off src)) else None))"

definition key_at :: "'s kv_state \<Rightarrow> nat \<Rightarrow> f32 list option" where
  "key_at kv pos = slice_at kv pos True"

definition value_at :: "'s kv_state \<Rightarrow> nat \<Rightarrow> f32 list option" where
  "value_at kv pos = slice_at kv pos False"


section \<open>Truncation, identity, purging\<close>

text \<open>Removing a file is best effort: its result is dropped.\<close>

fun remove_files :: "'s storage_ops option \<Rightarrow> path list \<Rightarrow> 's \<Rightarrow> 's" where
  "remove_files None ps st = st"
| "remove_files (Some ops) [] st = st"
| "remove_files (Some ops) (p # ps) st = remove_files (Some ops) ps (fst (so_remove ops st p))"

definition cut_rows :: "nat \<Rightarrow> nat \<Rightarrow> kv_block \<Rightarrow> kv_block" where
  "cut_rows d keep blk =
     \<lparr>bkeys = take (keep * d) (bkeys blk), bvals = take (keep * d) (bvals blk), filled = keep\<rparr>"

definition stale_block :: "nat \<Rightarrow> nat \<Rightarrow> nat \<Rightarrow> bool" where
  "stale_block bs len b \<longleftrightarrow> b > len div bs \<or> b = len div bs \<and> len mod bs = 0"

text \<open>Whole blocks past the cut go; the block the cut lands inside keeps what precedes it.\<close>

definition truncated_resident :: "'s kv_state \<Rightarrow> nat \<Rightarrow> (nat, kv_block) btree" where
  "truncated_resident kv len =
     (let cut = len div block_size kv; keep = len mod block_size kv;
          res = bt_retain (\<lambda>b. b < cut \<or> b = cut \<and> keep > 0) (resident kv)
      in if keep > 0
         then case map_of res cut of
                None \<Rightarrow> res
              | Some blk \<Rightarrow> bt_insert cut (cut_rows (kv_dim kv) keep blk) res
         else res)"

definition kv_truncate :: "'s \<Rightarrow> 's kv_state \<Rightarrow> nat \<Rightarrow> 's \<times> 's kv_state \<times> unit res" where
  "kv_truncate st kv len =
     (if len \<ge> kv_len kv then (st, kv, Inr ())
      else if len mod block_size kv > 0 \<and> map_of (spilled kv) (len div block_size kv) \<noteq> None
      then (st, kv, Inl (Cache ''cannot truncate to {len}: block {cut_block} is spilled to disk''))
      else
        (remove_files (kv_storage kv)
           (map snd (bt_retain (stale_block (block_size kv) len) (spilled kv))) st,
         kv\<lparr>resident := truncated_resident kv len,
            spilled := bt_retain (\<lambda>b. \<not> stale_block (block_size kv) len b) (spilled kv),
            kv_len := len\<rparr>,
         Inr ()))"

definition kv_resident_bytes :: "'s kv_state \<Rightarrow> nat" where
  "kv_resident_bytes kv =
     sum_list (map (\<lambda>(b, blk). (length (bkeys blk) + length (bvals blk)) * 4) (resident kv))"

definition kv_has_spill :: "'s kv_state \<Rightarrow> bool" where
  "kv_has_spill kv \<longleftrightarrow> spilled kv \<noteq> []"

definition kv_rekey :: "'s kv_state \<Rightarrow> nat \<Rightarrow> 's kv_state \<times> unit res" where
  "kv_rekey kv sid =
     (if kv_has_spill kv then (kv, Inl (Cache ''cannot rekey a sequence with spilled blocks''))
      else (kv\<lparr>seq_id := sid\<rparr>, Inr ()))"

definition kv_purge :: "'s \<Rightarrow> 's kv_state \<Rightarrow> 's \<times> 's kv_state" where
  "kv_purge st kv =
     (remove_files (kv_storage kv) (map snd (spilled kv)) st, kv\<lparr>spilled := []\<rparr>)"


section \<open>The abstract cache\<close>

definition block_at :: "(path \<rightharpoonup> u8 list) \<Rightarrow> 's kv_state \<Rightarrow> nat \<rightharpoonup> kv_block" where
  "block_at files kv b =
     (case map_of (resident kv) b of
        Some blk \<Rightarrow> Some blk
      | None \<Rightarrow>
          (case map_of (spilled kv) b of
             None \<Rightarrow> None
           | Some p \<Rightarrow>
               (case files p of
                  None \<Rightarrow> None
                | Some bytes \<Rightarrow>
                    (case decode_block (kv_dim kv) (block_size kv) bytes of
                       Inl _ \<Rightarrow> None | Inr blk \<Rightarrow> Some blk))))"

definition block_row :: "nat \<Rightarrow> kv_block \<Rightarrow> nat \<Rightarrow> f32 list \<times> f32 list" where
  "block_row d blk i = (take d (drop (i * d) (bkeys blk)), take d (drop (i * d) (bvals blk)))"

definition kv_row :: "(path \<rightharpoonup> u8 list) \<Rightarrow> 's kv_state \<Rightarrow> nat \<Rightarrow> (f32 list \<times> f32 list) option" where
  "kv_row files kv p =
     map_option (\<lambda>blk. block_row (kv_dim kv) blk (p mod block_size kv))
       (block_at files kv (p div block_size kv))"

definition kv_contents :: "(path \<rightharpoonup> u8 list) \<Rightarrow> 's kv_state \<Rightarrow> (f32 list \<times> f32 list) option list" where
  "kv_contents files kv = map (kv_row files kv) [0..<kv_len kv]"

definition block_wf :: "nat \<Rightarrow> nat \<Rightarrow> kv_block \<Rightarrow> bool" where
  "block_wf d n blk \<longleftrightarrow>
     filled blk = n \<and> length (bkeys blk) = n * d \<and> length (bvals blk) = n * d"

text \<open>
  What holds between operations: the blocks that cover the positions are each in exactly
  one place; a block in memory holds the positions it should; a block on disk is complete,
  is filed under this sequence's own name, and its file is the encoding of such a block.
\<close>

definition kv_inv :: "(path \<rightharpoonup> u8 list) \<Rightarrow> 's kv_state \<Rightarrow> bool" where
  "kv_inv files kv \<longleftrightarrow>
     0 < block_size kv \<and> block_size kv < 2 ^ 64 \<and> 0 < max_resident_blocks kv \<and>
     kv_len kv \<le> max_positions kv \<and>
     bt_inv (resident kv) \<and> bt_inv (spilled kv) \<and>
     dom (map_of (resident kv)) \<inter> dom (map_of (spilled kv)) = {} \<and>
     (\<forall>b. b \<in> dom (map_of (resident kv)) \<union> dom (map_of (spilled kv)) \<longleftrightarrow>
            b * block_size kv < kv_len kv) \<and>
     (\<forall>b blk. map_of (resident kv) b = Some blk \<longrightarrow>
        block_wf (kv_dim kv) (min (block_size kv) (kv_len kv - b * block_size kv)) blk) \<and>
     (\<forall>b p. map_of (spilled kv) b = Some p \<longrightarrow>
        Suc b * block_size kv \<le> kv_len kv \<and> p = spill_path kv b \<and> kv_storage kv \<noteq> None \<and>
        (\<exists>blk. block_wf (kv_dim kv) (block_size kv) blk \<and> files p = Some (encode_block blk)))"

lemma kv_invD:
  assumes "kv_inv files kv"
  shows "0 < block_size kv" "block_size kv < 2 ^ 64" "0 < max_resident_blocks kv"
    "kv_len kv \<le> max_positions kv" "bt_inv (resident kv)" "bt_inv (spilled kv)"
    "dom (map_of (resident kv)) \<inter> dom (map_of (spilled kv)) = {}"
    "map_of (resident kv) b = Some blk \<Longrightarrow>
       block_wf (kv_dim kv) (min (block_size kv) (kv_len kv - b * block_size kv)) blk"
  using assms by (auto simp: kv_inv_def)

lemma kv_inv_covers:
  "kv_inv files kv \<Longrightarrow>
     map_of (resident kv) b \<noteq> None \<or> map_of (spilled kv) b \<noteq> None \<longleftrightarrow>
     b * block_size kv < kv_len kv"
  by (auto simp: kv_inv_def dom_def)

lemma kv_inv_spilled:
  assumes "kv_inv files kv" and "map_of (spilled kv) b = Some p"
  shows "Suc b * block_size kv \<le> kv_len kv" "p = spill_path kv b" "kv_storage kv \<noteq> None"
    "\<exists>blk. block_wf (kv_dim kv) (block_size kv) blk \<and> files p = Some (encode_block blk)"
  using assms unfolding kv_inv_def by blast+

lemma kv_inv_resident_not_spilled:
  "kv_inv files kv \<Longrightarrow> map_of (resident kv) b = Some blk \<Longrightarrow> map_of (spilled kv) b = None"
  using kv_invD(7) by fastforce

lemma decode_encode_block:
  assumes "block_wf d n blk" and "n \<le> bs" and "bs < 2 ^ 64"
  shows "decode_block d bs (encode_block blk) = Inr blk"
proof -
  have "unat (of_nat n :: u64) = n"
    using assms(2,3) by (simp add: unat_of_nat)
  then show ?thesis
    using assms by (cases blk) (simp add: decode_block_def encode_block_def block_wf_def Let_def)
qed

lemma block_at_spilled:
  assumes "kv_inv files kv" and "map_of (spilled kv) b = Some p"
    and "block_wf (kv_dim kv) (block_size kv) blk" and "files p = Some (encode_block blk)"
  shows "block_at files kv b = Some blk"
proof -
  have "map_of (resident kv) b = None"
    using kv_inv_resident_not_spilled [OF assms(1)] assms(2) by (cases "map_of (resident kv) b") auto
  then show ?thesis
    using assms kv_invD(2) [OF assms(1)] by (simp add: block_at_def decode_encode_block)
qed

lemma block_at_cong:
  assumes "resident kv' = resident kv" "spilled kv' = spilled kv" "kv_dim kv' = kv_dim kv"
    "block_size kv' = block_size kv" "\<And>p. p \<in> ran (map_of (spilled kv)) \<Longrightarrow> files' p = files p"
  shows "block_at files' kv' b = block_at files kv b"
proof (cases "map_of (spilled kv) b")
  case None
  then show ?thesis using assms(1-4) by (simp add: block_at_def split: option.split)
next
  case (Some p)
  then have "files' p = files p" using assms(5) by (simp add: ran_def) blast
  then show ?thesis using assms(1-4) Some by (simp add: block_at_def split: option.split)
qed

lemma kv_contents_cong:
  assumes "kv_len kv' = kv_len kv" "kv_dim kv' = kv_dim kv" "block_size kv' = block_size kv"
    "\<And>b. b * block_size kv < kv_len kv \<Longrightarrow> block_at files' kv' b = block_at files kv b"
  shows "kv_contents files' kv' = kv_contents files kv"
proof -
  have "(p div block_size kv) * block_size kv < kv_len kv" if "p < kv_len kv" for p
    using that by (meson div_times_less_eq_dividend le_less_trans)
  then show ?thesis using assms by (auto simp: kv_contents_def kv_row_def)
qed

text \<open>A cache reads only its own spill files.\<close>

lemma kv_inv_files_cong:
  assumes "kv_inv files kv" and "\<And>b. files' (spill_path kv b) = files (spill_path kv b)"
  shows "kv_inv files' kv" and "kv_contents files' kv = kv_contents files kv"
proof -
  have same: "files' p = files p" if "map_of (spilled kv) b = Some p" for b p
    using kv_inv_spilled(2) [OF assms(1) that] assms(2) by simp
  then show "kv_inv files' kv" using assms(1) unfolding kv_inv_def by metis
  show "kv_contents files' kv = kv_contents files kv"
    by (intro kv_contents_cong block_at_cong) (auto simp: ran_def same)
qed

lemma spill_name_inject:
  "spill_name s l b = spill_name s' l' b' \<longleftrightarrow> s = s' \<and> l = l' \<and> b = b'"
proof
  assume eq: "spill_name s l b = spill_name s' l' b'"
  have nd: "\<not> is_digit_char (CHR ''/'')" "\<not> is_digit_char (CHR ''.'')"
    by (simp_all add: is_digit_char_def)
  from eq have "show_nat s @ CHR ''/'' # ''layer_'' @ show_nat l @ ''/block_'' @ show_nat b @ ''.bin''
      = show_nat s' @ CHR ''/'' # ''layer_'' @ show_nat l' @ ''/block_'' @ show_nat b' @ ''.bin''"
    by (simp add: spill_name_def)
  from show_nat_prefix_unique [OF this nd(1) nd(1)]
  have s: "s = s'" and "show_nat l @ CHR ''/'' # ''block_'' @ show_nat b @ ''.bin''
      = show_nat l' @ CHR ''/'' # ''block_'' @ show_nat b' @ ''.bin''" by simp_all
  from show_nat_prefix_unique [OF this(2) nd(1) nd(1)]
  have l: "l = l'" and "show_nat b @ CHR ''.'' # ''bin'' = show_nat b' @ CHR ''.'' # ''bin''"
    by simp_all
  from show_nat_prefix_unique [OF this(2) nd(2) nd(2)] s l
  show "s = s' \<and> l = l' \<and> b = b'" by simp
qed simp

lemma spill_path_inject [simp]: "spill_path kv b = spill_path kv b' \<longleftrightarrow> b = b'"
  by (simp add: spill_path_def spill_name_inject)

lemma spill_path_cong:
  "seq_id kv' = seq_id kv \<Longrightarrow> layer kv' = layer kv \<Longrightarrow> spill_path kv' = spill_path kv"
  by (simp add: spill_path_def fun_eq_iff)


section \<open>The laws of a cache over a storage backend\<close>

text \<open>What an operation that only moves blocks leaves alone.\<close>

definition kv_frame :: "'s kv_state \<Rightarrow> 's kv_state \<Rightarrow> bool" where
  "kv_frame kv kv' \<longleftrightarrow>
     kv' = kv\<lparr>resident := resident kv', spilled := spilled kv',
              spills := spills kv', reloads := reloads kv'\<rparr>"

lemma kv_frame_refl [simp]: "kv_frame kv kv"
  by (simp add: kv_frame_def)

lemma kv_frame_update [simp]:
  "kv_frame kv (kv\<lparr>resident := r, spilled := s, spills := m\<rparr>)"
  "kv_frame kv (kv\<lparr>resident := r, spilled := s, reloads := m\<rparr>)"
  by (simp_all add: kv_frame_def)

lemma kv_frame_simps:
  assumes "kv_frame kv kv'"
  shows "kv_dim kv' = kv_dim kv" "block_size kv' = block_size kv" "kv_len kv' = kv_len kv"
    "max_positions kv' = max_positions kv" "max_resident_blocks kv' = max_resident_blocks kv"
    "kv_storage kv' = kv_storage kv" "seq_id kv' = seq_id kv" "layer kv' = layer kv"
    "sliding_window kv' = sliding_window kv"
  by (subst assms [unfolded kv_frame_def], simp)+

lemma kv_frame_trans: "kv_frame a b \<Longrightarrow> kv_frame b c \<Longrightarrow> kv_frame a c"
  by (cases a; cases b; cases c) (simp add: kv_frame_def)

lemma kv_frame_spill_path: "kv_frame kv kv' \<Longrightarrow> spill_path kv' = spill_path kv"
  by (intro spill_path_cong) (simp_all add: kv_frame_simps)

definition foreign :: "(path \<Rightarrow> bool) \<Rightarrow> 's kv_state \<Rightarrow> path \<Rightarrow> bool" where
  "foreign good kv q \<longleftrightarrow> good q \<and> (\<forall>b. q \<noteq> spill_path kv b)"

lemma foreign_frame: "kv_frame kv kv' \<Longrightarrow> foreign good kv' q = foreign good kv q"
  by (simp add: foreign_def kv_frame_spill_path)

locale kv_backend = storage_backend ops content good
  for ops :: "'s storage_ops" and content :: "'s \<Rightarrow> path \<rightharpoonup> u8 list" and good :: "path \<Rightarrow> bool" +
  assumes spill_good: "good (spill_name s l b)"
begin

lemma spill_path_good: "good (spill_path kv b)"
  by (simp add: spill_path_def spill_good)

lemma spill_step:
  fixes kv :: "'s kv_state"
  assumes inv: "kv_inv (content st) kv" and sto: "kv_storage kv \<noteq> None"
    and get: "map_of (resident kv) v = Some blk" and full: "Suc v * block_size kv \<le> kv_len kv"
    and wr: "so_write ops st (spill_path kv v) (encode_block blk) = (st', Inr u)"
  defines "kv' \<equiv> kv\<lparr>resident := bt_remove v (resident kv),
                     spilled := bt_insert v (spill_path kv v) (spilled kv),
                     spills := Suc (spills kv)\<rparr>"
  shows "kv_inv (content st') kv'"
    and "block_at (content st') kv' b = block_at (content st) kv b"
proof -
  note d = kv_invD [OF inv]
  have new: "content st' (spill_path kv v) = Some (encode_block blk)"
    using write_ok [OF wr spill_path_good] .
  have old: "content st' (spill_path kv b) = content st (spill_path kv b)" if "b \<noteq> v" for b
    using write_frame [OF wr spill_path_good spill_path_good [of kv b]] that by simp
  have spl: "spill_path kv' = spill_path kv" by (intro spill_path_cong) (simp_all add: kv'_def)
  have res': "map_of (resident kv') = (map_of (resident kv))(v := None)"
    using d(5) by (simp add: kv'_def bt_simps)
  have spl': "map_of (spilled kv') = (map_of (spilled kv))(v \<mapsto> spill_path kv v)"
    using d(6) by (simp add: kv'_def bt_simps)
  have wf: "block_wf (kv_dim kv) (block_size kv) blk"
    using d(8) [OF get] full by (simp add: min_def split: if_splits)
  have invs: "bt_inv (resident kv')" "bt_inv (spilled kv')"
    using d(5,6) by (simp_all add: kv'_def bt_invs)
  have same: "kv_dim kv' = kv_dim kv" "block_size kv' = block_size kv" "kv_len kv' = kv_len kv"
    "max_positions kv' = max_positions kv" "max_resident_blocks kv' = max_resident_blocks kv"
    "kv_storage kv' = kv_storage kv" by (simp_all add: kv'_def)
  have disj: "dom (map_of (resident kv')) \<inter> dom (map_of (spilled kv')) = {}"
    using d(7) by (auto simp: res' spl')
  have cover: "dom (map_of (resident kv')) \<union> dom (map_of (spilled kv'))
      = dom (map_of (resident kv)) \<union> dom (map_of (spilled kv))"
    using get by (auto simp: res' spl')
  have resw: "block_wf (kv_dim kv) (min (block_size kv) (kv_len kv - b * block_size kv)) k"
    if "map_of (resident kv') b = Some k" for b k
    using that d(8) by (simp add: res' split: if_splits)
  have splw: "Suc b * block_size kv \<le> kv_len kv \<and> p = spill_path kv b \<and> kv_storage kv \<noteq> None \<and>
        (\<exists>k. block_wf (kv_dim kv) (block_size kv) k \<and> content st' p = Some (encode_block k))"
    if "map_of (spilled kv') b = Some p" for b p
  proof (cases "b = v")
    case True
    then show ?thesis using that spl' full sto wf new by auto
  next
    case False
    then have "map_of (spilled kv) b = Some p" using that spl' by simp
    from kv_inv_spilled [OF inv this] False old show ?thesis by metis
  qed
  show "kv_inv (content st') kv'"
    unfolding kv_inv_def same spl cover using d(1-4) invs disj resw splw inv
    by (simp add: kv_inv_def)
  show "block_at (content st') kv' b = block_at (content st) kv b"
  proof (cases "b = v")
    case True
    have "block_at (content st') kv' v = Some blk"
      using d(2) wf by (simp add: block_at_def res' spl' same new decode_encode_block)
    with True get show ?thesis by (simp add: block_at_def)
  next
    case False
    have "content st' p = content st p" if "map_of (spilled kv) b = Some p" for p
      using kv_inv_spilled(2) [OF inv that] old [OF False] by simp
    with False show ?thesis by (auto simp: block_at_def res' spl' same split: option.split)
  qed
qed

end

text \<open>The row being written goes to the last block, which is in memory or not there yet.\<close>

lemma last_block:
  assumes "kv_inv files kv"
  defines "idx \<equiv> kv_len kv div block_size kv"
  defines "blk \<equiv> case map_of (resident kv) idx of
                   Some b \<Rightarrow> b | None \<Rightarrow> \<lparr>bkeys = [], bvals = [], filled = 0\<rparr>"
  shows "map_of (spilled kv) idx = None"
    and "block_wf (kv_dim kv) (kv_len kv mod block_size kv) blk"
proof -
  note d = kv_invD [OF assms(1)]
  have split: "kv_len kv = idx * block_size kv + kv_len kv mod block_size kv"
    by (simp add: idx_def)
  have less: "kv_len kv mod block_size kv < block_size kv" using d(1) by simp
  show nospill: "map_of (spilled kv) idx = None"
  proof (rule ccontr)
    assume "map_of (spilled kv) idx \<noteq> None"
    then obtain p where "map_of (spilled kv) idx = Some p" by auto
    from kv_inv_spilled(1) [OF assms(1) this] split less show False by simp
  qed
  show "block_wf (kv_dim kv) (kv_len kv mod block_size kv) blk"
  proof (cases "map_of (resident kv) idx")
    case None
    then have "\<not> idx * block_size kv < kv_len kv"
      using kv_inv_covers [OF assms(1), of idx] nospill by simp
    then have "kv_len kv mod block_size kv = 0" using split by linarith
    with None show ?thesis by (simp add: blk_def block_wf_def)
  next
    case (Some k)
    have "kv_len kv - idx * block_size kv = kv_len kv mod block_size kv" using split by linarith
    with d(8) [OF Some] less Some show ?thesis by (simp add: blk_def min_def)
  qed
qed

lemma earlier_block_complete:
  assumes "(b::nat) * bs < n" and "b \<noteq> n div bs" and "0 < bs"
  shows "Suc b * bs \<le> n"
proof -
  have "b \<le> n div bs" using assms(1,3) by (simp add: less_eq_div_iff_mult_less_eq)
  with assms(2) have "Suc b \<le> n div bs" by simp
  then show ?thesis using assms(3) by (simp add: less_eq_div_iff_mult_less_eq)
qed

lemma push_row_inv:
  assumes inv: "kv_inv files kv" and room: "kv_len kv < max_positions kv"
    and lk: "length k = kv_dim kv" and lv: "length v = kv_dim kv"
  shows "kv_inv files (push_row kv k v)"
    and "kv_contents files (push_row kv k v) = kv_contents files kv @ [Some (k, v)]"
proof -
  note d = kv_invD [OF inv]
  define idx where "idx = kv_len kv div block_size kv"
  define r where "r = kv_len kv mod block_size kv"
  define blk where "blk = (case map_of (resident kv) idx of
                   Some b \<Rightarrow> b | None \<Rightarrow> \<lparr>bkeys = [], bvals = [], filled = 0\<rparr>)"
  define blk' where "blk' = \<lparr>bkeys = bkeys blk @ k, bvals = bvals blk @ v, filled = Suc (filled blk)\<rparr>"
  define kv' where "kv' = kv\<lparr>resident := bt_insert idx blk' (resident kv), kv_len := Suc (kv_len kv)\<rparr>"
  have kv': "push_row kv k v = kv'"
    by (simp add: push_row_def kv'_def idx_def blk_def blk'_def Let_def)
  have len: "kv_len kv = idx * block_size kv + r" and r: "r < block_size kv"
    using d(1) by (simp_all add: idx_def r_def)
  have nospill: "map_of (spilled kv) idx = None" and wf: "block_wf (kv_dim kv) r blk"
    using last_block [OF inv] by (simp_all add: idx_def r_def blk_def)
  have wf': "block_wf (kv_dim kv) (Suc r) blk'"
    using wf lk lv by (simp add: block_wf_def blk'_def)
  have res': "map_of (resident kv') = (map_of (resident kv))(idx \<mapsto> blk')"
    using d(5) by (simp add: kv'_def bt_simps)
  have same: "kv_dim kv' = kv_dim kv" "block_size kv' = block_size kv" "kv_len kv' = Suc (kv_len kv)"
    "max_positions kv' = max_positions kv" "max_resident_blocks kv' = max_resident_blocks kv"
    "kv_storage kv' = kv_storage kv" "spilled kv' = spilled kv" by (simp_all add: kv'_def)
  have path: "spill_path kv' = spill_path kv" by (intro spill_path_cong) (simp_all add: kv'_def)
  have cover: "b \<in> dom (map_of (resident kv')) \<union> dom (map_of (spilled kv)) \<longleftrightarrow>
      b * block_size kv < Suc (kv_len kv)" for b
  proof -
    have "b = idx \<or> b * block_size kv < kv_len kv \<longleftrightarrow> b * block_size kv < Suc (kv_len kv)"
      using len r d(1) by (metis earlier_block_complete idx_def less_Suc_eq less_Suc_eq_le
        le_add1 mult_is_0 nonzero_mult_div_cancel_right not_gr_zero)
    then show ?thesis using kv_inv_covers [OF inv, of b] by (auto simp: res' dom_def)
  qed
  have resw: "block_wf (kv_dim kv) (min (block_size kv) (Suc (kv_len kv) - b * block_size kv)) j"
    if "map_of (resident kv') b = Some j" for b j
  proof (cases "b = idx")
    case True
    have "min (block_size kv) (Suc (kv_len kv) - idx * block_size kv) = Suc r"
      using len r by simp
    with True that wf' show ?thesis by (simp add: res')
  next
    case False
    then have old: "map_of (resident kv) b = Some j" using that by (simp add: res')
    then have "b * block_size kv < kv_len kv" using kv_inv_covers [OF inv, of b] by simp
    from earlier_block_complete [OF this _ d(1)] False
    have "Suc b * block_size kv \<le> kv_len kv" by (simp add: idx_def)
    then have "block_size kv \<le> kv_len kv - b * block_size kv"
      "block_size kv \<le> Suc (kv_len kv) - b * block_size kv" by simp_all
    then show ?thesis using d(8) [OF old] by (simp add: min_absorb1)
  qed
  have splw: "Suc b * block_size kv \<le> Suc (kv_len kv) \<and> p = spill_path kv b \<and> kv_storage kv \<noteq> None \<and>
      (\<exists>j. block_wf (kv_dim kv) (block_size kv) j \<and> files p = Some (encode_block j))"
    if "map_of (spilled kv) b = Some p" for b p
    using kv_inv_spilled [OF inv that] by auto
  have disj: "dom (map_of (resident kv')) \<inter> dom (map_of (spilled kv)) = {}"
    using d(7) nospill by (auto simp: res')
  have binv: "bt_inv (resident kv')" using d(5) by (simp add: kv'_def bt_invs)
  show "kv_inv files (push_row kv k v)"
    unfolding kv' kv_inv_def same path using d(1-3,6) room binv disj cover resw splw by simp
  have at: "block_at files kv' b = (if b = idx then Some blk' else block_at files kv b)" for b
    by (simp add: block_at_def res' same split: option.split)
  have old: "kv_row files kv' p = kv_row files kv p" if p: "p < kv_len kv" for p
  proof (cases "p div block_size kv = idx")
    case True
    then have pr: "p mod block_size kv < r"
      using p len by (metis add_less_cancel_left div_mult_mod_eq)
    then have some: "map_of (resident kv) idx = Some blk"
      using wf by (cases "map_of (resident kv) idx") (auto simp: blk_def block_wf_def)
    have "kv_dim kv + p mod block_size kv * kv_dim kv \<le> r * kv_dim kv"
      using pr by (metis Suc_leI mult_Suc mult_le_mono1)
    then have "block_row (kv_dim kv) blk' (p mod block_size kv) = block_row (kv_dim kv) blk (p mod block_size kv)"
      using wf by (simp add: block_row_def blk'_def block_wf_def)
    with True some show ?thesis by (simp add: kv_row_def at same) (simp add: block_at_def)
  qed (simp add: kv_row_def at same)
  have new: "kv_row files kv' (kv_len kv) = Some (k, v)"
    using wf lk lv by (simp add: kv_row_def at same idx_def [symmetric] r_def [symmetric]
        block_row_def blk'_def block_wf_def)
  show "kv_contents files (push_row kv k v) = kv_contents files kv @ [Some (k, v)]"
    using old new by (simp add: kv' kv_contents_def same)
qed

context kv_backend
begin

text \<open>The loop: what it keeps, whether or not the disk fails it.\<close>

lemma spill_loop_keeps:
  fixes kv :: "'s kv_state"
  assumes "spill_loop ops cur st kv = (st', kv', r)"
    and "kv_inv (content st) kv" and "kv_storage kv \<noteq> None"
    and "\<And>b blk. map_of (resident kv) b = Some blk \<Longrightarrow> b \<noteq> cur \<Longrightarrow> Suc b * block_size kv \<le> kv_len kv"
  shows "kv_inv (content st') kv' \<and> kv_frame kv kv' \<and>
      (\<forall>b. block_at (content st') kv' b = block_at (content st) kv b) \<and>
      (\<forall>q. foreign good kv q \<longrightarrow> content st' q = content st q) \<and>
      (r = Inr () \<longrightarrow> length (resident kv') \<le> max_resident_blocks kv)"
  using assms
proof (induction "length (resident kv)" arbitrary: st kv rule: less_induct)
  case less
  note eq = less.prems(1) [unfolded spill_loop.simps [of ops cur st kv]]
  show ?case
  proof (cases "length (resident kv) \<le> max_resident_blocks kv")
    case True
    with eq less.prems(2) show ?thesis by simp
  next
    case big: False
    show ?thesis
    proof (cases "find (\<lambda>e. fst e \<noteq> cur) (resident kv)")
      case None
      then have "\<forall>e \<in> set (resident kv). fst e = cur" by (auto simp: find_None_iff)
      moreover have "distinct (map fst (resident kv))"
        using kv_invD(5) [OF less.prems(2)] by (rule bt_distinct)
      ultimately have "length (resident kv) \<le> 1"
        by (cases "resident kv" rule: list.exhaust; cases "tl (resident kv)") auto
      with big kv_invD(3) [OF less.prems(2)] show ?thesis by simp
    next
      case (Some e)
      obtain v blk where e: "e = (v, blk)" by (cases e)
      have "e \<in> set (resident kv) \<and> fst e \<noteq> cur" using Some by (auto simp: find_Some_iff)
      then have mem: "(v, blk) \<in> set (resident kv)" and vc: "v \<noteq> cur" by (simp_all add: e)
      have get: "map_of (resident kv) v = Some blk"
        using mem kv_invD(5) [OF less.prems(2)] by (rule bt_mem_lookup [rotated])
      obtain st1 r1 where wr: "so_write ops st (spill_path kv v) (encode_block blk) = (st1, r1)"
        by fastforce
      have foreign: "content st1 q = content st q" if "foreign good kv q" for q
        using write_frame [OF wr spill_path_good] that by (simp add: foreign_def)
      show ?thesis
      proof (cases r1)
        case (Inl err)
        have "content st1 (spill_path kv b) = content st (spill_path kv b)" for b
          using write_err [OF wr [unfolded Inl] spill_path_good]
            write_frame [OF wr spill_path_good spill_path_good [of kv b]] by (cases "b = v") auto
        from kv_inv_files_cong [OF less.prems(2) this]
        have "kv_inv (content st1) kv" by blast
        moreover have "block_at (content st1) kv b = block_at (content st) kv b" for b
          using kv_inv_spilled(2) [OF less.prems(2)] \<open>\<And>b. content st1 (spill_path kv b) = _\<close>
          by (intro block_at_cong) (auto simp: ran_def)
        ultimately show ?thesis
          using eq big Some e wr Inl foreign get kv_invD(5) [OF less.prems(2)]
          by (auto simp: bt_reinsert)
      next
        case (Inr u)
        define kv1 where "kv1 = kv\<lparr>resident := bt_remove v (resident kv),
                     spilled := bt_insert v (spill_path kv v) (spilled kv),
                     spills := Suc (spills kv)\<rparr>"
        note step = spill_step [OF less.prems(2,3) get less.prems(4) [OF get vc] wr [unfolded Inr],
            folded kv1_def]
        have fr: "kv_frame kv kv1" by (simp add: kv1_def)
        have less1: "length (resident kv1) < length (resident kv)"
          unfolding kv1_def bt_remove_def using mem by (auto intro: length_filter_less)
        have pre: "Suc b * block_size kv1 \<le> kv_len kv1"
          if "map_of (resident kv1) b = Some k" "b \<noteq> cur" for b k
          using that less.prems(4) kv_invD(5) [OF less.prems(2)]
          by (simp add: kv1_def bt_simps split: if_splits)
        have run: "spill_loop ops cur st1 kv1 = (st', kv', r)"
          using eq big Some e wr Inr by (simp add: kv1_def)
        have sto1: "kv_storage kv1 \<noteq> None" using less.prems(3) by (simp add: kv1_def)
        have IH: "kv_inv (content st') kv' \<and> kv_frame kv1 kv' \<and>
            (\<forall>b. block_at (content st') kv' b = block_at (content st1) kv1 b) \<and>
            (\<forall>q. foreign good kv1 q \<longrightarrow> content st' q = content st1 q) \<and>
            (r = Inr () \<longrightarrow> length (resident kv') \<le> max_resident_blocks kv1)"
          by (rule less.hyps [OF less1 run step(1) sto1]) (rule pre)
        then show ?thesis
          using step(2) fr foreign kv_frame_trans [OF fr] foreign_frame [OF fr]
            kv_frame_simps(5) [OF fr] by auto
      qed
    qed
  qed
qed

end

context kv_backend
begin

lemma contents_of_blocks:
  "kv_frame kv kv' \<Longrightarrow> \<forall>b. block_at files' kv' b = block_at files kv b \<Longrightarrow>
     kv_contents files' kv' = kv_contents files kv"
  by (rule kv_contents_cong) (simp_all add: kv_frame_simps)

lemma enforce_residency_keeps:
  fixes kv :: "'s kv_state"
  assumes "enforce_residency st kv cur = (st', kv', r)"
    and "kv_inv (content st) kv" and "kv_storage kv \<in> {None, Some ops}"
    and "\<forall>b \<in> dom (map_of (resident kv)) - {cur}. Suc b * block_size kv \<le> kv_len kv"
  shows "kv_inv (content st') kv'" and "kv_frame kv kv'"
    and "kv_contents (content st') kv' = kv_contents (content st) kv"
    and "foreign good kv q \<Longrightarrow> content st' q = content st q"
    and "r = Inr () \<Longrightarrow> kv_storage kv \<noteq> None \<Longrightarrow> 0 < kv_dim kv \<Longrightarrow>
           length (resident kv') \<le> max_resident_blocks kv"
proof -
  have "kv_inv (content st') kv' \<and> kv_frame kv kv' \<and>
      (\<forall>b. block_at (content st') kv' b = block_at (content st) kv b) \<and>
      (\<forall>q. foreign good kv q \<longrightarrow> content st' q = content st q) \<and>
      (r = Inr () \<longrightarrow> kv_storage kv \<noteq> None \<longrightarrow> 0 < kv_dim kv \<longrightarrow>
           length (resident kv') \<le> max_resident_blocks kv)"
  proof (cases "kv_dim kv = 0 \<or> kv_storage kv = None")
    case True
    then show ?thesis using assms(1,2) by (auto simp: enforce_residency_def split: if_splits)
  next
    case False
    then have "spill_loop ops cur st kv = (st', kv', r)" and "kv_storage kv \<noteq> None"
      using assms(1,3) by (auto simp: enforce_residency_def)
    from spill_loop_keeps [OF this(1) assms(2) this(2)] assms(4) show ?thesis by blast
  qed
  then show "kv_inv (content st') kv'" and fr: "kv_frame kv kv'"
    and "foreign good kv q \<Longrightarrow> content st' q = content st q"
    and "r = Inr () \<Longrightarrow> kv_storage kv \<noteq> None \<Longrightarrow> 0 < kv_dim kv \<Longrightarrow>
           length (resident kv') \<le> max_resident_blocks kv"
    and "kv_contents (content st') kv' = kv_contents (content st) kv"
    using contents_of_blocks by blast+
qed

text \<open>
  An append that is let in records its row, whether or not the spill that follows it
  succeeds.
\<close>

lemma kv_append_keeps:
  fixes kv :: "'s kv_state"
  assumes app: "kv_append st kv k v = (st', kv', r)"
    and inv: "kv_inv (content st) kv" and sto: "kv_storage kv \<in> {None, Some ops}"
    and lk: "length k = kv_dim kv" and lv: "length v = kv_dim kv"
    and room: "kv_len kv < max_positions kv"
  shows "kv_inv (content st') kv'"
    and "kv_contents (content st') kv' = kv_contents (content st) kv @ [Some (k, v)]"
    and "kv_frame (push_row kv k v) kv'"
    and "foreign good kv q \<Longrightarrow> content st' q = content st q"
    and "r = Inr () \<Longrightarrow> kv_storage kv \<noteq> None \<Longrightarrow> 0 < kv_dim kv \<Longrightarrow>
           length (resident kv') \<le> max_resident_blocks kv"
proof -
  let ?p = "push_row kv k v" and ?cur = "kv_len kv div block_size kv"
  have same: "kv_dim ?p = kv_dim kv" "block_size ?p = block_size kv" "kv_len ?p = Suc (kv_len kv)"
    "kv_storage ?p = kv_storage kv" "max_resident_blocks ?p = max_resident_blocks kv"
    "spill_path ?p = spill_path kv"
    by (simp_all add: push_row_def Let_def spill_path_def fun_eq_iff)
  have enf: "enforce_residency st ?p ?cur = (st', kv', r)"
    using app lk lv room by (simp add: kv_append_def)
  have complete: "\<forall>b \<in> dom (map_of (resident ?p)) - {?cur}. Suc b * block_size ?p \<le> kv_len ?p"
  proof
    fix b assume b: "b \<in> dom (map_of (resident ?p)) - {?cur}"
    then have "map_of (resident kv) b \<noteq> None"
      using kv_invD(5) [OF inv] by (auto simp: push_row_def Let_def bt_simps split: if_splits)
    then have "b * block_size kv < kv_len kv" using kv_inv_covers [OF inv, of b] by simp
    from earlier_block_complete [OF this _ kv_invD(1) [OF inv]] b
    show "Suc b * block_size ?p \<le> kv_len ?p" by (simp add: same)
  qed
  note keep = enforce_residency_keeps [OF enf push_row_inv(1) [OF inv room lk lv] _ complete]
  show "kv_inv (content st') kv'" using keep(1) sto same by simp
  show "kv_contents (content st') kv' = kv_contents (content st) kv @ [Some (k, v)]"
    using keep(3) push_row_inv(2) [OF inv room lk lv] sto same by simp
  show "kv_frame ?p kv'" using keep(2) sto same by simp
  show "content st' q = content st q" if "foreign good kv q"
    using keep(4) that sto same by (simp add: foreign_def)
  show "length (resident kv') \<le> max_resident_blocks kv"
    if "r = Inr ()" "kv_storage kv \<noteq> None" "0 < kv_dim kv"
    using keep(5) that sto same by auto
qed

lemma kv_reload_keeps:
  fixes kv :: "'s kv_state"
  assumes rel: "kv_reload st kv b = (st', kv', r)"
    and inv: "kv_inv (content st) kv" and sto: "kv_storage kv \<in> {None, Some ops}"
  shows "kv_inv (content st') kv' \<and> kv_frame kv kv' \<and>
    (\<forall>i. block_at (content st') kv' i = block_at (content st) kv i) \<and>
    (\<forall>q. foreign good kv q \<longrightarrow> content st' q = content st q) \<and>
    (\<forall>i. map_of (resident kv) i \<noteq> None \<longrightarrow> map_of (resident kv') i \<noteq> None) \<and>
    (r = Inr () \<longrightarrow> map_of (resident kv') b \<noteq> None)"
proof (cases "map_of (spilled kv) b")
  case None
  with rel inv show ?thesis by (auto simp: kv_reload_def)
next
  case (Some p)
  note sp = kv_inv_spilled [OF inv Some]
  have ops: "kv_storage kv = Some ops" using sto sp(3) by auto
  obtain st1 r1 where rd: "so_read ops st p = (st1, r1)" by fastforce
  have pg: "good p" using sp(2) spill_path_good by simp
  have same: "content st1 q = content st q" if "good q" for q
    using read_frame [OF rd pg that] .
  have inv1: "kv_inv (content st1) kv"
    using kv_inv_files_cong(1) [OF inv same [OF spill_path_good]] .
  have own: "content st1 q = content st q" if "map_of (spilled kv) i = Some q" for i q
    using kv_inv_spilled(2) [OF inv that] same [OF spill_path_good [of kv i]] by simp
  have at1: "block_at (content st1) kv i = block_at (content st) kv i" for i
    using own by (intro block_at_cong) (auto simp: ran_def)
  have foreign: "content st1 q = content st q" if "foreign good kv q" for q
    using same that by (simp add: foreign_def)
  obtain blk where blk: "block_wf (kv_dim kv) (block_size kv) blk" "content st p = Some (encode_block blk)"
    using sp(4) by blast
  note d = kv_invD [OF inv]
  show ?thesis
  proof (cases r1)
    case (Inl e)
    with rel Some ops rd inv1 at1 foreign show ?thesis by (auto simp: kv_reload_def)
  next
    case (Inr bytes)
    then have "bytes = encode_block blk" using read_ok [OF rd [unfolded Inr] pg] blk(2) by simp
    then have dec: "decode_block (kv_dim kv) (block_size kv) bytes = Inr blk"
      using blk(1) d(2) by (simp add: decode_encode_block)
    define kv1 where "kv1 = kv\<lparr>resident := bt_insert b blk (resident kv),
        spilled := bt_remove b (spilled kv), reloads := Suc (reloads kv)\<rparr>"
    have res: "kv' = kv1" "st' = st1" "r = Inr ()"
      using rel Some ops rd Inr dec by (auto simp: kv_reload_def kv1_def)
    have res1: "map_of (resident kv1) = (map_of (resident kv))(b \<mapsto> blk)"
      and spl1: "map_of (spilled kv1) = (map_of (spilled kv))(b := None)"
      using d(5,6) by (simp_all add: kv1_def bt_simps)
    have eqs: "kv_dim kv1 = kv_dim kv" "block_size kv1 = block_size kv" "kv_len kv1 = kv_len kv"
      "max_positions kv1 = max_positions kv" "max_resident_blocks kv1 = max_resident_blocks kv"
      "kv_storage kv1 = kv_storage kv" by (simp_all add: kv1_def)
    have path: "spill_path kv1 = spill_path kv" by (intro spill_path_cong) (simp_all add: kv1_def)
    have binv: "bt_inv (resident kv1)" "bt_inv (spilled kv1)"
      using d(5,6) by (simp_all add: kv1_def bt_invs)
    have cover: "dom (map_of (resident kv1)) \<union> dom (map_of (spilled kv1))
        = dom (map_of (resident kv)) \<union> dom (map_of (spilled kv))"
      using Some by (auto simp: res1 spl1)
    have disj: "dom (map_of (resident kv1)) \<inter> dom (map_of (spilled kv1)) = {}"
      using d(7) by (auto simp: res1 spl1)
    have full: "block_size kv \<le> kv_len kv - b * block_size kv" using sp(1) by simp
    have resw: "block_wf (kv_dim kv) (min (block_size kv) (kv_len kv - i * block_size kv)) j"
      if "map_of (resident kv1) i = Some j" for i j
      using that d(8) blk(1) full by (auto simp: res1 min_absorb1 split: if_splits)
    have splw: "Suc i * block_size kv \<le> kv_len kv \<and> q = spill_path kv i \<and> kv_storage kv \<noteq> None \<and>
        (\<exists>k. block_wf (kv_dim kv) (block_size kv) k \<and> content st1 q = Some (encode_block k))"
      if "map_of (spilled kv1) i = Some q" for i q
      using kv_inv_spilled [OF inv1] that by (simp add: spl1 split: if_splits)
    have inv': "kv_inv (content st1) kv1"
      unfolding kv_inv_def eqs path cover using d(1-4) binv disj resw splw inv
      by (simp add: kv_inv_def)
    have "block_at (content st) kv b = Some blk"
      using block_at_spilled [OF inv Some blk] .
    then have at': "block_at (content st1) kv1 i = block_at (content st) kv i" for i
      using at1 [of i] by (auto simp: block_at_def res1 spl1 eqs split: option.split)
    show ?thesis
      using inv' at' foreign by (simp add: res kv1_def [symmetric] res1) (simp add: kv1_def)
  qed
qed

lemma reload_all_keeps:
  fixes kv :: "'s kv_state"
  assumes "reload_all st kv bs = (st', kv', r)"
    and "kv_inv (content st) kv" and "kv_storage kv \<in> {None, Some ops}"
  shows "kv_inv (content st') kv' \<and> kv_frame kv kv' \<and>
    (\<forall>i. block_at (content st') kv' i = block_at (content st) kv i) \<and>
    (\<forall>q. foreign good kv q \<longrightarrow> content st' q = content st q) \<and>
    (\<forall>i. map_of (resident kv) i \<noteq> None \<longrightarrow> map_of (resident kv') i \<noteq> None) \<and>
    (r = Inr () \<longrightarrow> (\<forall>b \<in> set bs. map_of (resident kv') b \<noteq> None))"
  using assms
proof (induction bs arbitrary: st kv)
  case Nil
  then show ?case by auto
next
  case (Cons b bs)
  obtain st1 kv1 r1 where one: "kv_reload st kv b = (st1, kv1, r1)" by (metis prod_cases3)
  note k1 = kv_reload_keeps [OF one Cons.prems(2,3)]
  show ?case
  proof (cases r1)
    case (Inl e)
    with Cons.prems(1) one k1 show ?thesis by auto
  next
    case (Inr u)
    have rest: "reload_all st1 kv1 bs = (st', kv', r)" using Cons.prems(1) one Inr by simp
    have fr: "kv_frame kv kv1" using k1 by blast
    have sto1: "kv_storage kv1 \<in> {None, Some ops}"
      using Cons.prems(3) kv_frame_simps(6) [OF fr] by simp
    note k2 = Cons.IH [OF rest conjunct1 [OF k1] sto1]
    show ?thesis
      using k1 k2 Inr kv_frame_trans [OF fr] foreign_frame [OF fr] by simp
  qed
qed

end

section \<open>Reads and truncation\<close>

lemma kv_row_resident:
  assumes inv: "kv_inv files kv" and p: "p < kv_len kv"
    and res: "map_of (resident kv) (p div block_size kv) = Some blk"
  shows "kv_row files kv p = Some (block_row (kv_dim kv) blk (p mod block_size kv))"
    and "key_at kv p = Some (fst (block_row (kv_dim kv) blk (p mod block_size kv)))"
    and "value_at kv p = Some (snd (block_row (kv_dim kv) blk (p mod block_size kv)))"
proof -
  note d = kv_invD [OF inv]
  let ?b = "p div block_size kv" and ?i = "p mod block_size kv"
  have "?i < block_size kv" using d(1) by simp
  moreover have "?i < kv_len kv - ?b * block_size kv"
    using p by (metis add_less_cancel_left div_mult_mod_eq le_add_diff_inverse less_diff_conv2
        div_times_less_eq_dividend add.commute minus_mod_eq_div_mult diff_less_mono mod_less_eq_dividend minus_div_mult_eq_mod)
  ultimately have i: "?i < min (block_size kv) (kv_len kv - ?b * block_size kv)" by simp
  define n where "n = min (block_size kv) (kv_len kv - ?b * block_size kv)"
  have "?i * kv_dim kv + kv_dim kv \<le> n * kv_dim kv"
    using i unfolding n_def [symmetric] by (metis Suc_leI add.commute mult_Suc mult_le_mono1)
  moreover have "block_wf (kv_dim kv) n blk" using d(8) [OF res] by (simp add: n_def)
  ultimately show "key_at kv p = Some (fst (block_row (kv_dim kv) blk ?i))"
    and "value_at kv p = Some (snd (block_row (kv_dim kv) blk ?i))"
    using p res by (simp_all add: key_at_def value_at_def slice_at_def Let_def block_wf_def block_row_def)
  show "kv_row files kv p = Some (block_row (kv_dim kv) blk ?i)"
    using res by (simp add: kv_row_def block_at_def)
qed

lemma kv_row_defined:
  assumes inv: "kv_inv files kv" and p: "p < kv_len kv"
  shows "kv_row files kv p \<noteq> None"
proof -
  let ?b = "p div block_size kv"
  have "?b * block_size kv < kv_len kv"
    using p by (meson div_times_less_eq_dividend le_less_trans)
  then consider blk where "map_of (resident kv) ?b = Some blk" | q where "map_of (spilled kv) ?b = Some q"
    using kv_inv_covers [OF inv, of ?b] by auto
  then show ?thesis
  proof cases
    case 1
    then show ?thesis by (simp add: kv_row_def block_at_def)
  next
    case (2 q)
    then show ?thesis
      using block_at_spilled [OF inv 2] kv_inv_spilled(4) [OF inv 2] by (auto simp: kv_row_def)
  qed
qed

lemma cut_rows_row:
  "i < keep \<Longrightarrow> block_row d (cut_rows d keep blk) i = block_row d blk i"
  by (simp add: block_row_def cut_rows_def take_drop_take_row)

lemma stale_block_iff:
  assumes "0 < bs"
  shows "stale_block bs n b \<longleftrightarrow> n \<le> b * bs"
proof -
  have n: "n = (n div bs) * bs + n mod bs" and m: "n mod bs < bs" using assms by simp_all
  consider "b < n div bs" | "b = n div bs" | "n div bs < b" by linarith
  then show ?thesis
  proof cases
    case 1
    then have "Suc b * bs \<le> (n div bs) * bs" by (intro mult_le_mono1) simp
    then have "\<not> n \<le> b * bs"
      using div_times_less_eq_dividend [of n bs] assms unfolding mult_Suc by linarith
    then show ?thesis using 1 by (simp add: stale_block_def)
  next
    case 2
    have "n \<le> n div bs * bs \<longleftrightarrow> n mod bs = 0" using n by linarith
    with 2 show ?thesis by (simp add: stale_block_def)
  next
    case 3
    then have "Suc (n div bs) * bs \<le> b * bs" by (intro mult_le_mono1) simp
    then have "n \<le> b * bs" using n m unfolding mult_Suc by linarith
    then show ?thesis using 3 by (simp add: stale_block_def)
  qed
qed

lemma truncated_resident_lookup:
  assumes inv: "kv_inv files kv" and n: "n < kv_len kv"
    and here: "n mod block_size kv > 0 \<Longrightarrow> map_of (spilled kv) (n div block_size kv) = None"
  shows "map_of (truncated_resident kv n) b =
     (if stale_block (block_size kv) n b then None
      else if b = n div block_size kv
      then map_option (cut_rows (kv_dim kv) (n mod block_size kv)) (map_of (resident kv) b)
      else map_of (resident kv) b)"
    and "bt_inv (truncated_resident kv n)"
    and "\<not> stale_block (block_size kv) n (n div block_size kv) \<Longrightarrow>
           map_of (resident kv) (n div block_size kv) \<noteq> None"
proof -
  note d = kv_invD [OF inv]
  show "map_of (truncated_resident kv n) b =
     (if stale_block (block_size kv) n b then None
      else if b = n div block_size kv
      then map_option (cut_rows (kv_dim kv) (n mod block_size kv)) (map_of (resident kv) b)
      else map_of (resident kv) b)"
    using d(5)
    by (auto simp: truncated_resident_def Let_def bt_simps bt_invs stale_block_def restrict_map_def
        split: option.split)
  show "bt_inv (truncated_resident kv n)"
    using d(5) by (auto simp: truncated_resident_def Let_def bt_invs split: option.split)
  assume "\<not> stale_block (block_size kv) n (n div block_size kv)"
  then have "n mod block_size kv > 0" by (simp add: stale_block_def)
  moreover have "n div block_size kv * block_size kv < kv_len kv"
    using n by (meson div_times_less_eq_dividend le_less_trans)
  ultimately show "map_of (resident kv) (n div block_size kv) \<noteq> None"
    using here kv_inv_covers [OF inv, of "n div block_size kv"] by blast
qed

context kv_backend
begin

lemma ensure_resident_keeps:
  fixes kv :: "'s kv_state"
  assumes ens: "ensure_resident st kv start end = (st', kv', r)"
    and inv: "kv_inv (content st) kv" and sto: "kv_storage kv \<in> {None, Some ops}"
  shows "kv_inv (content st') kv'" and "kv_frame kv kv'"
    and "kv_contents (content st') kv' = kv_contents (content st) kv"
    and "foreign good kv q \<Longrightarrow> content st' q = content st q"
    and "r = Inr () \<Longrightarrow> start \<le> p \<Longrightarrow> p < end \<Longrightarrow> p < kv_len kv \<Longrightarrow>
           map_of (resident kv') (p div block_size kv) \<noteq> None"
proof -
  define bs where "bs = filter (\<lambda>b. map_of (spilled kv) b \<noteq> None)
           [start div block_size kv ..< Suc ((end - 1) div block_size kv)]"
  have keep: "kv_inv (content st') kv' \<and> kv_frame kv kv' \<and>
    (\<forall>i. block_at (content st') kv' i = block_at (content st) kv i) \<and>
    (\<forall>q. foreign good kv q \<longrightarrow> content st' q = content st q) \<and>
    (\<forall>i. map_of (resident kv) i \<noteq> None \<longrightarrow> map_of (resident kv') i \<noteq> None) \<and>
    (r = Inr () \<longrightarrow> start < end \<longrightarrow> (\<forall>b \<in> set bs. map_of (resident kv') b \<noteq> None))"
  proof (cases "start \<ge> end")
    case True
    then show ?thesis using ens inv by (auto simp: ensure_resident_def)
  next
    case False
    then have "reload_all st kv bs = (st', kv', r)" using ens by (simp add: ensure_resident_def bs_def)
    from reload_all_keeps [OF this inv sto] show ?thesis by blast
  qed
  then show "kv_inv (content st') kv'" and "kv_frame kv kv'"
    and "foreign good kv q \<Longrightarrow> content st' q = content st q" by blast+
  from keep show "kv_contents (content st') kv' = kv_contents (content st) kv"
    using contents_of_blocks by blast
  assume r: "r = Inr ()" and p: "start \<le> p" "p < end" "p < kv_len kv"
  let ?b = "p div block_size kv"
  have "?b * block_size kv < kv_len kv"
    using p(3) by (meson div_times_less_eq_dividend le_less_trans)
  then consider "map_of (resident kv) ?b \<noteq> None" | "map_of (spilled kv) ?b \<noteq> None"
    using kv_inv_covers [OF inv, of ?b] by blast
  then show "map_of (resident kv') ?b \<noteq> None"
  proof cases
    case 2
    moreover have "start div block_size kv \<le> ?b" "?b \<le> (end - 1) div block_size kv"
      using p by (auto intro: div_le_mono)
    ultimately have "?b \<in> set bs" unfolding bs_def by (auto simp del: upt_Suc)
    with keep r p show ?thesis by auto
  qed (use keep in blast)
qed

lemma remove_files_frame:
  assumes "so \<in> {None, Some ops}" and "\<forall>p \<in> set ps. good p" and "good q" and "q \<notin> set ps"
  shows "content (remove_files so ps st) q = content st q"
  using assms
proof (induction so ps st rule: remove_files.induct)
  case (3 ops' p ps st)
  obtain st1 r where rm: "so_remove ops st p = (st1, r)" by fastforce
  have "content st1 q = content st q"
    using remove_frame [OF rm _ 3(4)] 3(3,5) by simp
  with 3 rm show ?case by simp
qed simp_all

lemma kv_truncate_keeps:
  fixes kv :: "'s kv_state"
  assumes tr: "kv_truncate st kv n = (st', kv', Inr u)"
    and inv: "kv_inv (content st) kv" and sto: "kv_storage kv \<in> {None, Some ops}"
  shows "kv_inv (content st') kv'"
    and "kv_contents (content st') kv' = take n (kv_contents (content st) kv)"
    and "kv_len kv' = min n (kv_len kv)"
    and "foreign good kv q \<Longrightarrow> content st' q = content st q"
proof -
  have "kv_inv (content st') kv' \<and> kv_contents (content st') kv' = take n (kv_contents (content st) kv)
      \<and> kv_len kv' = min n (kv_len kv) \<and> (foreign good kv q \<longrightarrow> content st' q = content st q)"
  proof (cases "n \<ge> kv_len kv")
    case True
    with tr inv show ?thesis by (auto simp: kv_truncate_def kv_contents_def)
  next
    case False
    note d = kv_invD [OF inv]
    let ?bs = "block_size kv" and ?cut = "n div block_size kv" and ?keep = "n mod block_size kv"
    have nl: "n < kv_len kv" using False by simp
    have here: "?keep > 0 \<Longrightarrow> map_of (spilled kv) ?cut = None"
      using tr False by (auto simp: kv_truncate_def split: if_splits)
    define ps where "ps = map snd (bt_retain (stale_block ?bs n) (spilled kv))"
    have kv': "kv' = kv\<lparr>resident := truncated_resident kv n,
            spilled := bt_retain (\<lambda>b. \<not> stale_block ?bs n b) (spilled kv), kv_len := n\<rparr>"
      and st': "st' = remove_files (kv_storage kv) ps st"
      using tr False here by (auto simp: kv_truncate_def ps_def split: if_splits)
    note look = truncated_resident_lookup [OF inv nl here]
    note stale = stale_block_iff [OF d(1)]
    have eqs: "kv_dim kv' = kv_dim kv" "block_size kv' = ?bs" "kv_len kv' = n"
      "max_positions kv' = max_positions kv" "max_resident_blocks kv' = max_resident_blocks kv"
      "kv_storage kv' = kv_storage kv" by (simp_all add: kv')
    have path: "spill_path kv' = spill_path kv" by (intro spill_path_cong) (simp_all add: kv')
    have spl': "map_of (spilled kv') b = (if stale_block ?bs n b then None else map_of (spilled kv) b)" for b
      using d(6) by (simp add: kv' bt_simps restrict_map_def)
    have res': "map_of (resident kv') b = (if stale_block ?bs n b then None
      else if b = ?cut then map_option (cut_rows (kv_dim kv) ?keep) (map_of (resident kv) b)
      else map_of (resident kv) b)" for b
      using look(1) by (simp add: kv')
    have ps: "p \<in> set ps \<longleftrightarrow> (\<exists>b. stale_block ?bs n b \<and> map_of (spilled kv) b = Some p)" for p
    proof -
      have "p \<in> set ps \<longleftrightarrow> p \<in> ran (map_of (bt_retain (stale_block ?bs n) (spilled kv)))"
        using d(6) by (simp add: ps_def ran_distinct bt_distinct bt_invs)
      then show ?thesis using d(6) by (auto simp: bt_simps ran_def restrict_map_def)
    qed
    have ps_path: "\<exists>b. stale_block ?bs n b \<and> p = spill_path kv b" if "p \<in> set ps" for p
      using that kv_inv_spilled(2) [OF inv] by (auto simp: ps)
    have ps_good: "\<forall>p \<in> set ps. good p" using ps_path spill_path_good by blast
    have files: "content st' q = content st q" if "good q" "q \<notin> set ps" for q
      unfolding st' by (rule remove_files_frame [OF sto ps_good that])
    have kept: "content st' (spill_path kv b) = content st (spill_path kv b)"
      if "\<not> stale_block ?bs n b" for b
      using files [OF spill_path_good [of kv b]] ps_path that by fastforce
    have cover: "b \<in> dom (map_of (resident kv')) \<union> dom (map_of (spilled kv')) \<longleftrightarrow> b * ?bs < n" for b
    proof -
      have "b * ?bs < kv_len kv" if "b * ?bs < n" using that nl by simp
      then show ?thesis
        using kv_inv_covers [OF inv, of b] by (auto simp: res' spl' stale dom_def)
    qed
    have split: "n = ?cut * ?bs + ?keep" and kb: "?keep < ?bs" using d(1) by simp_all
    have lower: "Suc b * ?bs \<le> n" if "\<not> stale_block ?bs n b" "b \<noteq> ?cut" for b
      using that earlier_block_complete [of b ?bs n] d(1) by (simp add: stale)
    have resw: "block_wf (kv_dim kv) (min ?bs (n - b * ?bs)) j"
      if j: "map_of (resident kv') b = Some j" for b j
    proof (cases "b = ?cut")
      case True
      then obtain k where k: "map_of (resident kv) b = Some k" "j = cut_rows (kv_dim kv) ?keep k"
        using j by (auto simp: res' split: if_splits)
      have "n - b * ?bs = ?keep" using True by (simp add: minus_div_mult_eq_mod)
      then have "min ?bs (n - b * ?bs) = ?keep" using kb by simp
      moreover have "n - b * ?bs \<le> kv_len kv - b * ?bs" using nl by simp
      then have "?keep \<le> min ?bs (kv_len kv - b * ?bs)"
        using \<open>n - b * ?bs = ?keep\<close> kb by simp
      then have "?keep * kv_dim kv \<le> min ?bs (kv_len kv - b * ?bs) * kv_dim kv" by (rule mult_le_mono1)
      ultimately show ?thesis
        using d(8) [OF k(1)] k(2) by (simp add: block_wf_def cut_rows_def)
    next
      case False
      then have old: "map_of (resident kv) b = Some j" and ns: "\<not> stale_block ?bs n b"
        using j by (auto simp: res' split: if_splits)
      from lower [OF ns False] nl have "?bs \<le> n - b * ?bs" "?bs \<le> kv_len kv - b * ?bs" by simp_all
      then show ?thesis using d(8) [OF old] by (simp add: min_absorb1)
    qed
    have splw: "Suc b * ?bs \<le> n \<and> p = spill_path kv b \<and> kv_storage kv \<noteq> None \<and>
        (\<exists>k. block_wf (kv_dim kv) ?bs k \<and> content st' p = Some (encode_block k))"
      if p: "map_of (spilled kv') b = Some p" for b p
    proof -
      have old: "map_of (spilled kv) b = Some p" and ns: "\<not> stale_block ?bs n b"
        using p by (auto simp: spl' split: if_splits)
      have "b \<noteq> ?cut" using old ns here by (auto simp: stale_block_def)
      from lower [OF ns this] kv_inv_spilled [OF inv old] kept [OF ns] show ?thesis by auto
    qed
    have disj: "dom (map_of (resident kv')) \<inter> dom (map_of (spilled kv')) = {}"
    proof -
      have "dom (map_of (resident kv')) \<subseteq> dom (map_of (resident kv))"
        by (auto simp: res' split: if_splits)
      moreover have "dom (map_of (spilled kv')) \<subseteq> dom (map_of (spilled kv))"
        by (auto simp: spl' split: if_splits)
      ultimately show ?thesis using d(7) by blast
    qed
    have binv: "bt_inv (resident kv')" "bt_inv (spilled kv')"
      using look(2) d(6) by (simp_all add: kv' bt_invs)
    have maxp: "n \<le> max_positions kv" using nl d(4) by simp
    have inv': "kv_inv (content st') kv'"
      unfolding kv_inv_def eqs path using d(1-3) maxp binv disj cover resw splw by simp
    have row: "kv_row (content st') kv' p = kv_row (content st) kv p" if p: "p < n" for p
    proof -
      let ?b = "p div ?bs"
      have ns: "\<not> stale_block ?bs n ?b"
        using p div_times_less_eq_dividend [of p ?bs] unfolding stale by linarith
      show ?thesis
      proof (cases "?b = ?cut")
        case True
        then have "p mod ?bs < ?keep" using p split by (metis add_less_cancel_left div_mult_mod_eq)
        moreover obtain k where "map_of (resident kv) ?cut = Some k"
          using look(3) ns True by auto
        ultimately show ?thesis
          using True ns by (simp add: kv_row_def block_at_def res' eqs cut_rows_row)
      next
        case False
        have "content st' q = content st q" if "map_of (spilled kv) ?b = Some q" for q
          using kv_inv_spilled(2) [OF inv that] kept [OF ns] by simp
        then have "block_at (content st') kv' ?b = block_at (content st) kv ?b"
          using False ns by (auto simp: block_at_def res' spl' eqs split: option.split)
        then show ?thesis by (simp add: kv_row_def eqs)
      qed
    qed
    have cont: "kv_contents (content st') kv' = take n (kv_contents (content st) kv)"
      using row nl by (simp add: kv_contents_def eqs take_map)
    have "content st' q = content st q" if "foreign good kv q"
      using files ps_path that by (auto simp: foreign_def)
    with inv' cont eqs nl show ?thesis by simp
  qed
  then show "kv_inv (content st') kv'"
    and "kv_contents (content st') kv' = take n (kv_contents (content st) kv)"
    and "kv_len kv' = min n (kv_len kv)"
    and "foreign good kv q \<Longrightarrow> content st' q = content st q" by blast+
qed

end

lemma kv_truncate_refused:
  assumes "kv_truncate st kv n = (st', kv', Inl e)"
  shows "st' = st \<and> kv' = kv \<and> n < kv_len kv \<and> 0 < n mod block_size kv \<and>
    map_of (spilled kv) (n div block_size kv) \<noteq> None"
  using assms by (auto simp: kv_truncate_def split: if_splits)

lemma kv_new_inv:
  assumes "dims_block_size (cfg_dims cfg) < 2 ^ 64"
  shows "kv_inv files (for_layer cfg sid l)" and "kv_contents files (for_layer cfg sid l) = []"
  using assms by (auto simp: kv_inv_def for_layer_def bt_inv_def kv_contents_def)

lemma kv_rekey_keeps:
  assumes "kv_rekey kv sid = (kv', Inr u)" and "kv_inv files kv"
  shows "kv_inv files' kv' \<and> kv_contents files' kv' = kv_contents files kv \<and> seq_id kv' = sid"
proof -
  have ns: "spilled kv = []" and kv': "kv' = kv\<lparr>seq_id := sid\<rparr>"
    using assms(1) by (auto simp: kv_rekey_def kv_has_spill_def split: if_splits)
  have "kv_inv files' kv'" using assms(2) ns by (simp add: kv_inv_def kv')
  moreover have "kv_contents files' kv' = kv_contents files kv"
    using ns by (intro kv_contents_cong block_at_cong) (simp_all add: kv')
  ultimately show ?thesis by (simp add: kv')
qed


section \<open>On the local disk\<close>

lemma show_nat_no_slash: "CHR ''/'' \<notin> set (show_nat n)"
  using show_nat_digits [of "CHR ''/''" n] by (auto simp: is_digit_char_def)

lemma spill_name_good: "good_path (spill_name s l b)"
proof -
  let ?ws = "[''kv'', ''seq_'' @ show_nat s, ''layer_'' @ show_nat l, ''block_'' @ show_nat b @ ''.bin'']"
  have "\<forall>w \<in> set ?ws. plain_name w"
    using show_nat_no_slash by (simp add: plain_name_def)
  moreover have "\<exists>w. last ?ws = w @ ''.bin''"
    by (rule exI [of _ "''block_'' @ show_nat b"]) simp
  ultimately have "bin_path ?ws" by (simp add: bin_path_def)
  moreover have "join_slash ?ws = spill_name s l b" by (simp add: spill_name_def)
  ultimately show ?thesis unfolding good_path_def by metis
qed

interpretation local_kv: kv_backend "local_ops d" "local_content d" good_path
  by unfold_locales (rule spill_name_good)

text \<open>One operation of a cache, its result, and what it should do to the abstract list.\<close>

datatype kv_op = Append "f32 list" "f32 list" | Ensure nat nat | Truncate nat

fun kv_step :: "'s \<Rightarrow> 's kv_state \<Rightarrow> kv_op \<Rightarrow> 's \<times> 's kv_state \<times> unit res" where
  "kv_step st kv (Append k v) = kv_append st kv k v"
| "kv_step st kv (Ensure a b) = ensure_resident st kv a b"
| "kv_step st kv (Truncate n) = kv_truncate st kv n"

type_synonym kv_rows = "(f32 list \<times> f32 list) option list"

fun spec_step :: "nat \<Rightarrow> nat \<Rightarrow> kv_rows \<Rightarrow> kv_op \<Rightarrow> unit res \<Rightarrow> kv_rows" where
  "spec_step d maxp xs (Append k v) r =
     (if length k = d \<and> length v = d \<and> length xs < maxp then xs @ [Some (k, v)] else xs)"
| "spec_step d maxp xs (Ensure a b) r = xs"
| "spec_step d maxp xs (Truncate n) r = (case r of Inr _ \<Rightarrow> take n xs | Inl _ \<Rightarrow> xs)"

fun kv_run :: "'s \<Rightarrow> 's kv_state \<Rightarrow> kv_op list \<Rightarrow> 's \<times> 's kv_state \<times> unit res list" where
  "kv_run st kv [] = (st, kv, [])"
| "kv_run st kv (a # as) =
     (case kv_step st kv a of (st1, kv1, r) \<Rightarrow>
        (case kv_run st1 kv1 as of (st2, kv2, rs) \<Rightarrow> (st2, kv2, r # rs)))"

fun spec_run :: "nat \<Rightarrow> nat \<Rightarrow> kv_rows \<Rightarrow> kv_op list \<Rightarrow> unit res list \<Rightarrow> kv_rows" where
  "spec_run d maxp xs (a # as) (r # rs) = spec_run d maxp (spec_step d maxp xs a r) as rs"
| "spec_run d maxp xs _ _ = xs"

lemma kv_contents_length [simp]: "length (kv_contents files kv) = kv_len kv"
  by (simp add: kv_contents_def)

lemma push_row_simps:
  "kv_dim (push_row kv k v) = kv_dim kv" "max_positions (push_row kv k v) = max_positions kv"
  "kv_storage (push_row kv k v) = kv_storage kv" "seq_id (push_row kv k v) = seq_id kv"
  "layer (push_row kv k v) = layer kv"
  by (simp_all add: push_row_def Let_def)

lemma kv_truncate_fields:
  "kv_truncate st kv n = (st', kv', r) \<Longrightarrow>
     kv_dim kv' = kv_dim kv \<and> max_positions kv' = max_positions kv \<and> kv_storage kv' = kv_storage kv \<and>
     seq_id kv' = seq_id kv \<and> layer kv' = layer kv"
  by (auto simp: kv_truncate_def split: if_splits)

context kv_backend
begin

lemma kv_step_keeps:
  fixes kv :: "'s kv_state"
  assumes step: "kv_step st kv a = (st', kv', r)"
    and inv: "kv_inv (content st) kv" and sto: "kv_storage kv \<in> {None, Some ops}"
  shows "kv_inv (content st') kv'"
    and "kv_contents (content st') kv' =
           spec_step (kv_dim kv) (max_positions kv) (kv_contents (content st) kv) a r"
    and "kv_dim kv' = kv_dim kv \<and> max_positions kv' = max_positions kv \<and> kv_storage kv' = kv_storage kv \<and>
           seq_id kv' = seq_id kv \<and> layer kv' = layer kv"
    and "foreign good kv q \<Longrightarrow> content st' q = content st q"
proof -
  have "kv_inv (content st') kv' \<and>
      kv_contents (content st') kv' =
           spec_step (kv_dim kv) (max_positions kv) (kv_contents (content st) kv) a r \<and>
      (kv_dim kv' = kv_dim kv \<and> max_positions kv' = max_positions kv \<and> kv_storage kv' = kv_storage kv \<and>
           seq_id kv' = seq_id kv \<and> layer kv' = layer kv) \<and>
      (foreign good kv q \<longrightarrow> content st' q = content st q)"
  proof (cases a)
    case (Append k v)
    then have app: "kv_append st kv k v = (st', kv', r)" using step by simp
    show ?thesis
    proof (cases "length k = kv_dim kv \<and> length v = kv_dim kv \<and> kv_len kv < max_positions kv")
      case True
      then have t: "length k = kv_dim kv" "length v = kv_dim kv" "kv_len kv < max_positions kv" by auto
      note keep = kv_append_keeps [OF app inv sto t]
      show ?thesis
        using keep(1,2,4) t Append kv_frame_simps [OF keep(3)] by (simp add: push_row_simps)
    next
      case False
      then show ?thesis using app Append inv by (auto simp: kv_append_def split: if_splits)
    qed
  next
    case (Ensure x y)
    then have ens: "ensure_resident st kv x y = (st', kv', r)" using step by simp
    note keep = ensure_resident_keeps [OF ens inv sto]
    show ?thesis using keep(1,3,4) Ensure kv_frame_simps [OF keep(2)] by simp
  next
    case (Truncate n)
    then have tr: "kv_truncate st kv n = (st', kv', r)" using step by simp
    show ?thesis
    proof (cases r)
      case (Inl e)
      then show ?thesis using kv_truncate_refused [OF tr [unfolded Inl]] inv Truncate by simp
    next
      case (Inr u)
      note keep = kv_truncate_keeps [OF tr [unfolded Inr] inv sto]
      show ?thesis using keep(1,2,4) kv_truncate_fields [OF tr] Inr Truncate by simp
    qed
  qed
  then show "kv_inv (content st') kv'"
    and "kv_contents (content st') kv' =
           spec_step (kv_dim kv) (max_positions kv) (kv_contents (content st) kv) a r"
    and "kv_dim kv' = kv_dim kv \<and> max_positions kv' = max_positions kv \<and> kv_storage kv' = kv_storage kv \<and>
           seq_id kv' = seq_id kv \<and> layer kv' = layer kv"
    and "foreign good kv q \<Longrightarrow> content st' q = content st q"
    by blast+
qed

lemma kv_run_keeps:
  fixes kv :: "'s kv_state"
  assumes "kv_run st kv as = (st', kv', rs)"
    and "kv_inv (content st) kv" and "kv_storage kv \<in> {None, Some ops}"
  shows "kv_inv (content st') kv' \<and>
    kv_contents (content st') kv' =
      spec_run (kv_dim kv) (max_positions kv) (kv_contents (content st) kv) as rs \<and>
    (\<forall>q. foreign good kv q \<longrightarrow> content st' q = content st q)"
  using assms
proof (induction as arbitrary: st kv rs)
  case Nil
  then show ?case by auto
next
  case (Cons a as)
  obtain st1 kv1 r where one: "kv_step st kv a = (st1, kv1, r)" by (metis prod_cases3)
  obtain rs1 where two: "kv_run st1 kv1 as = (st', kv', rs1)" and rs: "rs = r # rs1"
    using Cons.prems(1) one by (auto split: prod.splits)
  note k = kv_step_keeps [OF one Cons.prems(2,3)]
  have sto1: "kv_storage kv1 \<in> {None, Some ops}" using Cons.prems(3) k(3) by simp
  have "foreign good kv1 q = foreign good kv q" for q
    using k(3) by (simp add: foreign_def spill_path_def)
  with Cons.IH [OF two k(1) sto1] k(2,3,4) rs show ?case by simp
qed

text \<open>Two caches that differ in sequence or layer never touch each other's files.\<close>

lemma kv_run_isolated:
  fixes kv other :: "'s kv_state"
  assumes run: "kv_run st kv as = (st', kv', rs)"
    and inv: "kv_inv (content st) kv" and sto: "kv_storage kv \<in> {None, Some ops}"
    and other: "kv_inv (content st) other" and apart: "(seq_id other, layer other) \<noteq> (seq_id kv, layer kv)"
  shows "kv_inv (content st') other \<and> kv_contents (content st') other = kv_contents (content st) other"
proof -
  have "foreign good kv (spill_path other b)" for b
    using apart by (auto simp: foreign_def spill_good spill_path_def spill_name_inject)
  then have "content st' (spill_path other b) = content st (spill_path other b)" for b
    using kv_run_keeps [OF run inv sto] by blast
  from kv_inv_files_cong [OF other this] show ?thesis by blast
qed

end

section \<open>Properties\<close>

text \<open>A cache of two-position blocks that may keep one in memory, for the witnesses.\<close>

definition tiny_dims :: model_dims where
  "tiny_dims = \<lparr>d_model = 1, n_heads = 1, head_dim = 1, d_ff = 1, n_experts = 1, dims_top_k = 1,
                vocab_size = 256, dims_block_size = 2, rope_theta = 0\<rparr>"

definition disk_root :: local_storage_backend where
  "disk_root = \<lparr>base_path = [''data'']\<rparr>"

definition tiny_kv :: "fs kv_config" where
  "tiny_kv = mha_config tiny_dims 8 1 None (Some (local_ops disk_root))"

definition faulty_disk :: fs where
  "faulty_disk = \<lparr>fs_files = Map.empty, fs_faults = [None, None, Some 3]\<rparr>"

definition tiny_ops :: "kv_op list" where
  "tiny_ops = [Append [1] [10], Append [2] [20], Append [3] [30], Append [4] [40], Append [5] [50],
               Ensure 0 4, Truncate 3]"

lemma tiny_kv_simps [simp]:
  "cfg_storage tiny_kv = Some (local_ops disk_root)" "dims_block_size (cfg_dims tiny_kv) = 2"
  "layer_width tiny_kv l = 1" "cfg_max_positions tiny_kv = 8"
  by (simp_all add: tiny_kv_def mha_config_def tiny_dims_def layer_width_def)

lemma for_layer_storage [simp]: "kv_storage (for_layer cfg sid l) = cfg_storage cfg"
  "kv_dim (for_layer cfg sid l) = layer_width cfg l"
  "max_positions (for_layer cfg sid l) = max (cfg_max_positions cfg) 1"
  "seq_id (for_layer cfg sid l) = sid" "layer (for_layer cfg sid l) = l"
  "block_size (for_layer cfg sid l) = max (dims_block_size (cfg_dims cfg)) 1"
  "max_resident_blocks (for_layer cfg sid l) = max (cfg_max_resident_blocks cfg) 1"
  by (simp_all add: for_layer_def)

lemma kv_contents_defined: "kv_inv files kv \<Longrightarrow> None \<notin> set (kv_contents files kv)"
proof
  assume inv: "kv_inv files kv" and "None \<in> set (kv_contents files kv)"
  then obtain p where "p < kv_len kv" "kv_row files kv p = None"
    by (auto simp: kv_contents_def)
  with kv_row_defined [OF inv] show False by blast
qed

text \<open>C1 A cache built from any configuration and driven by any sequence of appends, reloads and
  truncations over the local disk, whatever system calls fail on the way, holds exactly the
  positions an ordinary list would: an accepted append adds its row at the end (also when the
  spill after it failed), a truncation that succeeded cuts the list and a refused one leaves it
  alone, and moving blocks to disk and back changes nothing. Every position is always
  somewhere: none is lost.\<close>

theorem kv_run_refines:
  assumes "kv_run st (for_layer cfg sid l) as = (st', kv', rs)"
    and "cfg_storage cfg \<in> {None, Some (local_ops d)}"
    and "dims_block_size (cfg_dims cfg) < 2 ^ 64"
  shows "(kv_contents (local_content d st') kv' =
           spec_run (layer_width cfg l) (max (cfg_max_positions cfg) 1) [] as rs) \<and>
     (None \<notin> set (kv_contents (local_content d st') kv'))"
proof (rule conjI)
  have keep: "kv_inv (local_content d st') kv' \<and>
      kv_contents (local_content d st') kv' =
        spec_run (layer_width cfg l) (max (cfg_max_positions cfg) 1) [] as rs"
    using local_kv.kv_run_keeps [OF assms(1) kv_new_inv(1) [OF assms(3)]] assms(2)
      kv_new_inv(2) [OF assms(3)] by simp
  then show "kv_contents (local_content d st') kv' =
           spec_run (layer_width cfg l) (max (cfg_max_positions cfg) 1) [] as rs" by blast
  from keep show "None \<notin> set (kv_contents (local_content d st') kv')"
    using kv_contents_defined by metis
qed

lemma kv_run_refines_witness:
  "case kv_run faulty_disk (for_layer tiny_kv 7 0) tiny_ops of (st', kv', rs) \<Rightarrow>
     kv_contents (local_content disk_root st') kv' = spec_run 1 8 [] tiny_ops rs \<and>
     None \<notin> set (kv_contents (local_content disk_root st') kv')"
proof -
  obtain st' kv' rs where run: "kv_run faulty_disk (for_layer tiny_kv 7 0) tiny_ops = (st', kv', rs)"
    by (metis prod_cases3)
  from kv_run_refines [OF this, of disk_root] show ?thesis by (auto simp: run)
qed

text \<open>A cache of three positions: the first block on disk, the second in memory.\<close>

definition cold_block :: kv_block where
  "cold_block = \<lparr>bkeys = [1, 2], bvals = [10, 20], filled = 2\<rparr>"

definition cold_kv :: "fs kv_state" where
  "cold_kv = (for_layer tiny_kv 7 0)
     \<lparr>resident := [(1, \<lparr>bkeys = [3], bvals = [30], filled = 1\<rparr>)],
      spilled := [(0, spill_name 7 0 0)], kv_len := 3\<rparr>"

definition cold_disk :: fs where
  "cold_disk = \<lparr>fs_files = [[''data'', ''kv'', ''seq_7'', ''layer_0'', ''block_0.bin''] \<mapsto>
                  encode_block cold_block], fs_faults = []\<rparr>"

lemma cold_path: "resolve disk_root (spill_name 7 0 0) =
    Inr [''data'', ''kv'', ''seq_7'', ''layer_0'', ''block_0.bin'']"
proof -
  let ?ws = "[''kv'', ''seq_7'', ''layer_0'', ''block_0.bin'']"
  have "show_nat 7 = ''7''" and "show_nat 0 = ''0''" by code_simp+
  then have "spill_name 7 0 0 = join_slash ?ws" by (simp add: spill_name_def)
  moreover have "\<forall>w \<in> set ?ws. plain_name w" by (simp add: plain_name_def)
  ultimately show ?thesis using resolve_join [of ?ws disk_root] by (simp add: disk_root_def)
qed

lemma cold_simps [simp]:
  "kv_storage cold_kv = Some (local_ops disk_root)" "kv_dim cold_kv = 1" "max_positions cold_kv = 8"
  "seq_id cold_kv = 7" "layer cold_kv = 0" "block_size cold_kv = 2" "max_resident_blocks cold_kv = 1"
  "kv_len cold_kv = 3" "spilled cold_kv = [(0, spill_name 7 0 0)]"
  "resident cold_kv = [(1, \<lparr>bkeys = [3], bvals = [30], filled = 1\<rparr>)]"
  "spill_path cold_kv b = spill_name 7 0 b"
  by (simp_all add: cold_kv_def spill_path_def) (simp_all add: tiny_kv_def mha_config_def)

lemma cold_file: "local_content disk_root cold_disk (spill_name 7 0 0) = Some (encode_block cold_block)"
  by (simp add: local_content_def cold_path cold_disk_def)

lemma cold_inv: "kv_inv (local_content disk_root cold_disk) cold_kv"
proof -
  have "block_wf 1 2 cold_block" by (simp add: block_wf_def cold_block_def)
  then have "\<exists>blk. block_wf (Suc 0) 2 blk \<and>
      local_content disk_root cold_disk (spill_name 7 0 0) = Some (encode_block blk)"
    using cold_file by auto
  then show ?thesis
    by (auto simp: kv_inv_def bt_inv_def block_wf_def)
qed

lemma cold_contents:
  "kv_contents (local_content disk_root cold_disk) cold_kv =
     [Some ([1], [10]), Some ([2], [20]), Some ([3], [30])]"
proof -
  have "decode_block 1 2 (encode_block cold_block) = Inr cold_block"
    by (rule decode_encode_block [of _ 2]) (simp_all add: block_wf_def cold_block_def)
  then show ?thesis
    by (simp add: kv_contents_def kv_row_def block_at_def cold_file block_row_def upt_rec)
      (simp add: cold_block_def)
qed

lemma cold_ensure: "snd (snd (ensure_resident cold_disk cold_kv 0 3)) = Inr ()"
proof -
  have "decode_block 1 2 (encode_block cold_block) = Inr cold_block"
    by (rule decode_encode_block [of _ 2]) (simp_all add: block_wf_def cold_block_def)
  then show ?thesis
    by (simp add: ensure_resident_def upt_rec kv_reload_def local_ops_def local_read_def cold_path
        fs_call_def) (simp add: cold_disk_def)
qed

text \<open>C5 Reading: making a range resident never changes what the cache holds, whether or not the
  disk fails; when it succeeds, the key and the value read at any position of the range are the
  ones that were appended there.\<close>

theorem kv_read_back:
  assumes "ensure_resident st kv a b = (st', kv', r)"
    and "kv_inv (local_content d st) kv" and "kv_storage kv \<in> {None, Some (local_ops d)}"
  shows "(kv_contents (local_content d st') kv' = kv_contents (local_content d st) kv) \<and>
     (r = Inr () \<and> a \<le> p \<and> p < b \<and> p < kv_len kv \<and>
        kv_contents (local_content d st) kv ! p = Some (k, v) \<longrightarrow>
      key_at kv' p = Some k \<and> value_at kv' p = Some v)"
proof (rule conjI)
  note keep = local_kv.ensure_resident_keeps [OF assms]
  show same: "kv_contents (local_content d st') kv' = kv_contents (local_content d st) kv"
    by (rule keep(3))
  show "r = Inr () \<and> a \<le> p \<and> p < b \<and> p < kv_len kv \<and>
        kv_contents (local_content d st) kv ! p = Some (k, v) \<longrightarrow>
      key_at kv' p = Some k \<and> value_at kv' p = Some v"
  proof
  assume asm: "r = Inr () \<and> a \<le> p \<and> p < b \<and> p < kv_len kv \<and>
      kv_contents (local_content d st) kv ! p = Some (k, v)"
  then have r: "r = Inr ()" "a \<le> p" "p < b" "p < kv_len kv"
    and row: "kv_contents (local_content d st) kv ! p = Some (k, v)" by simp_all
  note fr = kv_frame_simps [OF keep(2)]
  obtain blk where blk: "map_of (resident kv') (p div block_size kv') = Some blk"
    using keep(5) [OF r] fr by auto
  have p: "p < kv_len kv'" using r(4) fr by simp
  note row' = kv_row_resident [OF keep(1) p blk]
  have "kv_row (local_content d st') kv' p = Some (k, v)"
    using row p unfolding same [symmetric] by (simp add: kv_contents_def)
  with row' show "key_at kv' p = Some k \<and> value_at kv' p = Some v"
    by (metis fst_conv snd_conv option.inject)
  qed
qed

lemma kv_read_back_witness:
  "case ensure_resident cold_disk cold_kv 0 3 of (st', kv', r) \<Rightarrow>
     kv_contents (local_content disk_root st') kv' =
       kv_contents (local_content disk_root cold_disk) cold_kv \<and>
     key_at kv' 1 = Some [2] \<and> value_at kv' 1 = Some [20]"
proof -
  obtain st' kv' r where ens: "ensure_resident cold_disk cold_kv 0 3 = (st', kv', r)"
    by (metis prod_cases3)
  then have "r = Inr ()" using cold_ensure by simp
  with kv_read_back [OF ens cold_inv, THEN conjunct1]
    kv_read_back [OF ens cold_inv, where p = 1 and k = "[2]" and v = "[20]", THEN conjunct2] show ?thesis
    by (simp add: ens cold_contents)
qed

text \<open>Appending: a key and a value of the layer's width are added as the last position whenever
  the window has room, even if the disk then refuses to take an older block; a success leaves no
  more blocks in memory than the budget allows. No file of another sequence or layer is touched.\<close>

theorem kv_append_refines:
  assumes "kv_append st kv k v = (st', kv', r)"
    and "kv_inv (local_content d st) kv" and "kv_storage kv \<in> {None, Some (local_ops d)}"
    and "length k = kv_dim kv" and "length v = kv_dim kv" and "kv_len kv < max_positions kv"
  shows "(kv_inv (local_content d st') kv') \<and>
     (kv_contents (local_content d st') kv' = kv_contents (local_content d st) kv @ [Some (k, v)]) \<and>
     ((s, l) \<noteq> (seq_id kv, layer kv) \<longrightarrow>
           local_content d st' (spill_name s l b) = local_content d st (spill_name s l b)) \<and>
     (r = Inr () \<and> kv_storage kv \<noteq> None \<and> 0 < kv_dim kv \<longrightarrow>
           length (resident kv') \<le> max_resident_blocks kv)"
proof (rule conj4I)
  note keep = local_kv.kv_append_keeps [OF assms]
  show "kv_inv (local_content d st') kv'"
    and "kv_contents (local_content d st') kv' = kv_contents (local_content d st) kv @ [Some (k, v)]"
    and "r = Inr () \<and> kv_storage kv \<noteq> None \<and> 0 < kv_dim kv \<longrightarrow>
           length (resident kv') \<le> max_resident_blocks kv"
    using keep by auto
  show "(s, l) \<noteq> (seq_id kv, layer kv) \<longrightarrow>
           local_content d st' (spill_name s l b) = local_content d st (spill_name s l b)"
    using keep(4) [of "spill_name s l b"] spill_name_good
    by (auto simp: foreign_def spill_path_def spill_name_inject)
qed

lemma kv_append_refines_witness:
  "case kv_append cold_disk cold_kv [4] [40] of (st', kv', r) \<Rightarrow>
     kv_inv (local_content disk_root st') kv' \<and>
     kv_contents (local_content disk_root st') kv' =
       [Some ([1], [10]), Some ([2], [20]), Some ([3], [30]), Some ([4], [40])] \<and>
     local_content disk_root st' (spill_name 8 0 0) = local_content disk_root cold_disk (spill_name 8 0 0) \<and>
     length (resident kv') \<le> 1"
proof -
  obtain st' kv' r where app: "kv_append cold_disk cold_kv [4] [40] = (st', kv', r)"
    by (metis prod_cases3)
  then have "r = Inr ()"
    by (simp add: kv_append_def enforce_residency_def spill_loop.simps push_row_def split: prod.splits)
  with kv_append_refines [OF app cold_inv]
    kv_append_refines [OF app cold_inv, where s = 8 and l = 0 and b = 0, THEN conjunct2, THEN conjunct2, THEN conjunct1] show ?thesis by (simp add: app cold_contents)
qed

text \<open>Truncation, which is how rejected guesses of a speculative round are undone: a success
  leaves exactly the first positions, as if the others had never been appended, and a refusal
  (the cut would land inside a block on disk) changes neither the cache nor the disk.\<close>

theorem kv_truncate_refines:
  assumes "kv_truncate st kv n = (st', kv', r)"
    and "kv_inv (local_content d st) kv" and "kv_storage kv \<in> {None, Some (local_ops d)}"
  shows "(kv_inv (local_content d st') kv') \<and>
     (case r of
           Inl e \<Rightarrow> st' = st \<and> kv' = kv \<and> map_of (spilled kv) (n div block_size kv) \<noteq> None
         | Inr _ \<Rightarrow> kv_contents (local_content d st') kv' = take n (kv_contents (local_content d st) kv))"
proof (rule conjI)
  have "kv_inv (local_content d st') kv' \<and> (case r of
           Inl e \<Rightarrow> st' = st \<and> kv' = kv \<and> map_of (spilled kv) (n div block_size kv) \<noteq> None
         | Inr _ \<Rightarrow> kv_contents (local_content d st') kv' = take n (kv_contents (local_content d st) kv))"
  proof (cases r)
    case (Inl e)
    with kv_truncate_refused [OF assms(1) [unfolded Inl]] assms(2) show ?thesis by simp
  next
    case (Inr u)
    with local_kv.kv_truncate_keeps [OF assms(1) [unfolded Inr] assms(2,3)] show ?thesis by simp
  qed
  then show "kv_inv (local_content d st') kv'"
    and "case r of
           Inl e \<Rightarrow> st' = st \<and> kv' = kv \<and> map_of (spilled kv) (n div block_size kv) \<noteq> None
         | Inr _ \<Rightarrow> kv_contents (local_content d st') kv' = take n (kv_contents (local_content d st) kv)"
    by blast+
qed

lemma kv_truncate_refines_witness:
  "kv_contents (local_content disk_root (fst (kv_truncate cold_disk cold_kv 2)))
       (fst (snd (kv_truncate cold_disk cold_kv 2))) = [Some ([1], [10]), Some ([2], [20])] \<and>
   kv_truncate cold_disk cold_kv 1 =
     (cold_disk, cold_kv, Inl (Cache ''cannot truncate to {len}: block {cut_block} is spilled to disk''))"
proof
  obtain st' kv' r where tr: "kv_truncate cold_disk cold_kv 2 = (st', kv', r)"
    by (metis prod_cases3)
  then have "r = Inr ()" by (simp add: kv_truncate_def)
  with kv_truncate_refines [OF tr cold_inv, THEN conjunct2] show
    "kv_contents (local_content disk_root (fst (kv_truncate cold_disk cold_kv 2)))
       (fst (snd (kv_truncate cold_disk cold_kv 2))) = [Some ([1], [10]), Some ([2], [20])]"
    by (simp add: tr cold_contents)
  show "kv_truncate cold_disk cold_kv 1 =
     (cold_disk, cold_kv, Inl (Cache ''cannot truncate to {len}: block {cut_block} is spilled to disk''))"
    by (simp add: kv_truncate_def)
qed



lemma decode_block_InrD:
  assumes "decode_block d bs bytes = Inr blk"
  shows "bytes = encode_block blk \<and> block_wf d (filled blk) blk \<and> filled blk \<le> bs"
proof -
  define n where "n = unat (le_word (take 8 bytes) :: u64)"
  define vals where "vals = f32s_of_bytes (drop 8 bytes)"
  have len: "length bytes = 8 + n * d * 2 * 4" and le: "n \<le> bs"
    and blk: "blk = \<lparr>bkeys = take (n * d) vals, bvals = drop (n * d) vals, filled = n\<rparr>"
    using assms by (auto simp: decode_block_def Let_def n_def vals_def split: if_splits)
  have l4: "length (drop 8 bytes) = 4 * (2 * (n * d))" using len by simp
  have vals: "length vals = 2 * (n * d)" unfolding vals_def by (rule length_f32s_of_bytes [OF l4])
  have "le_bytes 8 (of_nat n :: u64) = take 8 bytes"
  proof -
    have t: "length (take 8 bytes) = 8" using len by simp
    have "le_bytes 8 (le_word (take 8 bytes) :: u64) = take 8 bytes"
      using le_bytes_le_word [of "take 8 bytes", where 'a = 64] unfolding t by simp
    then show ?thesis by (simp only: n_def of_nat_unat ucast_id)
  qed
  moreover have "f32s_to_bytes vals = drop 8 bytes"
    unfolding vals_def by (rule f32s_to_of_bytes [OF l4])
  ultimately have "bytes = encode_block blk"
    by (simp add: encode_block_def blk)
  then show ?thesis using le vals by (simp add: blk block_wf_def)
qed

text \<open>The spill file format: a file is accepted exactly when it is the encoding of a block that
  fits the layer (its row count within the block size, keys and values of that many rows), and
  then decoding gives that very block back; anything else is an error, never a wrong block.\<close>

theorem spill_file_exact:
  assumes "bs < 2 ^ 64"
  shows "decode_block d bs bytes = Inr blk \<longleftrightarrow>
    bytes = encode_block blk \<and> block_wf d (filled blk) blk \<and> filled blk \<le> bs"
proof
  assume "decode_block d bs bytes = Inr blk"
  then show "bytes = encode_block blk \<and> block_wf d (filled blk) blk \<and> filled blk \<le> bs"
    by (rule decode_block_InrD)
next
  assume "bytes = encode_block blk \<and> block_wf d (filled blk) blk \<and> filled blk \<le> bs"
  then show "decode_block d bs bytes = Inr blk"
    using decode_encode_block [of d "filled blk" blk bs] assms by simp
qed

lemma spill_file_exact_witness: "decode_block 1 2 (encode_block cold_block) = Inr cold_block"
  using spill_file_exact [of 2 1 "encode_block cold_block" cold_block]
  by (simp add: block_wf_def cold_block_def)

end
