(* ===== verification/SeqState.thy ===== *)
theory SeqState
  imports KvCache
begin

text \<open>
  \<open>garuda/src/cache/mod.rs\<close>, what one sequence in flight carries: an attention cache
  per layer (\<open>KvCache\<close>) and, for the layers that fold their history into a fixed-size
  summary, a recurrent state with the copies that let a speculative round be undone.
\<close>

section \<open>Recurrent state\<close>

record linear_state =
  conv :: "f32 list"
  lstate :: "f32 list"
  folded :: nat
  history :: "(nat \<times> f32 list \<times> f32 list) list"

definition linear_zeros :: "nat \<Rightarrow> nat \<Rightarrow> linear_state" where
  "linear_zeros conv_len state_len =
     \<lparr>conv = replicate conv_len 0, lstate = replicate state_len 0, folded = 0, history = []\<rparr>"

definition linear_bytes :: "linear_state \<Rightarrow> nat" where
  "linear_bytes s =
     (length (conv s) + length (lstate s) +
      sum_list (map (\<lambda>(_, c, x). length c + length x) (history s))) * 4"

definition snapshot :: "linear_state \<Rightarrow> linear_state" where
  "snapshot s = s\<lparr>history := history s @ [(folded s, conv s, lstate s)]\<rparr>"

definition advance :: "linear_state \<Rightarrow> linear_state" where
  "advance s = s\<lparr>folded := Suc (folded s)\<rparr>"

definition rewind_to :: "linear_state \<Rightarrow> nat \<Rightarrow> linear_state \<times> bool" where
  "rewind_to s len =
     (if len = folded s then (s\<lparr>history := []\<rparr>, True)
      else case find (\<lambda>(n, _, _). n = len) (history s) of
        None \<Rightarrow> (s, False)
      | Some (n, c, x) \<Rightarrow> (s\<lparr>conv := c, lstate := x, folded := n, history := []\<rparr>, True))"

text \<open>
  One token through a recurrent layer, as the backend does it (\<open>qwen35/mod.rs\<close>): a copy
  while a round is recorded, then the layer's own update of the two buffers, which is the
  parameter \<open>g\<close>, then the count.
\<close>

definition fold_token ::
    "bool \<Rightarrow> (f32 list \<Rightarrow> f32 list \<Rightarrow> f32 list \<times> f32 list) \<Rightarrow> linear_state \<Rightarrow> linear_state" where
  "fold_token recording g s =
     (let s1 = (if recording then snapshot s else s);
          (c, x) = g (conv s1) (lstate s1)
      in advance (s1\<lparr>conv := c, lstate := x\<rparr>))"

fun fold_tokens ::
    "bool \<Rightarrow> (f32 list \<Rightarrow> f32 list \<Rightarrow> f32 list \<times> f32 list) list \<Rightarrow> linear_state \<Rightarrow> linear_state" where
  "fold_tokens recording [] s = s"
| "fold_tokens recording (g # gs) s = fold_tokens recording gs (fold_token recording g s)"


section \<open>The sequence\<close>

record 's seq_state =
  kvs :: "'s kv_state list"
  linears :: "linear_state option list"
  recording :: bool

definition seq_new :: "'s kv_config \<Rightarrow> nat \<Rightarrow> 's seq_state" where
  "seq_new cfg sid =
     (let n = max (n_layers cfg) 1
      in \<lparr>kvs = map (for_layer cfg sid) [0..<n], linears = replicate n None, recording = False\<rparr>)"

text \<open>
  The recurrent state of a layer, allocated on first use; the caller writes it back with
  \<open>set_linear\<close> (the code hands out a mutable reference).
\<close>

definition seq_linear :: "'s seq_state \<Rightarrow> nat \<Rightarrow> nat \<Rightarrow> nat \<Rightarrow> ('s seq_state \<times> linear_state) res" where
  "seq_linear s l conv_len state_len =
     (if l \<ge> length (linears s)
      then Inl (Cache ''layer {l} is out of range for a {}-layer sequence'')
      else case linears s ! l of
        Some x \<Rightarrow>
          (if length (conv x) \<noteq> conv_len \<or> length (lstate x) \<noteq> state_len
           then Inl (Cache ''layer {l} holds a {}/{} recurrent state but {conv_len}/{state_len} was asked for'')
           else Inr (s, x))
      | None \<Rightarrow>
          (let x = linear_zeros conv_len state_len in Inr (s\<lparr>linears := (linears s)[l := Some x]\<rparr>, x)))"

definition set_linear :: "'s seq_state \<Rightarrow> nat \<Rightarrow> linear_state \<Rightarrow> 's seq_state" where
  "set_linear s l x = s\<lparr>linears := (linears s)[l := Some x]\<rparr>"

definition has_linear_state :: "'s seq_state \<Rightarrow> bool" where
  "has_linear_state s \<longleftrightarrow> list_ex (\<lambda>x. x \<noteq> None) (linears s)"

definition begin_recording :: "'s seq_state \<Rightarrow> 's seq_state" where
  "begin_recording s =
     s\<lparr>linears := map (map_option (\<lambda>x. x\<lparr>history := []\<rparr>)) (linears s), recording := True\<rparr>"

definition end_recording :: "'s seq_state \<Rightarrow> 's seq_state" where
  "end_recording s = s\<lparr>recording := False\<rparr>"

definition seq_len :: "'s seq_state \<Rightarrow> nat" where
  "seq_len s = kv_len (hd (kvs s))"

definition seq_max_positions :: "'s seq_state \<Rightarrow> nat" where
  "seq_max_positions s = max_positions (hd (kvs s))"

definition seq_has_spill :: "'s seq_state \<Rightarrow> bool" where
  "seq_has_spill s \<longleftrightarrow> list_ex kv_has_spill (kvs s)"

definition seq_resident_bytes :: "'s seq_state \<Rightarrow> nat" where
  "seq_resident_bytes s =
     sum_list (map kv_resident_bytes (kvs s)) +
     sum_list (map linear_bytes (concat (map (case_option [] (\<lambda>x. [x])) (linears s))))"

text \<open>Layer by layer; the first refusal stops, with the layers before it already renamed.\<close>

fun rekey_kvs :: "'s kv_state list \<Rightarrow> nat \<Rightarrow> 's kv_state list \<times> unit res" where
  "rekey_kvs [] sid = ([], Inr ())"
| "rekey_kvs (kv # ks) sid =
     (case kv_rekey kv sid of
        (kv', Inl e) \<Rightarrow> (kv' # ks, Inl e)
      | (kv', Inr _) \<Rightarrow> (case rekey_kvs ks sid of (ks', r) \<Rightarrow> (kv' # ks', r)))"

definition seq_rekey :: "'s seq_state \<Rightarrow> nat \<Rightarrow> 's seq_state \<times> unit res" where
  "seq_rekey s sid = (case rekey_kvs (kvs s) sid of (ks, r) \<Rightarrow> (s\<lparr>kvs := ks\<rparr>, r))"

fun purge_kvs :: "'s \<Rightarrow> 's kv_state list \<Rightarrow> 's \<times> 's kv_state list" where
  "purge_kvs st [] = (st, [])"
| "purge_kvs st (kv # ks) =
     (case kv_purge st kv of (st1, kv') \<Rightarrow>
        (case purge_kvs st1 ks of (st2, ks') \<Rightarrow> (st2, kv' # ks')))"

definition seq_purge :: "'s \<Rightarrow> 's seq_state \<Rightarrow> 's \<times> 's seq_state" where
  "seq_purge st s = (case purge_kvs st (kvs s) of (st', ks) \<Rightarrow> (st', s\<lparr>kvs := ks\<rparr>))"

text \<open>Dropping a sequence deletes its spill files.\<close>

definition seq_drop :: "'s \<Rightarrow> 's seq_state \<Rightarrow> 's" where
  "seq_drop st s = fst (seq_purge st s)"

definition recoverable :: "linear_state option list \<Rightarrow> nat \<Rightarrow> bool" where
  "recoverable ls len \<longleftrightarrow>
     list_all (\<lambda>x. case x of None \<Rightarrow> True
       | Some s \<Rightarrow> folded s = len \<or> list_ex (\<lambda>(n, _, _). n = len) (history s)) ls"

fun truncate_kvs :: "'s \<Rightarrow> 's kv_state list \<Rightarrow> nat \<Rightarrow> 's \<times> 's kv_state list \<times> unit res" where
  "truncate_kvs st [] len = (st, [], Inr ())"
| "truncate_kvs st (kv # ks) len =
     (case kv_truncate st kv len of
        (st1, kv', Inl e) \<Rightarrow> (st1, kv' # ks, Inl e)
      | (st1, kv', Inr _) \<Rightarrow>
          (case truncate_kvs st1 ks len of (st2, ks', r) \<Rightarrow> (st2, kv' # ks', r)))"

definition seq_truncate :: "'s \<Rightarrow> 's seq_state \<Rightarrow> nat \<Rightarrow> 's \<times> 's seq_state \<times> unit res" where
  "seq_truncate st s len =
     (if len < seq_len s \<and> has_linear_state s \<and> \<not> recoverable (linears s) len
      then (st, s, Inl (Cache ''cannot truncate to {len}: this sequence carries recurrent state, which summarises every token it has read, and no copy of it from that position is held''))
      else case truncate_kvs st (kvs s) len of (st', ks, r) \<Rightarrow>
        (st', s\<lparr>linears := map (map_option (\<lambda>x. fst (rewind_to x len))) (linears s), kvs := ks\<rparr>, r))"


section \<open>Rewinding a recurrent state\<close>

lemma fold_token_fields [simp]:
  "folded (fold_token rc g s) = Suc (folded s)"
  "history (fold_token rc g s) =
     (if rc then history s @ [(folded s, conv s, lstate s)] else history s)"
  "conv (fold_token rc g s) = fst (g (conv s) (lstate s))"
  "lstate (fold_token rc g s) = snd (g (conv s) (lstate s))"
  by (simp_all add: fold_token_def snapshot_def advance_def Let_def split: prod.split)

lemma fold_tokens_folded [simp]: "folded (fold_tokens rc gs s) = folded s + length gs"
  by (induction gs arbitrary: s) simp_all

lemma fold_tokens_append: "fold_tokens rc (gs @ hs) s = fold_tokens rc hs (fold_tokens rc gs s)"
  by (induction gs arbitrary: s) simp_all

text \<open>Recording changes the history only.\<close>

lemma fold_tokens_recording:
  "conv s = conv t \<Longrightarrow> lstate s = lstate t \<Longrightarrow>
     conv (fold_tokens rc gs s) = conv (fold_tokens rc' gs t) \<and>
     lstate (fold_tokens rc gs s) = lstate (fold_tokens rc' gs t)"
  by (induction gs arbitrary: s t) simp_all

lemma fold_tokens_history_off [simp]: "history (fold_tokens False gs s) = history s"
  by (induction gs arbitrary: s) simp_all

lemma fold_tokens_history_on:
  "history (fold_tokens True gs s) = history s @
     map (\<lambda>i. let t = fold_tokens True (take i gs) s in (folded t, conv t, lstate t)) [0..<length gs]"
proof (induction gs rule: rev_induct)
  case (snoc g gs)
  then show ?case by (simp add: fold_tokens_append Let_def)
qed simp

lemma linear_state_eqI:
  "conv s = conv t \<Longrightarrow> lstate s = lstate t \<Longrightarrow> folded s = folded t \<Longrightarrow> history s = history t \<Longrightarrow>
     s = (t :: linear_state)"
  by simp

lemma find_map_upt_unique:
  assumes "j < n" and "\<forall>i<n. P (f i) \<longleftrightarrow> i = j"
  shows "find P (map f [0..<n]) = Some (f j)"
  using assms by (auto simp: find_Some_iff)

lemma rewind_fold:
  assumes hist: "history s = []" and j: "j \<le> length gs"
  shows "rewind_to (fold_tokens True gs s) (folded s + j) = (fold_tokens False (take j gs) s, True)"
proof (cases "j = length gs")
  case True
  have "(fold_tokens True gs s)\<lparr>history := []\<rparr> = fold_tokens False gs s"
    using fold_tokens_recording [of s s True gs False] hist by (intro linear_state_eqI) simp_all
  then show ?thesis using True by (simp add: rewind_to_def)
next
  case False
  let ?f = "\<lambda>i. let t = fold_tokens True (take i gs) s in (folded t, conv t, lstate t)"
  have "find (\<lambda>(n, _, _). n = folded s + j) (map ?f [0..<length gs]) = Some (?f j)"
    using False j by (intro find_map_upt_unique) (auto simp: Let_def)
  then have "find (\<lambda>(n, _, _). n = folded s + j) (history (fold_tokens True gs s)) = Some (?f j)"
    by (simp add: fold_tokens_history_on hist)
  moreover have "(fold_tokens True gs s)\<lparr>conv := conv (fold_tokens True (take j gs) s),
      lstate := lstate (fold_tokens True (take j gs) s),
      folded := folded (fold_tokens True (take j gs) s), history := []\<rparr> =
    fold_tokens False (take j gs) s"
    using fold_tokens_recording [of s s True "take j gs" False] hist
    by (intro linear_state_eqI) simp_all
  ultimately show ?thesis using False by (simp add: rewind_to_def Let_def)
qed

section \<open>Every layer together\<close>

definition kv_key :: "'s kv_state \<Rightarrow> nat \<times> nat" where
  "kv_key kv = (seq_id kv, layer kv)"

definition seq_inv :: "(path \<rightharpoonup> u8 list) \<Rightarrow> 's storage_ops \<Rightarrow> 's seq_state \<Rightarrow> bool" where
  "seq_inv files ops s \<longleftrightarrow>
     kvs s \<noteq> [] \<and> distinct (map kv_key (kvs s)) \<and>
     (\<forall>kv \<in> set (kvs s). kv_inv files kv \<and> kv_storage kv \<in> {None, Some ops})"

text \<open>What every layer's cache holds, and the two buffers of every recurrent layer.\<close>

definition seq_contents :: "(path \<rightharpoonup> u8 list) \<Rightarrow> 's seq_state \<Rightarrow> (f32 list \<times> f32 list) option list list" where
  "seq_contents files s = map (kv_contents files) (kvs s)"

context kv_backend
begin

lemma foreign_other_key: "kv_key other \<noteq> kv_key kv \<Longrightarrow> foreign good kv (spill_path other b)"
  by (auto simp: foreign_def spill_good spill_path_def spill_name_inject kv_key_def)

lemma kv_truncate_any:
  fixes kv :: "'s kv_state"
  assumes "kv_truncate st kv n = (st', kv', r)"
    and "kv_inv (content st) kv" and "kv_storage kv \<in> {None, Some ops}"
  shows "kv_inv (content st') kv' \<and> kv_key kv' = kv_key kv \<and> kv_storage kv' = kv_storage kv \<and>
    (r = Inr () \<longrightarrow> kv_contents (content st') kv' = take n (kv_contents (content st) kv)) \<and>
    (r \<noteq> Inr () \<longrightarrow> kv_contents (content st') kv' = kv_contents (content st) kv) \<and>
    (\<forall>q. foreign good kv q \<longrightarrow> content st' q = content st q)"
proof (cases r)
  case (Inl e)
  with kv_truncate_refused [OF assms(1) [unfolded Inl]] assms(2) show ?thesis by simp
next
  case (Inr u)
  from kv_truncate_keeps [OF assms(1) [unfolded Inr] assms(2,3)] kv_truncate_fields [OF assms(1)] Inr
  show ?thesis by (simp add: kv_key_def)
qed

lemma kv_untouched:
  fixes ks :: "'s kv_state list"
  assumes "\<forall>k \<in> set ks. kv_inv files k" and "\<forall>k \<in> set ks. \<forall>b. files' (spill_path k b) = files (spill_path k b)"
  shows "\<forall>k \<in> set ks. kv_inv files' k" and "map (kv_contents files') ks = map (kv_contents files) ks"
  using assms kv_inv_files_cong by (auto, blast+)

lemma truncate_kvs_keeps:
  fixes ks :: "'s kv_state list"
  assumes "truncate_kvs st ks n = (st', ks', r)"
    and "distinct (map kv_key ks)"
    and "\<forall>kv \<in> set ks. kv_inv (content st) kv" and "\<forall>kv \<in> set ks. kv_storage kv \<in> {None, Some ops}"
  shows "map kv_key ks' = map kv_key ks \<and> map kv_storage ks' = map kv_storage ks \<and>
    (\<forall>kv \<in> set ks'. kv_inv (content st') kv) \<and>
    (r = Inr () \<longrightarrow> map (kv_contents (content st')) ks' = map (take n \<circ> kv_contents (content st)) ks) \<and>
    (\<forall>q. (\<forall>kv \<in> set ks. foreign good kv q) \<longrightarrow> content st' q = content st q)"
  using assms
proof (induction ks arbitrary: st st' ks' r)
  case Nil
  then show ?case by auto
next
  case (Cons kv ks)
  obtain st1 kv1 r1 where one: "kv_truncate st kv n = (st1, kv1, r1)" by (metis prod_cases3)
  note k1 = kv_truncate_any [OF one, OF bspec [OF Cons.prems(3)] bspec [OF Cons.prems(4)], simplified]
  have apart: "\<forall>k \<in> set ks. \<forall>b. content st1 (spill_path k b) = content st (spill_path k b)"
  proof (intro ballI allI)
    fix k b assume "k \<in> set ks"
    then have "kv_key k \<noteq> kv_key kv" using Cons.prems(2) by (auto simp: image_iff)
    from foreign_other_key [OF this] k1 show "content st1 (spill_path k b) = content st (spill_path k b)"
      by blast
  qed
  have inv: "\<forall>k \<in> set ks. kv_inv (content st) k" using Cons.prems(3) by simp
  note rest = kv_untouched [OF inv apart]
  show ?case
  proof (cases r1)
    case (Inl e)
    then show ?thesis using Cons.prems(1) one k1 rest by auto
  next
    case (Inr u)
    obtain st2 ks2 r2 where two: "truncate_kvs st1 ks n = (st2, ks2, r2)" by (metis prod_cases3)
    have res: "st' = st2" "ks' = kv1 # ks2" "r = r2" using Cons.prems(1) one Inr two by simp_all
    have k2: "map kv_key ks2 = map kv_key ks \<and> map kv_storage ks2 = map kv_storage ks \<and>
      (\<forall>kv \<in> set ks2. kv_inv (content st2) kv) \<and>
      (r2 = Inr () \<longrightarrow> map (kv_contents (content st2)) ks2 = map (take n \<circ> kv_contents (content st1)) ks) \<and>
      (\<forall>q. (\<forall>kv \<in> set ks. foreign good kv q) \<longrightarrow> content st2 q = content st1 q)"
      using Cons.IH [OF two _ rest(1)] Cons.prems(2,4) by simp
    have own: "content st2 (spill_path kv1 b) = content st1 (spill_path kv1 b)" for b
    proof -
      have "kv_key kv \<notin> kv_key ` set ks" "kv_key kv1 = kv_key kv" using Cons.prems(2) k1 by simp_all
      then have "\<forall>k \<in> set ks. foreign good k (spill_path kv1 b)"
        by (intro ballI foreign_other_key) (auto simp: image_iff)
      with k2 show ?thesis by blast
    qed
    have "kv_inv (content st1) kv1" using k1 by blast
    note one' = kv_inv_files_cong [OF this own]
    have "map (take n \<circ> kv_contents (content st1)) ks = map (take n \<circ> kv_contents (content st)) ks"
      using rest(2) by simp
    then show ?thesis using k1 k2 one' Inr unfolding res by simp
  qed
qed

end

lemma seq_new_inv:
  assumes "dims_block_size (cfg_dims cfg) < 2 ^ 64" and "cfg_storage cfg \<in> {None, Some ops}"
  shows "seq_inv files ops (seq_new cfg sid)"
  using assms kv_new_inv(1) [OF assms(1)]
  by (auto simp: seq_inv_def seq_new_def Let_def kv_key_def distinct_map inj_on_def)

lemma rekey_kvs_no_spill:
  "\<not> list_ex kv_has_spill ks \<Longrightarrow> rekey_kvs ks sid = (map (\<lambda>kv. kv\<lparr>seq_id := sid\<rparr>) ks, Inr ())"
  by (induction ks) (auto simp: kv_rekey_def)

lemma seq_rekey_no_spill:
  "\<not> seq_has_spill s \<Longrightarrow>
     seq_rekey s sid = (s\<lparr>kvs := map (\<lambda>kv. kv\<lparr>seq_id := sid\<rparr>) (kvs s)\<rparr>, Inr ())"
  by (simp add: seq_rekey_def seq_has_spill_def rekey_kvs_no_spill)

lemma rewind_recoverable:
  "folded x = n \<or> list_ex (\<lambda>(m, _, _). m = n) (history x) \<Longrightarrow>
     folded (fst (rewind_to x n)) = n \<and> history (fst (rewind_to x n)) = [] \<and> snd (rewind_to x n)"
proof -
  assume rec: "folded x = n \<or> list_ex (\<lambda>(m, _, _). m = n) (history x)"
  show ?thesis
  proof (cases "find (\<lambda>(m, _, _). m = n) (history x)")
    case None
    with rec have "folded x = n" by (auto simp: find_None_iff list_ex_iff)
    then show ?thesis by (simp add: rewind_to_def)
  next
    case (Some e)
    then have "fst e = n" by (auto simp: find_Some_iff)
    with Some show ?thesis by (cases e) (simp add: rewind_to_def)
  qed
qed


section \<open>Properties\<close>

text \<open>C7 Undoing guesses on a recurrent layer: after a recorded round of any length, rewinding to any
  position of the round gives exactly the state that folding only the tokens up to there, with no
  recording at all, would have given, and drops every copy.\<close>

theorem linear_rewind_exact:
  assumes "j \<le> length gs"
  shows "rewind_to (fold_tokens True gs (s\<lparr>history := []\<rparr>)) (folded s + j) =
    (fold_tokens False (take j gs) (s\<lparr>history := []\<rparr>), True)"
  using rewind_fold [of "s\<lparr>history := []\<rparr>" j gs] assms by simp

lemma linear_rewind_exact_witness:
  "let g = (\<lambda>w c x. (tl c @ [w], map ((+) w) x)); s = linear_zeros 2 2
   in rewind_to (fold_tokens True [g 1, g 2, g 3] (s\<lparr>history := []\<rparr>)) (folded s + 2) =
     (\<lparr>conv = [1, 2], lstate = [3, 3], folded = 2, history = []\<rparr>, True)"
  unfolding Let_def
  by (subst linear_rewind_exact)
    (simp_all add: linear_zeros_def fold_token_def advance_def eval_nat_numeral)


text \<open>A two-layer sequence: \<open>cold_kv\<close> and a recurrent layer with a copy from position 2.\<close>

definition round_state :: linear_state where
  "round_state = \<lparr>conv = [6], lstate = [7], folded = 3, history = [(2, [4], [5])]\<rparr>"

definition cold_seq :: "fs seq_state" where
  "cold_seq = \<lparr>kvs = [cold_kv], linears = [Some round_state], recording = False\<rparr>"

lemma cold_seq_inv: "seq_inv (local_content disk_root cold_disk) (local_ops disk_root) cold_seq"
  by (simp add: seq_inv_def cold_seq_def cold_inv)


definition position_kv :: "fs kv_state" where
  "position_kv = cold_kv\<lparr>kv_dim := 0, resident := [(0, \<lparr>bkeys = [], bvals = [], filled = 2\<rparr>),
     (1, \<lparr>bkeys = [], bvals = [], filled = 1\<rparr>)], spilled := []\<rparr>"

definition hybrid_seq :: "fs seq_state" where
  "hybrid_seq = \<lparr>kvs = [position_kv, cold_kv\<lparr>layer := 1, spilled := [(0, spill_name 7 1 0)]\<rparr>],
     linears = [None, None], recording = False\<rparr>"

text \<open>The refusal a layer's own cache may answer is not all-or-nothing: on a sequence that satisfies
  the invariant, truncating to a position inside a block on disk fails with the first layer
  already cut and the second not, so the layers no longer agree on the length.\<close>

theorem seq_truncate_half_rewound:
  "(seq_inv [spill_name 7 1 0 \<mapsto> encode_block cold_block] (local_ops disk_root) hybrid_seq) \<and>
     (\<exists>m s'. seq_truncate st hybrid_seq 1 = (st, s', Inl (Cache m)) \<and>
     map kv_len (kvs hybrid_seq) = [3, 3] \<and> map kv_len (kvs s') = [1, 3])"
proof (rule conjI)
  have wf: "block_wf 1 2 cold_block" by (simp add: block_wf_def cold_block_def)
  have "kv_inv files position_kv" for files
    by (auto simp: kv_inv_def bt_inv_def block_wf_def position_kv_def spill_path_def split: if_splits)
  moreover have "kv_inv [spill_name 7 1 0 \<mapsto> encode_block cold_block]
      (cold_kv\<lparr>layer := 1, spilled := [(0, spill_name 7 1 0)]\<rparr>)"
    using wf by (auto simp: kv_inv_def bt_inv_def block_wf_def spill_path_def)
  ultimately show "seq_inv [spill_name 7 1 0 \<mapsto> encode_block cold_block] (local_ops disk_root) hybrid_seq"
    by (simp add: seq_inv_def hybrid_seq_def kv_key_def position_kv_def)
  show "\<exists>m s'. seq_truncate st hybrid_seq 1 = (st, s', Inl (Cache m)) \<and>
     map kv_len (kvs hybrid_seq) = [3, 3] \<and> map kv_len (kvs s') = [1, 3]"
    by (simp add: seq_truncate_def hybrid_seq_def position_kv_def has_linear_state_def seq_len_def
        kv_truncate_def bt_retain_def)
qed

end
