(* ===== verification/Lru.thy ===== *)
theory Lru
  imports Core
begin

text \<open>
  What the two byte-budgeted caches of \<open>garuda/src/cache/mod.rs\<close> share: a map, a queue
  of its keys with the least recently used in front, and a running total of the sizes. The
  lemmas say how the three stay consistent when an entry is added at the back, taken from the
  front, moved to the back or removed.
\<close>

definition total :: "('v \<Rightarrow> nat) \<Rightarrow> ('k \<rightharpoonup> 'v) \<Rightarrow> 'k list \<Rightarrow> nat" where
  "total sz m ks = sum_list (map (\<lambda>k. case m k of None \<Rightarrow> 0 | Some v \<Rightarrow> sz v) ks)"

definition lru_inv :: "('v \<Rightarrow> nat) \<Rightarrow> ('k \<rightharpoonup> 'v) \<Rightarrow> 'k list \<Rightarrow> nat \<Rightarrow> bool" where
  "lru_inv sz m ks n \<longleftrightarrow> distinct ks \<and> set ks = dom m \<and> n = total sz m ks"

lemma total_simps [simp]:
  "total sz m [] = 0"
  "total sz m (k # ks) = (case m k of None \<Rightarrow> 0 | Some v \<Rightarrow> sz v) + total sz m ks"
  "total sz m (ks @ ls) = total sz m ks + total sz m ls"
  by (simp_all add: total_def)

lemma total_cong: "(\<And>k. k \<in> set ks \<Longrightarrow> m k = m' k) \<Longrightarrow> total sz m ks = total sz m' ks"
  by (induction ks) auto

lemma total_update_other [simp]: "k \<notin> set ks \<Longrightarrow> total sz (m(k := x)) ks = total sz m ks"
  by (rule total_cong) auto

lemma total_split:
  "distinct ks \<Longrightarrow> k \<in> set ks \<Longrightarrow>
     total sz m ks = (case m k of None \<Rightarrow> 0 | Some v \<Rightarrow> sz v) + total sz m (filter (\<lambda>x. x \<noteq> k) ks)"
proof (induction ks)
  case (Cons a ks)
  show ?case
  proof (cases "a = k")
    case True
    then have "filter (\<lambda>x. x \<noteq> k) ks = ks" using Cons.prems(1) by (intro filter_True) auto
    with True show ?thesis by simp
  next
    case False
    then show ?thesis using Cons by simp
  qed
qed simp

lemma lru_inv_empty [simp]: "lru_inv sz Map.empty [] 0"
  by (simp add: lru_inv_def)

lemma lru_invD:
  assumes "lru_inv sz m ks n"
  shows "distinct ks" "set ks = dom m" "n = total sz m ks"
  using assms by (simp_all add: lru_inv_def)

lemma lru_inv_back: "lru_inv sz m ks n \<Longrightarrow> k \<in> dom m \<Longrightarrow> lru_inv sz m (filter (\<lambda>x. x \<noteq> k) ks @ [k]) n"
  using total_split [of ks k sz m] by (auto simp: lru_inv_def)

lemma lru_inv_remove:
  assumes "lru_inv sz m ks n" and "m k = Some v"
  shows "lru_inv sz (m(k := None)) (filter (\<lambda>x. x \<noteq> k) ks) (n - sz v)" and "sz v \<le> n"
proof -
  note d = lru_invD [OF assms(1)]
  have "k \<in> set ks" using d(2) assms(2) by auto
  then have n: "n = sz v + total sz m (filter (\<lambda>x. x \<noteq> k) ks)"
    using total_split [OF d(1), of k sz m] d(3) assms(2) by simp
  then show "sz v \<le> n" by simp
  from n d show "lru_inv sz (m(k := None)) (filter (\<lambda>x. x \<noteq> k) ks) (n - sz v)"
    by (auto simp: lru_inv_def)
qed

lemma lru_inv_absent: "lru_inv sz m ks n \<Longrightarrow> m k = None \<Longrightarrow> filter (\<lambda>x. x \<noteq> k) ks = ks"
  by (rule filter_True) (auto simp: lru_inv_def dom_def)

lemma lru_inv_front:
  assumes "lru_inv sz m (k # ks) n"
  obtains v where "m k = Some v" "sz v \<le> n" "lru_inv sz (m(k := None)) ks (n - sz v)"
proof -
  have "k \<in> dom m" using lru_invD(2) [OF assms] by (metis list.set_intros(1))
  then obtain v where v: "m k = Some v" by auto
  have "filter (\<lambda>x. x \<noteq> k) (k # ks) = ks"
    using lru_invD(1) [OF assms] by (auto intro!: filter_True)
  with lru_inv_remove [OF assms v] v show ?thesis using that by metis
qed

lemma lru_inv_add:
  assumes "lru_inv sz m ks n" and "m k = None"
  shows "lru_inv sz (m(k \<mapsto> v)) (ks @ [k]) (n + sz v)"
proof -
  note d = lru_invD [OF assms(1)]
  have "k \<notin> set ks" using d(2) assms(2) by auto
  then show ?thesis using d by (auto simp: lru_inv_def)
qed

end
