(* ===== verification/ExpertCache.thy ===== *)
theory ExpertCache
  imports Lru
begin

text \<open>
  \<open>garuda/src/cache/mod.rs\<close>, the byte-budgeted LRU over loaded experts. The lock is held
  for the whole of each method, so a method is one step on the inner state. Counters are
  unbounded naturals.
\<close>

record cache_stats =
  st_hits :: nat
  st_misses :: nat
  st_evictions :: nat
  st_entries :: nat
  st_bytes :: nat

record expert_cache =
  loaded :: "expert_id \<rightharpoonup> expert"
  lru :: "expert_id list"
  ec_bytes :: nat
  hits :: nat
  misses :: nat
  evictions :: nat
  budget_bytes :: nat

definition ec_new :: "nat \<Rightarrow> expert_cache" where
  "ec_new budget =
     \<lparr>loaded = Map.empty, lru = [], ec_bytes = 0, hits = 0, misses = 0, evictions = 0,
      budget_bytes = max budget 1\<rparr>"

definition ec_get :: "expert_cache \<Rightarrow> expert_id \<Rightarrow> expert_cache \<times> expert option" where
  "ec_get c x =
     (case loaded c x of
        Some e \<Rightarrow>
          (c\<lparr>hits := Suc (hits c), lru := filter (\<lambda>y. y \<noteq> x) (lru c) @ [x]\<rparr>, Some e)
      | None \<Rightarrow> (c\<lparr>misses := Suc (misses c)\<rparr>, None))"

text \<open>The eviction loop: pop the front until the new entry fits or nothing is left.\<close>

function evict_loop :: "nat \<Rightarrow> expert_cache \<Rightarrow> expert_id list \<Rightarrow> expert_cache \<times> expert_id list" where
  "evict_loop sz c evicted =
     (if ec_bytes c + sz > budget_bytes c
      then case lru c of
        [] \<Rightarrow> (c, evicted)
      | victim # rest \<Rightarrow>
          (case loaded c victim of
             None \<Rightarrow> evict_loop sz (c\<lparr>lru := rest\<rparr>) evicted
           | Some e \<Rightarrow>
               evict_loop sz
                 (c\<lparr>lru := rest, loaded := (loaded c)(victim := None),
                    ec_bytes := ec_bytes c - size_bytes e, evictions := Suc (evictions c)\<rparr>)
                 (evicted @ [victim]))
      else (c, evicted))"
  by pat_completeness auto
termination by (relation "measure (\<lambda>(sz, c, ev). length (lru c))") auto

declare evict_loop.simps [simp del]

definition ec_insert :: "expert_cache \<Rightarrow> expert_id \<Rightarrow> expert \<Rightarrow> expert_cache \<times> expert_id list" where
  "ec_insert c x e =
     (let c1 = (case loaded c x of
                  Some old \<Rightarrow>
                    c\<lparr>loaded := (loaded c)(x := None), ec_bytes := ec_bytes c - size_bytes old,
                      lru := filter (\<lambda>y. y \<noteq> x) (lru c)\<rparr>
                | None \<Rightarrow> c);
          (c2, evicted) = evict_loop (size_bytes e) c1 []
      in (c2\<lparr>ec_bytes := ec_bytes c2 + size_bytes e, loaded := (loaded c2)(x \<mapsto> e),
             lru := lru c2 @ [x]\<rparr>, evicted))"

definition ec_remove :: "expert_cache \<Rightarrow> expert_id \<Rightarrow> expert_cache" where
  "ec_remove c x =
     (let c1 = (case loaded c x of
                  Some e \<Rightarrow> c\<lparr>loaded := (loaded c)(x := None), ec_bytes := ec_bytes c - size_bytes e\<rparr>
                | None \<Rightarrow> c)
      in c1\<lparr>lru := filter (\<lambda>y. y \<noteq> x) (lru c1)\<rparr>)"

definition ec_contains :: "expert_cache \<Rightarrow> expert_id \<Rightarrow> bool" where
  "ec_contains c x \<longleftrightarrow> loaded c x \<noteq> None"

text \<open>The map has as many entries as the queue (\<open>ec_inv\<close>), which is what is counted here.\<close>

definition ec_stats :: "expert_cache \<Rightarrow> cache_stats" where
  "ec_stats c = \<lparr>st_hits = hits c, st_misses = misses c, st_evictions = evictions c,
                 st_entries = length (lru c), st_bytes = ec_bytes c\<rparr>"

definition ec_inv :: "expert_cache \<Rightarrow> bool" where
  "ec_inv c \<longleftrightarrow> lru_inv size_bytes (loaded c) (lru c) (ec_bytes c) \<and> 0 < budget_bytes c"

lemma ec_new_inv: "ec_inv (ec_new budget)"
  by (simp add: ec_inv_def ec_new_def)

lemma ec_get_keeps:
  assumes "ec_get c x = (c', r)" and "ec_inv c"
  shows "ec_inv c' \<and> r = loaded c x \<and> loaded c' = loaded c \<and> budget_bytes c' = budget_bytes c \<and>
    lru c' = (if r = None then lru c else filter (\<lambda>y. y \<noteq> x) (lru c) @ [x])"
  using assms lru_inv_back [of size_bytes "loaded c" "lru c" "ec_bytes c" x]
  by (auto simp: ec_get_def ec_inv_def dom_def split: option.splits)

lemma ec_remove_keeps:
  assumes "ec_inv c"
  shows "ec_inv (ec_remove c x) \<and> loaded (ec_remove c x) = (loaded c)(x := None) \<and>
    lru (ec_remove c x) = filter (\<lambda>y. y \<noteq> x) (lru c) \<and> budget_bytes (ec_remove c x) = budget_bytes c"
proof (cases "loaded c x")
  case None
  moreover from this have "(loaded c)(x := None) = loaded c" by auto
  ultimately show ?thesis
    using assms lru_inv_absent by (force simp: ec_remove_def ec_inv_def)
next
  case (Some e)
  then show ?thesis
    using assms lru_inv_remove [of size_bytes "loaded c" "lru c" "ec_bytes c" x e]
    by (simp add: ec_remove_def ec_inv_def)
qed

text \<open>The loop takes a prefix of the queue, and no longer a prefix than it needs.\<close>

lemma evict_loop_spec:
  assumes "evict_loop sz c ev = (c', ev')" and "lru_inv size_bytes (loaded c) (lru c) (ec_bytes c)"
  shows "\<exists>k. ev' = ev @ take k (lru c) \<and> lru c' = drop k (lru c) \<and>
    loaded c' = loaded c |` (- set (take k (lru c))) \<and>
    lru_inv size_bytes (loaded c') (lru c') (ec_bytes c') \<and>
    (ec_bytes c' + sz \<le> budget_bytes c \<or> lru c' = []) \<and>
    (\<forall>j<k. total size_bytes (loaded c) (drop j (lru c)) + sz > budget_bytes c) \<and>
    budget_bytes c' = budget_bytes c \<and> hits c' = hits c \<and> misses c' = misses c"
  using assms
proof (induction sz c ev rule: evict_loop.induct)
  case (1 sz c ev)
  show ?case
  proof (cases "ec_bytes c + sz > budget_bytes c \<and> lru c \<noteq> []")
    case False
    then have "c' = c \<and> ev' = ev" using "1.prems"(1)
      by (auto simp: evict_loop.simps [of sz c ev] split: if_splits list.splits)
    with False "1.prems"(2) show ?thesis by (intro exI [of _ 0]) auto
  next
    case True
    then obtain v rest where l: "lru c = v # rest" by (cases "lru c") auto
    obtain e where e: "loaded c v = Some e" "size_bytes e \<le> ec_bytes c"
      "lru_inv size_bytes ((loaded c)(v := None)) rest (ec_bytes c - size_bytes e)"
      using lru_inv_front [OF "1.prems"(2) [unfolded l]] by metis
    let ?c = "c\<lparr>lru := rest, loaded := (loaded c)(v := None),
                 ec_bytes := ec_bytes c - size_bytes e, evictions := Suc (evictions c)\<rparr>"
    have loop: "evict_loop sz ?c (ev @ [v]) = (c', ev')"
      using "1.prems"(1) True l e(1) by (simp add: evict_loop.simps [of sz c ev])
    have nv: "v \<notin> set rest" using lru_invD(1) [OF "1.prems"(2)] l by simp
    obtain k where k: "ev' = (ev @ [v]) @ take k rest" "lru c' = drop k rest"
      "loaded c' = (loaded c)(v := None) |` (- set (take k rest))"
      "lru_inv size_bytes (loaded c') (lru c') (ec_bytes c')"
      "ec_bytes c' + sz \<le> budget_bytes c \<or> lru c' = []"
      "\<forall>j<k. total size_bytes ((loaded c)(v := None)) (drop j rest) + sz > budget_bytes c"
      "budget_bytes c' = budget_bytes c" "hits c' = hits c" "misses c' = misses c"
      using "1.IH"(2) [of v rest e, OF _ l e(1) loop] True e(3) by (auto simp del: fun_upd_apply restrict_upd_same)
    have "total size_bytes (loaded c) (drop j (lru c)) + sz > budget_bytes c" if "j < Suc k" for j
    proof (cases j)
      case 0
      then show ?thesis using True lru_invD(3) [OF "1.prems"(2)] by simp
    next
      case (Suc i)
      have "v \<notin> set (drop i rest)" using nv in_set_dropD by metis
      then show ?thesis using k(6) that Suc l by auto
    qed
    moreover have "loaded c' = loaded c |` (- set (take (Suc k) (lru c)))"
      using k(3) l by (auto simp: fun_eq_iff restrict_map_def)
    ultimately show ?thesis using k l by (intro exI [of _ "Suc k"]) auto
  qed
qed

text \<open>Insertion, with the entry that may already be there taken out first.\<close>

definition without :: "expert_cache \<Rightarrow> expert_id \<Rightarrow> expert_id list" where
  "without c x = filter (\<lambda>y. y \<noteq> x) (lru c)"

lemma ec_insert_spec:
  assumes "ec_insert c x e = (c', ev)" and "ec_inv c"
  shows "ec_inv c'" and "loaded c' x = Some e"
    and "loaded c' = ((loaded c) |` (- set ev))(x \<mapsto> e)"
    and "\<exists>k. ev = take k (without c x) \<and> lru c' = drop k (without c x) @ [x] \<and>
      (\<forall>j<k. total size_bytes (loaded c) (drop j (without c x)) + size_bytes e > budget_bytes c)"
    and "ec_bytes c' \<le> budget_bytes c \<or> lru c' = [x]"
    and "budget_bytes c' = budget_bytes c"
proof -
  define c1 where "c1 = (case loaded c x of
                  Some old \<Rightarrow>
                    c\<lparr>loaded := (loaded c)(x := None), ec_bytes := ec_bytes c - size_bytes old,
                      lru := filter (\<lambda>y. y \<noteq> x) (lru c)\<rparr>
                | None \<Rightarrow> c)"
  obtain c2 where loop: "evict_loop (size_bytes e) c1 [] = (c2, ev)"
    and c': "c' = c2\<lparr>ec_bytes := ec_bytes c2 + size_bytes e, loaded := (loaded c2)(x \<mapsto> e),
             lru := lru c2 @ [x]\<rparr>"
    using assms(1) by (auto simp: ec_insert_def c1_def [symmetric] Let_def split: prod.splits)
  have inv: "lru_inv size_bytes (loaded c) (lru c) (ec_bytes c)" using assms(2) by (simp add: ec_inv_def)
  have c1: "lru_inv size_bytes (loaded c1) (lru c1) (ec_bytes c1) \<and> loaded c1 = (loaded c)(x := None) \<and>
      lru c1 = without c x \<and> budget_bytes c1 = budget_bytes c"
  proof (cases "loaded c x")
    case None
    then have "(loaded c)(x := None) = loaded c" by auto
    with None show ?thesis using inv lru_inv_absent [OF inv None] by (simp add: c1_def without_def)
  next
    case (Some old)
    with lru_inv_remove [OF inv Some] show ?thesis by (simp add: c1_def without_def)
  qed
  obtain k where k: "ev = take k (lru c1)" "lru c2 = drop k (lru c1)"
    "loaded c2 = loaded c1 |` (- set (take k (lru c1)))"
    "lru_inv size_bytes (loaded c2) (lru c2) (ec_bytes c2)"
    "ec_bytes c2 + size_bytes e \<le> budget_bytes c1 \<or> lru c2 = []"
    "\<forall>j<k. total size_bytes (loaded c1) (drop j (lru c1)) + size_bytes e > budget_bytes c1"
    "budget_bytes c2 = budget_bytes c1"
    using evict_loop_spec [OF loop conjunct1 [OF c1]] by auto
  have none: "loaded c2 x = None" using c1 k(3) by (simp add: restrict_map_def)
  show "ec_inv c'"
    using lru_inv_add [OF k(4) none, of e] assms(2) c1 k(7) by (simp add: ec_inv_def c')
  show "loaded c' x = Some e" by (simp add: c')
  show "loaded c' = ((loaded c) |` (- set ev))(x \<mapsto> e)"
    using c1 k(1,3) by (auto simp: c' fun_eq_iff restrict_map_def)
  have "total size_bytes (loaded c1) (drop j (without c x)) = total size_bytes (loaded c) (drop j (without c x))" for j
    using c1 by (intro total_cong) (auto simp: without_def dest: in_set_dropD)
  then show "\<exists>k. ev = take k (without c x) \<and> lru c' = drop k (without c x) @ [x] \<and>
      (\<forall>j<k. total size_bytes (loaded c) (drop j (without c x)) + size_bytes e > budget_bytes c)"
    using k(1,2,6) c1 by (intro exI [of _ k]) (simp add: c')
  show "ec_bytes c' \<le> budget_bytes c \<or> lru c' = [x]" using k(5) c1 by (auto simp: c')
  show "budget_bytes c' = budget_bytes c" using k(7) c1 by (simp add: c')
qed

text \<open>What the memory manager relies on.\<close>

locale expert_store =
  fixes look :: "'c \<Rightarrow> expert_id \<rightharpoonup> expert"
    and get :: "'c \<Rightarrow> expert_id \<Rightarrow> 'c \<times> expert option"
    and insert :: "'c \<Rightarrow> expert_id \<Rightarrow> expert \<Rightarrow> 'c \<times> expert_id list"
    and remove :: "'c \<Rightarrow> expert_id \<Rightarrow> 'c"
    and contains :: "'c \<Rightarrow> expert_id \<Rightarrow> bool"
    and inv :: "'c \<Rightarrow> bool"
  assumes get_ok: "inv c \<Longrightarrow> get c x = (c', r) \<Longrightarrow> r = look c x \<and> look c' = look c \<and> inv c'"
    and insert_ok: "inv c \<Longrightarrow> insert c x e = (c', ev) \<Longrightarrow>
      look c' = ((look c) |` (- set ev))(x \<mapsto> e) \<and> inv c'"
    and remove_ok: "inv c \<Longrightarrow> look (remove c x) = (look c)(x := None) \<and> inv (remove c x)"
    and contains_iff: "contains c x \<longleftrightarrow> look c x \<noteq> None"
begin

text \<open>A cache is coherent with a fixed meaning of the ids when it never answers otherwise.\<close>

lemma insert_coherent:
  "inv c \<Longrightarrow> look c \<subseteq>\<^sub>m truth \<Longrightarrow> truth x = Some e \<Longrightarrow> insert c x e = (c', ev) \<Longrightarrow> look c' \<subseteq>\<^sub>m truth"
  using insert_ok [of c x e c' ev] by (auto simp: map_le_def restrict_map_def split: if_splits)

lemma get_coherent:
  "inv c \<Longrightarrow> look c \<subseteq>\<^sub>m truth \<Longrightarrow> get c x = (c', Some e) \<Longrightarrow> truth x = Some e"
  using get_ok [of c x c' "Some e"] by (metis domI map_le_def)

lemma remove_coherent: "inv c \<Longrightarrow> look c \<subseteq>\<^sub>m truth \<Longrightarrow> look (remove c x) \<subseteq>\<^sub>m truth"
  using remove_ok [of c x] by (auto simp: map_le_def)

end

interpretation ec: expert_store loaded ec_get ec_insert ec_remove ec_contains ec_inv
proof (unfold_locales, goal_cases)
  case (1 c x c' r)
  then show ?case using ec_get_keeps by blast
next
  case (2 c x e c' ev)
  then show ?case using ec_insert_spec(1,3) by blast
next
  case (3 c x)
  then show ?case using ec_remove_keeps by blast
next
  case (4 c x)
  then show ?case by (simp add: ec_contains_def)
qed


section \<open>Properties\<close>

text \<open>Bookkeeping: every operation keeps the map, the queue and the byte count in step (the queue lists
  exactly the loaded experts, once each, and the count is the sum of their sizes), so no
  subtraction of a size can go below zero.\<close>

theorem expert_cache_invariant:
  "(ec_inv (ec_new budget)) \<and>
     (ec_inv c \<longrightarrow> ec_inv (fst (ec_get c x)) \<and> ec_inv (fst (ec_insert c x e)) \<and> ec_inv (ec_remove c x))"
proof (rule conjI)
  show "ec_inv (ec_new budget)" by (rule ec_new_inv)
  show "ec_inv c \<longrightarrow> ec_inv (fst (ec_get c x)) \<and> ec_inv (fst (ec_insert c x e)) \<and> ec_inv (ec_remove c x)"
  proof
  assume inv: "ec_inv c"
  show "ec_inv (fst (ec_get c x)) \<and> ec_inv (fst (ec_insert c x e)) \<and> ec_inv (ec_remove c x)"
    using inv ec_get_keeps [of c x] ec_insert_spec(1) [of c x e] ec_remove_keeps [OF inv, of x]
    by (metis fst_conv surj_pair)
  qed
qed

definition unit_expert :: "expert_id \<Rightarrow> expert" where
  "unit_expert x = \<lparr>e_id = x, gate = [0], up = [0], down = [0],
     e_dims = \<lparr>d_model = 1, n_heads = 1, head_dim = 1, d_ff = 1, n_experts = 4, dims_top_k = 1,
               vocab_size = 256, dims_block_size = 2, rope_theta = 0\<rparr>\<rparr>"

definition two_experts :: expert_cache where
  "two_experts = fst (ec_insert (fst (ec_insert (ec_new 24) 1 (unit_expert 1))) 2 (unit_expert 2))"

lemma expert_cache_invariant_witness: "ec_inv two_experts"
proof -
  have "ec_inv (ec_new 24)" using expert_cache_invariant [of 24] by blast
  then have "ec_inv (fst (ec_insert (ec_new 24) 1 (unit_expert 1)))"
    using expert_cache_invariant [of 24 "ec_new 24" 1 "unit_expert 1"] by blast
  then show ?thesis unfolding two_experts_def
    using expert_cache_invariant [of 24 _ 2 "unit_expert 2"] by blast
qed

text \<open>C36 Eviction: an insertion throws out the least recently used experts and no more of them than it
  must (without each one thrown out the rest still exceeded the budget); afterwards the budget
  holds unless the new expert alone exceeds it, and then it is the only one left. Every
  expert not thrown out is still there, and the new one is the most recently used.\<close>

theorem expert_insert_evicts_lru:
  assumes "ec_insert c x e = (c', ev)" and "ec_inv c"
  shows "(\<exists>k. ev = take k (without c x) \<and> lru c' = drop k (without c x) @ [x] \<and>
      (\<forall>j<k. total size_bytes (loaded c) (drop j (without c x)) + size_bytes e > budget_bytes c)) \<and>
     (ec_bytes c' \<le> budget_bytes c \<or> lru c' = [x] \<and> ec_bytes c' = size_bytes e) \<and>
     (loaded c' = ((loaded c) |` (- set ev))(x \<mapsto> e))"
proof (rule conj3I)
  note s = ec_insert_spec [OF assms]
  show "\<exists>k. ev = take k (without c x) \<and> lru c' = drop k (without c x) @ [x] \<and>
      (\<forall>j<k. total size_bytes (loaded c) (drop j (without c x)) + size_bytes e > budget_bytes c)"
    by (rule s(4))
  show "loaded c' = ((loaded c) |` (- set ev))(x \<mapsto> e)" by (rule s(3))
  have "ec_bytes c' = total size_bytes (loaded c') (lru c')"
    using s(1) by (simp add: ec_inv_def lru_inv_def)
  with s(2,5) show "ec_bytes c' \<le> budget_bytes c \<or> lru c' = [x] \<and> ec_bytes c' = size_bytes e"
    by auto
qed

lemma two_experts_eval: "lru two_experts = [1, 2]" "budget_bytes two_experts = 24"
  "snd (ec_insert (fst (ec_get two_experts 1)) 3 (unit_expert 3)) = [2]"
  by (simp_all add: two_experts_def ec_insert_def ec_new_def ec_get_def evict_loop.simps
      size_bytes_def unit_expert_def)

lemma expert_insert_evicts_lru_witness:
  "case ec_insert two_experts 3 (unit_expert 3) of (c', ev) \<Rightarrow>
     (\<exists>k. ev = take k [1, 2] \<and> lru c' = drop k [1, 2] @ [3]) \<and>
     (ec_bytes c' \<le> 24 \<or> lru c' = [3])"
proof -
  obtain c' ev where ins: "ec_insert two_experts 3 (unit_expert 3) = (c', ev)" by fastforce
  have "ec_inv two_experts" unfolding two_experts_def
    by (metis ec_insert_spec(1) ec_new_inv surjective_pairing)
  from expert_insert_evicts_lru [OF ins this] show ?thesis
    unfolding ins by (auto simp: without_def two_experts_eval)
qed

end
