(* ===== verification/PromptCache.thy ===== *)
theory PromptCache
  imports SeqState ExpertCache
begin

text \<open>
  \<open>garuda/src/cache/mod.rs\<close>, the prompt prefix cache: whole sequence states kept under
  the hash of the prompt that produced them, bounded by entries and by bytes. The hash
  (\<open>blake3\<close>, a library) is the parameter \<open>h\<close>. A state that goes out of scope is
  dropped, and dropping it deletes its spill files, so the operations that drop one take and
  return the disk.
\<close>

record 's prompt_cache =
  entries :: "u8 list \<rightharpoonup> 's seq_state"
  pc_lru :: "u8 list list"
  pc_bytes :: nat
  pc_hits :: nat
  pc_misses :: nat
  capacity :: nat
  pc_budget :: nat

definition prompt_key :: "(u8 list \<Rightarrow> u8 list) \<Rightarrow> token list \<Rightarrow> u8 list" where
  "prompt_key h tokens = h (concat (map (le_bytes 4) tokens))"

definition pc_new :: "nat \<Rightarrow> nat \<Rightarrow> 's prompt_cache" where
  "pc_new cap budget =
     \<lparr>entries = Map.empty, pc_lru = [], pc_bytes = 0, pc_hits = 0, pc_misses = 0,
      capacity = max cap 1, pc_budget = budget\<rparr>"

text \<open>\<open>Inl ()\<close> is the panic of \<open>expect\<close>.\<close>

definition pc_get :: "(u8 list \<Rightarrow> u8 list) \<Rightarrow> 's prompt_cache \<Rightarrow> token list \<Rightarrow> nat \<Rightarrow>
    's prompt_cache \<times> (unit + 's seq_state option)" where
  "pc_get h c tokens fresh =
     (let key = prompt_key h tokens in
      case entries c key of
        None \<Rightarrow> (c\<lparr>pc_misses := Suc (pc_misses c)\<rparr>, Inr None)
      | Some entry \<Rightarrow>
          (c\<lparr>pc_hits := Suc (pc_hits c), pc_lru := filter (\<lambda>k. k \<noteq> key) (pc_lru c) @ [key]\<rparr>,
           (case seq_rekey entry fresh of (s, Inl _) \<Rightarrow> Inl () | (s, Inr _) \<Rightarrow> Inr (Some s))))"

function pc_evict :: "'s \<Rightarrow> 's prompt_cache \<Rightarrow> 's \<times> 's prompt_cache" where
  "pc_evict st c =
     (if length (pc_lru c) > capacity c \<or> pc_bytes c > pc_budget c
      then case pc_lru c of
        [] \<Rightarrow> (st, c)
      | victim # rest \<Rightarrow>
          (case entries c victim of
             None \<Rightarrow> pc_evict st (c\<lparr>pc_lru := rest\<rparr>)
           | Some s \<Rightarrow>
               pc_evict (seq_drop st s)
                 (c\<lparr>pc_lru := rest, entries := (entries c)(victim := None),
                    pc_bytes := pc_bytes c - seq_resident_bytes s\<rparr>))
      else (st, c))"
  by pat_completeness auto
termination by (relation "measure (\<lambda>(st, c). length (pc_lru c))") auto

declare pc_evict.simps [simp del]

definition pc_insert :: "(u8 list \<Rightarrow> u8 list) \<Rightarrow> 's \<Rightarrow> 's prompt_cache \<Rightarrow> token list \<Rightarrow> 's seq_state \<Rightarrow>
    's \<times> 's prompt_cache" where
  "pc_insert h st c tokens s =
     (if seq_has_spill s then (seq_drop st s, c)
      else if seq_resident_bytes s > pc_budget c then (seq_drop st s, c)
      else
        let key = prompt_key h tokens;
            (st1, c1) = (case entries c key of
                Some old \<Rightarrow>
                  (seq_drop st old,
                   c\<lparr>entries := (entries c)(key := None), pc_bytes := pc_bytes c - seq_resident_bytes old,
                     pc_lru := filter (\<lambda>k. k \<noteq> key) (pc_lru c)\<rparr>)
              | None \<Rightarrow> (st, c))
        in pc_evict st1 (c1\<lparr>entries := (entries c1)(key \<mapsto> s), pc_bytes := pc_bytes c1 + seq_resident_bytes s,
                            pc_lru := pc_lru c1 @ [key]\<rparr>))"

definition pc_stats :: "'s prompt_cache \<Rightarrow> cache_stats" where
  "pc_stats c = \<lparr>st_hits = pc_hits c, st_misses = pc_misses c, st_evictions = 0,
                 st_entries = length (pc_lru c), st_bytes = pc_bytes c\<rparr>"

text \<open>Between operations: both bounds hold, and no cached state has anything on disk.\<close>

definition pc_core :: "'s prompt_cache \<Rightarrow> bool" where
  "pc_core c \<longleftrightarrow> lru_inv seq_resident_bytes (entries c) (pc_lru c) (pc_bytes c) \<and>
     0 < capacity c \<and> (\<forall>s \<in> ran (entries c). \<not> seq_has_spill s)"

definition pc_inv :: "'s prompt_cache \<Rightarrow> bool" where
  "pc_inv c \<longleftrightarrow> pc_core c \<and> length (pc_lru c) \<le> capacity c \<and> pc_bytes c \<le> pc_budget c"

lemma purge_kvs_no_spill: "\<not> list_ex kv_has_spill ks \<Longrightarrow> fst (purge_kvs st ks) = st"
proof (induction ks)
  case (Cons kv ks)
  then have "kv_purge st kv = (st, kv\<lparr>spilled := []\<rparr>)"
    by (cases "kv_storage kv") (auto simp: kv_purge_def kv_has_spill_def)
  then show ?case using Cons by (auto split: prod.split)
qed simp

lemma seq_drop_no_spill: "\<not> seq_has_spill s \<Longrightarrow> seq_drop st s = st"
  using purge_kvs_no_spill [of "kvs s" st]
  by (auto simp: seq_drop_def seq_purge_def seq_has_spill_def split: prod.split)

text \<open>The loop stops before the last entry when that entry alone fits.\<close>

lemma pc_evict_spec:
  assumes "pc_evict st c = (st', c')" and "pc_core c"
    and "pc_lru c = ks @ [key]" and "entries c key = Some s" and "seq_resident_bytes s \<le> pc_budget c"
  shows "st' = st \<and> pc_inv c' \<and> capacity c' = capacity c \<and> pc_budget c' = pc_budget c \<and>
    (\<exists>k \<le> length ks. pc_lru c' = drop k ks @ [key] \<and>
       entries c' = entries c |` (- set (take k ks))) \<and>
    pc_hits c' = pc_hits c \<and> pc_misses c' = pc_misses c"
  using assms
proof (induction st c arbitrary: ks rule: pc_evict.induct)
  case (1 st c)
  have inv: "lru_inv seq_resident_bytes (entries c) (pc_lru c) (pc_bytes c)"
    using "1.prems"(2) by (simp add: pc_core_def)
  show ?case
  proof (cases "length (pc_lru c) > capacity c \<or> pc_bytes c > pc_budget c")
    case False
    then have "c' = c \<and> st' = st" using "1.prems"(1) by (simp add: pc_evict.simps [of st c])
    then show ?thesis using False "1.prems"(2,3) by (auto simp: pc_inv_def intro!: exI [of _ 0])
  next
    case True
    have "ks \<noteq> []"
    proof
      assume "ks = []"
      then have "pc_bytes c = seq_resident_bytes s"
        using lru_invD(3) [OF inv] "1.prems"(3,4) by simp
      then show False using True "1.prems"(2,3,5) \<open>ks = []\<close> by (auto simp: pc_core_def)
    qed
    then obtain v vs where ks: "ks = v # vs" by (cases ks) auto
    then have l: "pc_lru c = v # (vs @ [key])" using "1.prems"(3) by simp
    obtain x where x: "entries c v = Some x"
      "lru_inv seq_resident_bytes ((entries c)(v := None)) (vs @ [key]) (pc_bytes c - seq_resident_bytes x)"
      using lru_inv_front [OF inv [unfolded l]] by metis
    have nos: "\<not> seq_has_spill x" using "1.prems"(2) x(1) by (auto simp: pc_core_def ran_def)
    have nv: "v \<notin> set vs" "v \<noteq> key" using lru_invD(1) [OF inv] l by auto
    let ?c = "c\<lparr>pc_lru := vs @ [key], entries := (entries c)(v := None),
                pc_bytes := pc_bytes c - seq_resident_bytes x\<rparr>"
    have "pc_evict st c = pc_evict (seq_drop st x) ?c"
      using True l x(1) by (simp add: pc_evict.simps [of st c])
    then have loop: "pc_evict (seq_drop st x) ?c = (st', c')" using "1.prems"(1) by simp
    have core: "pc_core ?c" using "1.prems"(2) x(2) by (auto simp: pc_core_def ran_def)
    have "st' = seq_drop st x \<and> pc_inv c' \<and> capacity c' = capacity ?c \<and> pc_budget c' = pc_budget ?c \<and>
      (\<exists>k \<le> length vs. pc_lru c' = drop k vs @ [key] \<and>
         entries c' = entries ?c |` (- set (take k vs))) \<and>
      pc_hits c' = pc_hits ?c \<and> pc_misses c' = pc_misses ?c"
      by (rule "1.IH"(2) [OF True l x(1) loop core])
        (use "1.prems"(4,5) nv in simp_all)
    then obtain k where k: "st' = st" "pc_inv c'" "capacity c' = capacity c" "pc_budget c' = pc_budget c"
      "k \<le> length vs" "pc_lru c' = drop k vs @ [key]"
      "entries c' = (entries c)(v := None) |` (- set (take k vs))"
      "pc_hits c' = pc_hits c" "pc_misses c' = pc_misses c"
      using seq_drop_no_spill [OF nos, of st] by auto
    have "entries c' = entries c |` (- set (take (Suc k) ks))"
      using k(7) ks by (auto simp: fun_eq_iff restrict_map_def)
    then show ?thesis using k ks by (auto intro!: exI [of _ "Suc k"])
  qed
qed

lemma pc_insert_spec:
  assumes "pc_insert h st c tokens s = (st', c')" and "pc_inv c"
    and "\<not> seq_has_spill s" and "seq_resident_bytes s \<le> pc_budget c"
  shows "st' = st" and "pc_inv c'" and "entries c' (prompt_key h tokens) = Some s"
    and "entries c' \<subseteq>\<^sub>m (entries c)(prompt_key h tokens \<mapsto> s)"
    and "capacity c' = capacity c" and "pc_budget c' = pc_budget c"
proof -
  define key where "key = prompt_key h tokens"
  define c1 where "c1 = (case entries c key of
                Some old \<Rightarrow>
                  c\<lparr>entries := (entries c)(key := None), pc_bytes := pc_bytes c - seq_resident_bytes old,
                     pc_lru := filter (\<lambda>k. k \<noteq> key) (pc_lru c)\<rparr>
              | None \<Rightarrow> c)"
  define c2 where "c2 = c1\<lparr>entries := (entries c1)(key \<mapsto> s), pc_bytes := pc_bytes c1 + seq_resident_bytes s,
                            pc_lru := pc_lru c1 @ [key]\<rparr>"
  have inv: "lru_inv seq_resident_bytes (entries c) (pc_lru c) (pc_bytes c)" "0 < capacity c"
    "\<forall>s \<in> ran (entries c). \<not> seq_has_spill s"
    using assms(2) by (simp_all add: pc_inv_def pc_core_def)
  have old: "seq_drop st x = st" if "entries c key = Some x" for x
    using inv(3) that by (intro seq_drop_no_spill) (auto simp: ran_def)
  have run: "pc_evict st c2 = (st', c')"
    using assms(1,3,4) old unfolding pc_insert_def c2_def c1_def key_def [symmetric] Let_def
    by (auto split: option.splits)
  have c1: "lru_inv seq_resident_bytes (entries c1) (pc_lru c1) (pc_bytes c1) \<and>
      entries c1 = (entries c)(key := None) \<and> capacity c1 = capacity c \<and> pc_budget c1 = pc_budget c"
  proof (cases "entries c key")
    case None
    then have "(entries c)(key := None) = entries c" by auto
    with None show ?thesis using inv(1) by (simp add: c1_def)
  next
    case (Some x)
    with lru_inv_remove [OF inv(1) Some] show ?thesis by (simp add: c1_def)
  qed
  have "entries c1 key = None" using c1 by simp
  then have "pc_core c2"
    using lru_inv_add [of seq_resident_bytes "entries c1" "pc_lru c1" "pc_bytes c1" key s] c1 inv(2,3) assms(3)
    by (auto simp: pc_core_def c2_def ran_def)
  moreover have "pc_lru c2 = pc_lru c1 @ [key]" "entries c2 key = Some s"
    "seq_resident_bytes s \<le> pc_budget c2" using c1 assms(4) by (simp_all add: c2_def)
  ultimately obtain k where k: "st' = st" "pc_inv c'" "capacity c' = capacity c2" "pc_budget c' = pc_budget c2"
    "k \<le> length (pc_lru c1)" "pc_lru c' = drop k (pc_lru c1) @ [key]"
    "entries c' = entries c2 |` (- set (take k (pc_lru c1)))"
    using pc_evict_spec [OF run, of "pc_lru c1" key s] by auto
  have "key \<notin> set (pc_lru c1)" using c1 by (auto simp: lru_inv_def)
  then have notin: "key \<notin> set (take k (pc_lru c1))" by (meson in_set_takeD)
  show "st' = st" and "pc_inv c'" and "capacity c' = capacity c" and "pc_budget c' = pc_budget c"
    using k c1 by (simp_all add: c2_def)
  show "entries c' (prompt_key h tokens) = Some s"
    using k(7) notin by (simp add: c2_def key_def [symmetric])
  show "entries c' \<subseteq>\<^sub>m (entries c)(prompt_key h tokens \<mapsto> s)"
    using k(7) c1 by (auto simp: c2_def key_def [symmetric] map_le_def restrict_map_def)
qed

lemma pc_get_spec:
  assumes "pc_get h c tokens fresh = (c', r)" and "pc_inv c"
  shows "pc_inv c'" and "entries c' = entries c"
    and "r = Inr (map_option (\<lambda>s. s\<lparr>kvs := map (\<lambda>kv. kv\<lparr>seq_id := fresh\<rparr>) (kvs s)\<rparr>)
                    (entries c (prompt_key h tokens)))"
proof -
  have inv: "lru_inv seq_resident_bytes (entries c) (pc_lru c) (pc_bytes c)"
    "\<forall>s \<in> ran (entries c). \<not> seq_has_spill s"
    using assms(2) by (simp_all add: pc_inv_def pc_core_def)
  have moved: "lru_inv seq_resident_bytes (entries c) (filter (\<lambda>k. k \<noteq> key) (pc_lru c) @ [key]) (pc_bytes c) \<and>
      length (filter (\<lambda>k. k \<noteq> key) (pc_lru c) @ [key]) = length (pc_lru c)" if "entries c key = Some s" for key s
  proof -
    have "key \<in> dom (entries c)" using that by auto
    from lru_inv_back [OF inv(1) this] have l: "lru_inv seq_resident_bytes (entries c) (filter (\<lambda>k. k \<noteq> key) (pc_lru c) @ [key]) (pc_bytes c)" .
    with inv(1) have "card (set (filter (\<lambda>k. k \<noteq> key) (pc_lru c) @ [key])) = card (set (pc_lru c))"
      by (metis lru_invD(2))
    with l inv(1) show ?thesis by (metis distinct_card lru_invD(1))
  qed
  have get: "pc_get h c tokens fresh = (c', r)" by (rule assms(1))
  show "pc_inv c'"
    using get assms(2) moved by (auto simp: pc_get_def pc_inv_def pc_core_def Let_def split: option.splits)
  show "entries c' = entries c" using get by (auto simp: pc_get_def Let_def split: option.splits)
  show "r = Inr (map_option (\<lambda>s. s\<lparr>kvs := map (\<lambda>kv. kv\<lparr>seq_id := fresh\<rparr>) (kvs s)\<rparr>)
                    (entries c (prompt_key h tokens)))"
    using get inv(2) by (auto simp: pc_get_def Let_def seq_rekey_no_spill ran_def split: option.splits)
qed

lemma kv_contents_rekeyed: "spilled kv = [] \<Longrightarrow> kv_contents files' (kv\<lparr>seq_id := n\<rparr>) = kv_contents files kv"
  by (intro kv_contents_cong block_at_cong) simp_all


section \<open>Properties\<close>

text \<open>Bounds: every operation keeps the cache within its entry count and its byte budget, keeps the
  byte count equal to the sum of the entries' sizes, and keeps out every state that has blocks
  on disk.\<close>

theorem prompt_cache_invariant:
  "(pc_inv (pc_new cap budget)) \<and>
     (pc_inv c \<longrightarrow> pc_inv (fst (pc_get h c tokens fresh)) \<and> pc_inv (snd (pc_insert h st c tokens s)))"
proof (rule conjI)
  show "pc_inv (pc_new cap budget)" by (simp add: pc_inv_def pc_core_def pc_new_def)
  show "pc_inv c \<longrightarrow> pc_inv (fst (pc_get h c tokens fresh)) \<and> pc_inv (snd (pc_insert h st c tokens s))"
  proof
  assume inv: "pc_inv c"
  have "pc_inv (snd (pc_insert h st c tokens s))"
  proof (cases "seq_has_spill s \<or> seq_resident_bytes s > pc_budget c")
    case True
    then show ?thesis using inv by (auto simp: pc_insert_def)
  next
    case False
    then show ?thesis using pc_insert_spec(2) [OF _ inv, of h st tokens s] by (cases "pc_insert h st c tokens s") auto
  qed
  moreover have "pc_inv (fst (pc_get h c tokens fresh))"
    using pc_get_spec(1) [OF _ inv, of h tokens fresh] by (cases "pc_get h c tokens fresh") auto
  ultimately show "pc_inv (fst (pc_get h c tokens fresh)) \<and> pc_inv (snd (pc_insert h st c tokens s))" by simp
  qed
qed

text \<open>A state of two positions, all in memory, with a recurrent layer.\<close>

definition warm_seq :: "fs seq_state" where
  "warm_seq = \<lparr>kvs = [(for_layer tiny_kv 7 0)\<lparr>resident := [(0, cold_block)], kv_len := 2\<rparr>],
     linears = [Some round_state], recording = False\<rparr>"

lemma warm_seq_simps [simp]: "\<not> seq_has_spill warm_seq" "seq_resident_bytes warm_seq = 32"
  by (simp_all add: seq_has_spill_def warm_seq_def kv_has_spill_def for_layer_def seq_resident_bytes_def
      kv_resident_bytes_def cold_block_def linear_bytes_def round_state_def)

definition warm_cache :: "fs prompt_cache" where
  "warm_cache = snd (pc_insert id cold_disk (pc_new 2 64) [1, 2] warm_seq)"

lemma prompt_cache_invariant_witness: "pc_inv warm_cache"
  unfolding warm_cache_def
  by (rule conjunct2 [OF mp [OF conjunct2 [OF prompt_cache_invariant] conjunct1 [OF prompt_cache_invariant]]])

text \<open>C37 A prompt that was cached is found again: if the hash tells the prompts apart, looking a prompt
  up right after it was cached never panics and gives a state that holds what the cached one
  held, under the fresh identity; a different prompt's entry is never given out for it.\<close>

theorem prompt_cache_roundtrip:
  assumes "pc_inv c" and "\<not> seq_has_spill s" and "seq_resident_bytes s \<le> pc_budget c"
    and "inj_on (prompt_key h) {tokens, other}"
    and "pc_insert h st c tokens s = (st', c1)" and "pc_get h c1 asked fresh = (c2, r)"
    and "asked \<in> {tokens, other}"
  shows "(st' = st) \<and>
     (asked = tokens \<longrightarrow> (\<exists>s'. r = Inr (Some s') \<and> seq_contents files s' = seq_contents files s \<and>
           linears s' = linears s \<and> (\<forall>kv \<in> set (kvs s'). seq_id kv = fresh))) \<and>
     (asked \<noteq> tokens \<and> entries c (prompt_key h other) = None \<longrightarrow> r = Inr None)"
proof (rule conj3I)
  note ins = pc_insert_spec [OF assms(5,1,2,3)]
  note got = pc_get_spec(3) [OF assms(6) ins(2)]
  show "st' = st" by (rule ins(1))
  show "asked = tokens \<longrightarrow> (\<exists>s'. r = Inr (Some s') \<and> seq_contents files s' = seq_contents files s \<and>
           linears s' = linears s \<and> (\<forall>kv \<in> set (kvs s'). seq_id kv = fresh))"
  proof
    assume "asked = tokens"
    with got ins(3) have r: "r = Inr (Some (s\<lparr>kvs := map (\<lambda>kv. kv\<lparr>seq_id := fresh\<rparr>) (kvs s)\<rparr>))" by simp
    have "\<forall>kv \<in> set (kvs s). spilled kv = []"
      using assms(2) by (auto simp: seq_has_spill_def kv_has_spill_def list_ex_iff)
    then have "map (kv_contents files \<circ> (\<lambda>kv. kv\<lparr>seq_id := fresh\<rparr>)) (kvs s) = map (kv_contents files) (kvs s)"
      by (intro map_cong refl) (simp add: kv_contents_rekeyed)
    with r show "\<exists>s'. r = Inr (Some s') \<and> seq_contents files s' = seq_contents files s \<and>
           linears s' = linears s \<and> (\<forall>kv \<in> set (kvs s'). seq_id kv = fresh)"
      by (simp add: seq_contents_def)
  qed
  show "asked \<noteq> tokens \<and> entries c (prompt_key h other) = None \<longrightarrow> r = Inr None"
  proof
    assume a: "asked \<noteq> tokens \<and> entries c (prompt_key h other) = None"
    then have "prompt_key h asked \<noteq> prompt_key h tokens" and "asked = other"
      using assms(4,7) by (auto simp: inj_on_def)
    with a ins(4) have "entries c1 (prompt_key h asked) = None"
      by (auto simp: map_le_def dom_def)
    with got show "r = Inr None" by simp
  qed
qed

lemma prompt_cache_roundtrip_witness:
  "case pc_get id warm_cache [1, 2] 9 of (c2, r) \<Rightarrow>
     (\<exists>s'. r = Inr (Some s') \<and> seq_contents Map.empty s' = seq_contents Map.empty warm_seq \<and>
        (\<forall>kv \<in> set (kvs s'). seq_id kv = 9))"
proof -
  obtain st' c1 where ins: "pc_insert id cold_disk (pc_new 2 64) [1, 2] warm_seq = (st', c1)" by fastforce
  obtain c2 r where get: "pc_get id warm_cache [1, 2] 9 = (c2, r)" by fastforce
  have c1: "c1 = warm_cache" using ins by (simp add: warm_cache_def)
  have "pc_inv (pc_new 2 64 :: fs prompt_cache)" by (simp add: pc_inv_def pc_core_def pc_new_def)
  moreover have "seq_resident_bytes warm_seq \<le> pc_budget (pc_new 2 64 :: fs prompt_cache)" by (simp add: pc_new_def)
  ultimately have "\<exists>s'. r = Inr (Some s') \<and> seq_contents Map.empty s' = seq_contents Map.empty warm_seq \<and>
           linears s' = linears warm_seq \<and> (\<forall>kv \<in> set (kvs s'). seq_id kv = 9)"
    using prompt_cache_roundtrip [OF _ _ _ _ ins get [folded c1], of "[1, 2]" Map.empty, THEN conjunct2, THEN conjunct1] by simp
  then show ?thesis by (auto simp: get)
qed

text \<open>The refusal of a state with blocks on disk deletes those blocks' files: handing a copy of a
  live sequence to the cache is refused, but the refused copy is dropped, and the live sequence
  loses the positions it had on disk.\<close>

theorem prompt_cache_refusal_deletes:
  "(seq_inv (local_content disk_root cold_disk) (local_ops disk_root) cold_seq) \<and>
     (snd (pc_insert h cold_disk (pc_new 2 64) tokens cold_seq) = pc_new 2 64 \<and>
     local_content disk_root cold_disk (spill_name 7 0 0) \<noteq> None \<and>
     local_content disk_root (fst (pc_insert h cold_disk (pc_new 2 64) tokens cold_seq))
       (spill_name 7 0 0) = None)"
proof (rule conjI)
  show "seq_inv (local_content disk_root cold_disk) (local_ops disk_root) cold_seq" by (rule cold_seq_inv)
  have "seq_has_spill cold_seq" by (simp add: seq_has_spill_def cold_seq_def kv_has_spill_def)
  then have eq: "pc_insert h cold_disk (pc_new 2 64) tokens cold_seq =
      (seq_drop cold_disk cold_seq, pc_new 2 64)" by (simp add: pc_insert_def)
  have "local_content disk_root (seq_drop cold_disk cold_seq) (spill_name 7 0 0) = None"
    by (simp add: seq_drop_def seq_purge_def cold_seq_def kv_purge_def local_ops_def local_remove_def
        cold_path fs_call_def local_content_def) (simp add: cold_disk_def)
  with eq cold_file show "snd (pc_insert h cold_disk (pc_new 2 64) tokens cold_seq) = pc_new 2 64 \<and>
     local_content disk_root cold_disk (spill_name 7 0 0) \<noteq> None \<and>
     local_content disk_root (fst (pc_insert h cold_disk (pc_new 2 64) tokens cold_seq))
       (spill_name 7 0 0) = None" by simp
qed

end
