(* ===== verification/Runtime.thy ===== *)
theory Runtime
  imports Sampling PromptCache
begin

text \<open>
  \<open>garuda/src/runtime/mod.rs\<close>, sessions and the decode loop: starting a sequence (with or
  without a cached prefix), absorbing the prompt in pieces, one token, several tokens by
  guessing, one step of a batch. A compute backend is a parameter: the record of its methods
  (\<open>InferenceBackend\<close> in \<open>core/mod.rs\<close>), each of which takes and returns the
  storage behind the caches and the sequence it advances. The moving average that sizes the
  guesses is a parameter too; it decides how much is guessed, never what is answered.
\<close>

section \<open>Backends\<close>

type_synonym ('s, 'f) forward = "token list \<Rightarrow> 's \<Rightarrow> 's seq_state \<Rightarrow> 's \<times> 's seq_state \<times> 'f list res"

record ('s, 'f) backend =
  be_hidden :: "('s, 'f) forward"
  be_logits :: "('s, 'f) forward"
  be_logits_multi :: "token list \<Rightarrow> 's \<Rightarrow> 's seq_state \<Rightarrow> nat \<Rightarrow> 's \<times> 's seq_state \<times> 'f list list res"
  be_speculation :: bool
  be_logits_batch :: "(token list \<times> 's seq_state) list \<Rightarrow> 's \<Rightarrow> 's \<times> 's seq_state list \<times> 'f list list res"

text \<open>The trait's default methods.\<close>

definition default_logits_multi :: "('s, 'f) forward \<Rightarrow> token list \<Rightarrow> 's \<Rightarrow> 's seq_state \<Rightarrow> nat \<Rightarrow>
    's \<times> 's seq_state \<times> 'f list list res" where
  "default_logits_multi logits ctx st sq n =
     (if n = 1
      then case logits ctx st sq of (st', sq', r) \<Rightarrow>
        (st', sq', case r of Inl e \<Rightarrow> Inl e | Inr l \<Rightarrow> Inr [l])
      else (st, sq, Inl (Inference ''this backend cannot produce logits for {n} positions in one pass'')))"

text \<open>One after the other, up to the first that fails.\<close>

fun default_logits_batch :: "('s, 'f) forward \<Rightarrow> (token list \<times> 's seq_state) list \<Rightarrow> 's \<Rightarrow>
    's \<times> 's seq_state list \<times> 'f list list res" where
  "default_logits_batch logits [] st = (st, [], Inr [])"
| "default_logits_batch logits ((ctx, sq) # xs) st =
     (case logits ctx st sq of
        (st1, sq1, Inl e) \<Rightarrow> (st1, sq1 # map snd xs, Inl e)
      | (st1, sq1, Inr l) \<Rightarrow>
          (case default_logits_batch logits xs st1 of
             (st2, sqs, Inl e) \<Rightarrow> (st2, sq1 # sqs, Inl e)
           | (st2, sqs, Inr ls) \<Rightarrow> (st2, sq1 # sqs, Inr (l # ls))))"


section \<open>Sessions\<close>

datatype stop_reason = Eos | Length | ContextFull

definition as_openai :: "stop_reason \<Rightarrow> string" where
  "as_openai r = (case r of Eos \<Rightarrow> ''stop'' | Length \<Rightarrow> ''length'' | ContextFull \<Rightarrow> ''length'')"

record 's pending =
  pd_seq :: "'s seq_state"
  pd_context :: "token list"
  consumed :: nat
  pd_seed :: u64
  cache_on_finish :: bool

record ('s, 'g) session =
  ss_seq :: "'s seq_state"
  ss_context :: "token list"
  prompt_len :: nat
  rng :: u64
  finished :: bool
  spec_gain :: 'g
  spec_idle :: nat
  draft_seq :: "'s seq_state option"

record 'g gain_ops =
  g_start :: 'g
  g_losing :: "'g \<Rightarrow> bool"
  g_want :: "'g \<Rightarrow> nat"
  g_blend :: "'g \<Rightarrow> nat \<Rightarrow> 'g"

record ('s, 'f) runtime =
  rt_eos :: token
  rt_turn_end :: "token option"
  rt_backend :: "('s, 'f) backend"
  rt_drafter :: "(('s, 'f) backend \<times> 's kv_config) option"
  rt_prompt_cache :: "'s prompt_cache"
  kv_template :: "'s kv_config"
  max_context :: nat
  next_seq :: nat

definition remaining :: "'s pending \<Rightarrow> nat" where
  "remaining pd = (length (pd_context pd) - 1) - consumed pd"

definition generated :: "('s, 'g) session \<Rightarrow> nat" where
  "generated ss = length (ss_context ss) - prompt_len ss"

definition ends_turn :: "('s, 'f) runtime \<Rightarrow> token \<Rightarrow> bool" where
  "ends_turn rt t \<longleftrightarrow> t = rt_eos rt \<or> Some t = rt_turn_end rt"

definition runtime_new :: "token \<Rightarrow> ('s, 'f) backend \<Rightarrow> 's kv_config \<Rightarrow> nat \<Rightarrow> nat \<Rightarrow> ('s, 'f) runtime" where
  "runtime_new eos be kv cap bytes =
     \<lparr>rt_eos = eos, rt_turn_end = None, rt_backend = be, rt_drafter = None,
      rt_prompt_cache = pc_new cap bytes, kv_template = kv, max_context = cfg_max_positions kv, next_seq = 1\<rparr>"

definition with_drafter :: "('s, 'f) runtime \<Rightarrow> ('s, 'f) backend \<Rightarrow> 's kv_config \<Rightarrow> ('s, 'f) runtime" where
  "with_drafter rt be kv = rt\<lparr>rt_drafter := Some (be, kv)\<rparr>"

definition with_turn_end :: "('s, 'f) runtime \<Rightarrow> token option \<Rightarrow> ('s, 'f) runtime" where
  "with_turn_end rt t = rt\<lparr>rt_turn_end := t\<rparr>"

definition fresh_seq_id :: "('s, 'f) runtime \<Rightarrow> ('s, 'f) runtime \<times> nat" where
  "fresh_seq_id rt = (rt\<lparr>next_seq := Suc (next_seq rt)\<rparr>, next_seq rt)"


section \<open>Absorbing the prompt\<close>

text \<open>\<open>None\<close> is the panic of the prompt cache's \<open>expect\<close>.\<close>

definition start_incremental :: "'f fops \<Rightarrow> (u8 list \<Rightarrow> u8 list) \<Rightarrow> ('s, 'f) runtime \<Rightarrow> token list \<Rightarrow>
    'f sampling_params \<Rightarrow> (('s, 'f) runtime \<times> 's pending res) option" where
  "start_incremental F h rt prompt p =
     (case validate_params F p of
        Inl e \<Rightarrow> Some (rt, Inl e)
      | Inr _ \<Rightarrow>
          if prompt = [] then Some (rt, Inl (Inference ''prompt is empty''))
          else if length prompt \<ge> max_context rt
          then Some (rt, Inl (Inference ''prompt of {} tokens does not fit the {}-token context window''))
          else
            let (rt1, sid) = fresh_seq_id rt;
                prefix = butlast prompt;
                seed = (case sp_seed p of Some s \<Rightarrow> s | None \<Rightarrow> of_nat sid);
                fresh = \<lparr>pd_seq = seq_new (kv_template rt1) sid, pd_context = prompt, consumed = 0,
                         pd_seed = seed, cache_on_finish = True\<rparr>
            in if prefix = [] then Some (rt1, Inr (fresh\<lparr>cache_on_finish := False\<rparr>))
               else case pc_get h (rt_prompt_cache rt1) prefix sid of
                 (c, Inl _) \<Rightarrow> None
               | (c, Inr (Some cached)) \<Rightarrow>
                   Some (rt1\<lparr>rt_prompt_cache := c\<rparr>,
                     Inr (fresh\<lparr>pd_seq := cached, consumed := length prefix, cache_on_finish := False\<rparr>))
               | (c, Inr None) \<Rightarrow> Some (rt1\<lparr>rt_prompt_cache := c\<rparr>, Inr fresh))"

definition advance_prefill :: "(u8 list \<Rightarrow> u8 list) \<Rightarrow> ('s, 'f) runtime \<Rightarrow> 's \<Rightarrow> 's pending \<Rightarrow> nat \<Rightarrow>
    's \<times> ('s, 'f) runtime \<times> 's pending \<times> bool res" where
  "advance_prefill h rt st pd maxt =
     (let prefix_len = length (pd_context pd) - 1 in
      if consumed pd \<ge> prefix_len then (st, rt, pd, Inr True)
      else
        let target = min prefix_len (consumed pd + max maxt 1)
        in case be_hidden (rt_backend rt) (take target (pd_context pd)) st (pd_seq pd) of
             (st1, sq, Inl e) \<Rightarrow> (st1, rt, pd\<lparr>pd_seq := sq\<rparr>, Inl e)
           | (st1, sq, Inr _) \<Rightarrow>
               let pd1 = pd\<lparr>pd_seq := sq, consumed := target\<rparr>; done = (target \<ge> prefix_len)
               in if done \<and> cache_on_finish pd \<and> \<not> seq_has_spill sq
                  then case pc_insert h st1 (rt_prompt_cache rt) (take prefix_len (pd_context pd)) sq of
                    (st2, c) \<Rightarrow> (st2, rt\<lparr>rt_prompt_cache := c\<rparr>, pd1, Inr done)
                  else (st1, rt, pd1, Inr done))"

definition finish_prefill :: "'g gain_ops \<Rightarrow> 's pending \<Rightarrow> ('s, 'g) session" where
  "finish_prefill G pd =
     \<lparr>ss_seq = pd_seq pd, ss_context = pd_context pd, prompt_len = length (pd_context pd),
      rng = rng_new (pd_seed pd), finished = False, spec_gain = g_start G, spec_idle = 0, draft_seq = None\<rparr>"


text \<open>\<open>start\<close>: the loop asks for the whole prompt each time, and ends when a call reports the end.\<close>

partial_function (option) prefill_loop :: "(u8 list \<Rightarrow> u8 list) \<Rightarrow> ('s, 'f) runtime \<Rightarrow> 's \<Rightarrow> 's pending \<Rightarrow> nat \<Rightarrow>
    ('s \<times> ('s, 'f) runtime \<times> 's pending res) option" where
  "prefill_loop h rt st pd maxt =
     (case advance_prefill h rt st pd maxt of
        (st1, rt1, pd1, Inl e) \<Rightarrow> Some (st1, rt1, Inl e)
      | (st1, rt1, pd1, Inr done) \<Rightarrow>
          if done then Some (st1, rt1, Inr pd1) else prefill_loop h rt1 st1 pd1 maxt)"

definition usize_max :: nat where
  "usize_max = 2 ^ 64 - 1"

definition start :: "'f fops \<Rightarrow> 'g gain_ops \<Rightarrow> (u8 list \<Rightarrow> u8 list) \<Rightarrow> ('s, 'f) runtime \<Rightarrow> 's \<Rightarrow> token list \<Rightarrow>
    'f sampling_params \<Rightarrow> ('s \<times> ('s, 'f) runtime \<times> ('s, 'g) session res) option" where
  "start F G h rt st prompt p =
     (case start_incremental F h rt prompt p of
        None \<Rightarrow> None
      | Some (rt1, Inl e) \<Rightarrow> Some (st, rt1, Inl e)
      | Some (rt1, Inr pd) \<Rightarrow>
          (case prefill_loop h rt1 st pd usize_max of
             None \<Rightarrow> None
           | Some (st2, rt2, Inl e) \<Rightarrow> Some (st2, rt2, Inl e)
           | Some (st2, rt2, Inr pd2) \<Rightarrow> Some (st2, rt2, Inr (finish_prefill G pd2))))"


section \<open>One token\<close>

definition next_token :: "'f fops \<Rightarrow> ('s, 'f) runtime \<Rightarrow> 'f sampling_params \<Rightarrow> 's \<Rightarrow> ('s, 'g) session \<Rightarrow>
    's \<times> ('s, 'g) session \<times> (stop_reason + token)" where
  "next_token F rt p st ss =
     (if finished ss then (st, ss, Inl Length)
      else if generated ss \<ge> max_tokens p then (st, ss\<lparr>finished := True\<rparr>, Inl Length)
      else if length (ss_context ss) \<ge> max_context rt then (st, ss\<lparr>finished := True\<rparr>, Inl ContextFull)
      else case be_logits (rt_backend rt) (ss_context ss) st (ss_seq ss) of
        (st1, sq, Inl _) \<Rightarrow> (st1, ss\<lparr>ss_seq := sq, finished := True\<rparr>, Inl ContextFull)
      | (st1, sq, Inr l) \<Rightarrow>
          (case sample F l p (rng ss) of
             (r, Inl _) \<Rightarrow> (st1, ss\<lparr>ss_seq := sq, rng := r, finished := True\<rparr>, Inl ContextFull)
           | (r, Inr t) \<Rightarrow>
               let ss1 = ss\<lparr>ss_seq := sq, rng := r, ss_context := ss_context ss @ [t]\<rparr>
               in if ends_turn rt t then (st1, ss1\<lparr>finished := True\<rparr>, Inl Eos) else (st1, ss1, Inr t)))"


section \<open>Several tokens by guessing\<close>

text \<open>The draft model, one guess at a time; with its distributions when sampling.\<close>

fun propose_with_model :: "'f fops \<Rightarrow> ('s, 'f) backend \<Rightarrow> 'f sampling_params \<Rightarrow> nat \<Rightarrow> 's \<Rightarrow> 's seq_state \<Rightarrow>
    token list \<Rightarrow> u64 \<Rightarrow> token list \<Rightarrow> 'f cand list list \<Rightarrow>
    's \<times> 's seq_state \<times> u64 \<times> 'f cand list list \<times> token list res" where
  "propose_with_model F be p 0 st sq probe r guesses dists = (st, sq, r, dists, Inr guesses)"
| "propose_with_model F be p (Suc n) st sq probe r guesses dists =
     (case be_logits be probe st sq of
        (st1, sq1, Inl e) \<Rightarrow> (st1, sq1, r, dists, Inl e)
      | (st1, sq1, Inr l) \<Rightarrow>
          if is_greedy F p
          then (case sample F l p r of
                  (r1, Inl e) \<Rightarrow> (st1, sq1, r1, dists, Inl e)
                | (r1, Inr t) \<Rightarrow>
                    propose_with_model F be p n st1 sq1 (probe @ [t]) r1 (guesses @ [t]) dists)
          else
            let cs = candidates_of F l p; tot = fsum F (map snd cs) in
            if cs = [] \<or> fle F tot (fzero F) then (st1, sq1, r, dists, Inr guesses)
            else case draw_token F cs r of (r1, t) \<Rightarrow>
              propose_with_model F be p n st1 sq1 (probe @ [t]) r1 (guesses @ [t]) (dists @ [cs]))"

text \<open>The verdict on answer \<open>i\<close>: whether the guess was kept, and the token, or a failure.\<close>

definition judge :: "'f fops \<Rightarrow> 'f sampling_params \<Rightarrow> token list \<Rightarrow> 'f cand list list \<Rightarrow> nat \<Rightarrow> 'f list \<Rightarrow> u64 \<Rightarrow>
    u64 \<times> (bool \<times> token) option" where
  "judge F p draft dists i answer r =
     (if i \<ge> length draft
      then case sample F answer p r of (r1, Inl _) \<Rightarrow> (r1, None) | (r1, Inr t) \<Rightarrow> (r1, Some (False, t))
      else if is_greedy F p
      then case sample F answer p r of (r1, Inl _) \<Rightarrow> (r1, None) | (r1, Inr t) \<Rightarrow> (r1, Some (t = draft ! i, t))
      else
        let cs = candidates_of F answer p
        in if cs = [] then (r, None)
           else case verify_against F cs (draft ! i)
                  (if i < length dists then Some (dists ! i) else None) r of
             (r1, kept, t) \<Rightarrow> (r1, Some (kept, t)))"

fun judge_all :: "'f fops \<Rightarrow> ('s, 'f) runtime \<Rightarrow> 'f sampling_params \<Rightarrow> token list \<Rightarrow> 'f cand list list \<Rightarrow> nat \<Rightarrow>
    'f list list \<Rightarrow> ('s, 'g) session \<Rightarrow> token list \<Rightarrow> ('s, 'g) session \<times> token list \<times> stop_reason option" where
  "judge_all F rt p draft dists i [] ss out = (ss, out, None)"
| "judge_all F rt p draft dists i (answer # answers) ss out =
     (case judge F p draft dists i answer (rng ss) of
        (r, None) \<Rightarrow> (ss\<lparr>rng := r\<rparr>, out, Some ContextFull)
      | (r, Some (kept, t)) \<Rightarrow>
          let ss1 = ss\<lparr>rng := r, ss_context := ss_context ss @ [t]\<rparr>
          in if ends_turn rt t then (ss1, out, Some Eos)
             else if \<not> kept then (ss1, out @ [t], None)
             else if generated ss1 \<ge> max_tokens p then (ss1, out @ [t], Some Length)
             else judge_all F rt p draft dists (Suc i) answers ss1 (out @ [t]))"

text \<open>How many guesses to ask for, and the guesses.\<close>

definition spec_budget :: "'g gain_ops \<Rightarrow> nat \<Rightarrow> ('s, 'g) session \<Rightarrow> ('s, 'g) session \<times> nat" where
  "spec_budget G lookahead ss =
     (if g_losing G (spec_gain ss) \<and> spec_idle ss < 16 then (ss\<lparr>spec_idle := Suc (spec_idle ss)\<rparr>, 0)
      else (ss\<lparr>spec_idle := 0\<rparr>, min (g_want G (spec_gain ss) + 1) lookahead))"

definition make_draft :: "'f fops \<Rightarrow> ('s, 'f) runtime \<Rightarrow> 'f sampling_params \<Rightarrow> nat \<Rightarrow> nat \<Rightarrow> 's \<Rightarrow> ('s, 'g) session \<Rightarrow>
    's \<times> ('s, 'f) runtime \<times> ('s, 'g) session \<times> 'f cand list list \<times> token list" where
  "make_draft F rt p budget room st ss =
     (case rt_drafter rt of
        Some (be, kv) \<Rightarrow>
          if 0 < budget then
            let (rt1, sq) = (case draft_seq ss of
                  Some sq \<Rightarrow> (rt, sq)
                | None \<Rightarrow> (case fresh_seq_id rt of (rt1, sid) \<Rightarrow> (rt1, seq_new kv sid)))
            in case propose_with_model F be p (min budget room) st sq (ss_context ss) (rng ss) [] [] of
                 (st1, sq1, r, dists, Inl _) \<Rightarrow> (st1, rt1, ss\<lparr>draft_seq := Some sq1, rng := r\<rparr>, [], [])
               | (st1, sq1, r, dists, Inr d) \<Rightarrow> (st1, rt1, ss\<lparr>draft_seq := Some sq1, rng := r\<rparr>, dists, d)
          else (st, rt, ss, [], draft_from_context (ss_context ss) (min budget room) 4)
      | None \<Rightarrow> (st, rt, ss, [], draft_from_context (ss_context ss) (min budget room) 4))"

text \<open>After the verdicts: keep score, give back the positions of guesses that were thrown away.\<close>

definition settle :: "'g gain_ops \<Rightarrow> 's \<Rightarrow> ('s, 'g) session \<Rightarrow> nat \<Rightarrow> token list \<Rightarrow> token list \<Rightarrow> stop_reason option \<Rightarrow>
    's \<times> ('s, 'g) session \<times> (stop_reason + unit)" where
  "settle G st ss base draft out stop =
     (let ss1 = (if draft \<noteq> []
                 then ss\<lparr>spec_gain := g_blend G (spec_gain ss) (length out + (if stop \<noteq> None then 1 else 0) - 1)\<rparr>
                 else ss)
      in case seq_truncate st (ss_seq ss1) (length (ss_context ss1) - 1) of
           (st1, sq, Inl _) \<Rightarrow> (st1, ss1\<lparr>ss_seq := sq, finished := True\<rparr>, Inl ContextFull)
         | (st1, sq, Inr _) \<Rightarrow>
             let (st2, ds) = (case draft_seq ss1 of
                    None \<Rightarrow> (st1, None)
                  | Some d \<Rightarrow>
                      (case seq_truncate st1 d (base + min (length out - 1) (length draft)) of
                         (st2, d1, Inl _) \<Rightarrow> (seq_drop st2 d1, None)
                       | (st2, d1, Inr _) \<Rightarrow> (st2, Some d1)));
                 ss2 = ss1\<lparr>ss_seq := sq, draft_seq := ds\<rparr>
             in (case stop of
                   Some reason \<Rightarrow> (st2, ss2\<lparr>finished := True\<rparr>, Inl reason)
                 | None \<Rightarrow> (st2, ss2, Inr ())))"

definition next_tokens_speculative :: "'f fops \<Rightarrow> 'g gain_ops \<Rightarrow> ('s, 'f) runtime \<Rightarrow> 'f sampling_params \<Rightarrow> nat \<Rightarrow>
    's \<Rightarrow> ('s, 'g) session \<Rightarrow> token list \<Rightarrow>
    's \<times> ('s, 'f) runtime \<times> ('s, 'g) session \<times> token list \<times> (stop_reason + unit)" where
  "next_tokens_speculative F G rt p lookahead st ss out =
     (if lookahead = 0 \<or> \<not> be_speculation (rt_backend rt)
      then case next_token F rt p st ss of
        (st1, ss1, Inl e) \<Rightarrow> (st1, rt, ss1, out, Inl e)
      | (st1, ss1, Inr t) \<Rightarrow> (st1, rt, ss1, out @ [t], Inr ())
      else if finished ss then (st, rt, ss, out, Inl Length)
      else if generated ss \<ge> max_tokens p then (st, rt, ss\<lparr>finished := True\<rparr>, out, Inl Length)
      else if length (ss_context ss) \<ge> max_context rt then (st, rt, ss\<lparr>finished := True\<rparr>, out, Inl ContextFull)
      else
        let room = min (max_tokens p - generated ss) (max_context rt - length (ss_context ss)) - 1;
            (ss0, budget) = spec_budget G lookahead ss
        in case make_draft F rt p budget room st ss0 of (st1, rt1, ss1, dists, draft) \<Rightarrow>
          (case be_logits_multi (rt_backend rt) (ss_context ss1 @ draft) st1 (ss_seq ss1) (Suc (length draft)) of
             (st2, sq, Inl _) \<Rightarrow> (st2, rt1, ss1\<lparr>ss_seq := sq, finished := True\<rparr>, out, Inl ContextFull)
           | (st2, sq, Inr answers) \<Rightarrow>
               (case judge_all F rt p draft dists 0 answers (ss1\<lparr>ss_seq := sq\<rparr>) out of (ss2, out1, stop) \<Rightarrow>
                  (case settle G st2 ss2 (length (ss_context ss1)) draft out1 stop of (st3, ss3, r) \<Rightarrow>
                     (st3, rt1, ss3, out1, r)))))"


section \<open>A batch\<close>

definition retire :: "('s, 'f) runtime \<Rightarrow> ('s, 'g) session \<Rightarrow> 'f sampling_params \<Rightarrow> ('s, 'g) session \<times> stop_reason option" where
  "retire rt ss p =
     (if finished ss then (ss, Some Length)
      else if generated ss \<ge> max_tokens p then (ss\<lparr>finished := True\<rparr>, Some Length)
      else if length (ss_context ss) \<ge> max_context rt then (ss\<lparr>finished := True\<rparr>, Some ContextFull)
      else (ss, None))"

text \<open>What is done with one live sequence's logits.\<close>

definition take_logits :: "'f fops \<Rightarrow> ('s, 'f) runtime \<Rightarrow> 'f sampling_params \<Rightarrow> 'f list \<Rightarrow> ('s, 'g) session \<Rightarrow>
    ('s, 'g) session \<times> (stop_reason + token)" where
  "take_logits F rt p l ss =
     (case sample F l p (rng ss) of
        (r, Inl _) \<Rightarrow> (ss\<lparr>rng := r, finished := True\<rparr>, Inl ContextFull)
      | (r, Inr t) \<Rightarrow>
          let ss1 = ss\<lparr>rng := r, ss_context := ss_context ss @ [t]\<rparr>
          in if ends_turn rt t then (ss1\<lparr>finished := True\<rparr>, Inl Eos) else (ss1, Inr t))"

text \<open>The live ones' sequences put back, and each then stepped or finished by the logits.\<close>

fun put_seqs :: "(('s, 'g) session \<times> stop_reason option) list \<Rightarrow> 's seq_state list \<Rightarrow>
    (('s, 'g) session \<times> stop_reason option) list" where
  "put_seqs [] sqs = []"
| "put_seqs ((ss, Some e) # xs) sqs = (ss, Some e) # put_seqs xs sqs"
| "put_seqs ((ss, None) # xs) [] = (ss, None) # put_seqs xs []"
| "put_seqs ((ss, None) # xs) (sq # sqs) = (ss\<lparr>ss_seq := sq\<rparr>, None) # put_seqs xs sqs"

fun use_logits :: "'f fops \<Rightarrow> ('s, 'f) runtime \<Rightarrow> (('s, 'g) session \<times> stop_reason option) list \<Rightarrow>
    'f sampling_params list \<Rightarrow> 'f list list \<Rightarrow> (('s, 'g) session \<times> (stop_reason + token)) list" where
  "use_logits F rt ((ss, Some e) # xs) (p # ps) ls = (ss, Inl e) # use_logits F rt xs ps ls"
| "use_logits F rt ((ss, None) # xs) (p # ps) (l # ls) = take_logits F rt p l ss # use_logits F rt xs ps ls"
| "use_logits F rt _ _ _ = []"

fun step_alone :: "'f fops \<Rightarrow> ('s, 'f) runtime \<Rightarrow> 's \<Rightarrow> (('s, 'g) session \<times> stop_reason option) list \<Rightarrow>
    'f sampling_params list \<Rightarrow> 's \<times> (('s, 'g) session \<times> (stop_reason + token)) list" where
  "step_alone F rt st ((ss, Some e) # xs) (p # ps) =
     (case step_alone F rt st xs ps of (st', ys) \<Rightarrow> (st', (ss, Inl e) # ys))"
| "step_alone F rt st ((ss, None) # xs) (p # ps) =
     (case next_token F rt p st ss of (st1, ss1, r) \<Rightarrow>
        (case step_alone F rt st1 xs ps of (st', ys) \<Rightarrow> (st', (ss1, r) # ys)))"
| "step_alone F rt st _ _ = (st, [])"

definition next_token_batch :: "'f fops \<Rightarrow> ('s, 'f) runtime \<Rightarrow> 's \<Rightarrow> ('s, 'g) session list \<Rightarrow> 'f sampling_params list \<Rightarrow>
    's \<times> (('s, 'g) session \<times> (stop_reason + token)) list" where
  "next_token_batch F rt st sessions ps =
     (let xs = map (\<lambda>(ss, p). retire rt ss p) (zip sessions ps);
          live = map (\<lambda>(ss, _). (ss_context ss, ss_seq ss)) (filter (\<lambda>x. snd x = None) xs)
      in if live = [] then (st, use_logits F rt xs ps [])
         else case be_logits_batch (rt_backend rt) live st of
           (st1, sqs, Inl _) \<Rightarrow> step_alone F rt st1 (put_seqs xs sqs) ps
         | (st1, sqs, Inr ls) \<Rightarrow> (st1, use_logits F rt (put_seqs xs sqs) ps ls))"

end
