(* ===== verification/Decoding.thy ===== *)
theory Decoding
  imports Runtime
begin

text \<open>
  What the decode loop of \<open>garuda/src/runtime/mod.rs\<close> answers. A backend is described by
  the function of the context it computes (\<open>model\<close>) and by what it means for a sequence to
  hold a context (\<open>reads\<close>); \<open>serves\<close> is that contract. Against it, plain decoding,
  decoding with guesses and decoding in a batch are one and the same function of the context,
  \<open>decode_ref\<close>.
\<close>

section \<open>The contract of a backend\<close>

definition ends_with_model :: "(token list \<Rightarrow> 'f list) \<Rightarrow> token list \<Rightarrow> nat \<Rightarrow> 'f list list" where
  "ends_with_model model ctx n = map (\<lambda>i. model (take (length ctx - n + Suc i) ctx)) [0..<n]"

text \<open>
  A sequence that holds a context answers for any longer one, and then holds that; a cut
  that succeeds leaves it holding the shorter context.
\<close>

definition serves :: "('s, 'f) backend \<Rightarrow> (token list \<Rightarrow> 'f list) \<Rightarrow> ('s \<Rightarrow> 's seq_state \<Rightarrow> token list \<Rightarrow> bool) \<Rightarrow>
    nat \<Rightarrow> bool" where
  "serves be model reads maxc \<longleftrightarrow>
     (\<forall>ctx. model ctx \<noteq> []) \<and>
     (\<forall>st sq ctx ext. reads st sq ctx \<longrightarrow> ext \<noteq> [] \<longrightarrow> length (ctx @ ext) \<le> maxc \<longrightarrow>
        (\<exists>st' sq'. be_logits be (ctx @ ext) st sq = (st', sq', Inr (model (ctx @ ext))) \<and> reads st' sq' (ctx @ ext))) \<and>
     (\<forall>st sq ctx ext. reads st sq ctx \<longrightarrow> ext \<noteq> [] \<longrightarrow> length (ctx @ ext) \<le> maxc \<longrightarrow>
        (\<exists>st' sq' v. be_hidden be (ctx @ ext) st sq = (st', sq', Inr v) \<and> reads st' sq' (ctx @ ext))) \<and>
     (\<forall>st sq ctx ext n. reads st sq ctx \<longrightarrow> 0 < n \<longrightarrow> n \<le> length ext \<longrightarrow> length (ctx @ ext) \<le> maxc \<longrightarrow>
        (\<exists>st' sq'. be_logits_multi be (ctx @ ext) st sq n = (st', sq', Inr (ends_with_model model (ctx @ ext) n)) \<and>
           reads st' sq' (ctx @ ext))) \<and>
     (\<forall>st sq ctx n st' sq'. reads st sq ctx \<longrightarrow> n \<le> length ctx \<longrightarrow>
        seq_truncate st sq n = (st', sq', Inr ()) \<longrightarrow> reads st' sq' (take n ctx))"

text \<open>
  The sequences a draft model works on, those in \<open>mine\<close>, are other sequences: what is
  done with them disturbs no sequence of the main model.
\<close>

definition others_apart :: "('s \<Rightarrow> 's seq_state \<Rightarrow> token list \<Rightarrow> bool) \<Rightarrow> ('s seq_state \<Rightarrow> bool) \<Rightarrow> bool" where
  "others_apart reads mine \<longleftrightarrow>
     (\<forall>st sq ctx d n st' d' r. reads st sq ctx \<longrightarrow> mine d \<longrightarrow> seq_truncate st d n = (st', d', r) \<longrightarrow>
        reads st' sq ctx \<and> mine d') \<and>
     (\<forall>st sq ctx d. reads st sq ctx \<longrightarrow> mine d \<longrightarrow> reads (seq_drop st d) sq ctx)"

definition drafts_apart :: "('s, 'f) backend \<Rightarrow> ('s \<Rightarrow> 's seq_state \<Rightarrow> token list \<Rightarrow> bool) \<Rightarrow> ('s seq_state \<Rightarrow> bool) \<Rightarrow> bool" where
  "drafts_apart be reads mine \<longleftrightarrow>
     (\<forall>st sq ctx d probe st' d' r. reads st sq ctx \<longrightarrow> mine d \<longrightarrow> be_logits be probe st d = (st', d', r) \<longrightarrow>
        reads st' sq ctx \<and> mine d')"

definition drafting_apart :: "('s, 'f) runtime \<Rightarrow> ('s \<Rightarrow> 's seq_state \<Rightarrow> token list \<Rightarrow> bool) \<Rightarrow> ('s seq_state \<Rightarrow> bool) \<Rightarrow>
    ('s, 'g) session \<Rightarrow> bool" where
  "drafting_apart rt reads mine ss \<longleftrightarrow> others_apart reads mine \<and>
     (\<forall>be kv. rt_drafter rt = Some (be, kv) \<longrightarrow>
        drafts_apart be reads mine \<and> (\<forall>sid \<ge> next_seq rt. mine (seq_new kv sid))) \<and>
     (\<forall>d. draft_seq ss = Some d \<longrightarrow> mine d)"

lemma others_apartD:
  assumes "others_apart reads mine" and "reads st sq ctx" and "mine d"
  shows "seq_truncate st d n = (st', d', r) \<Longrightarrow> reads st' sq ctx \<and> mine d'"
    and "reads (seq_drop st d) sq ctx"
proof -
  note a = assms(1) [unfolded others_apart_def]
  show "seq_truncate st d n = (st', d', r) \<Longrightarrow> reads st' sq ctx \<and> mine d'"
    by (rule a [THEN conjunct1, rule_format, OF assms(2,3)])
  show "reads (seq_drop st d) sq ctx" by (rule a [THEN conjunct2, rule_format, OF assms(2,3)])
qed

lemma drafts_apartD:
  assumes "drafts_apart be reads mine" and "reads st sq ctx" and "mine d"
    and "be_logits be probe st d = (st', d', r)"
  shows "reads st' sq ctx" and "mine d'"
  using assms(1) [unfolded drafts_apart_def, rule_format, OF assms(2-4)] by simp_all

lemma servesD:
  assumes "serves be model reads maxc"
  shows "model ctx \<noteq> []"
    and "reads st sq ctx \<Longrightarrow> ext \<noteq> [] \<Longrightarrow> length (ctx @ ext) \<le> maxc \<Longrightarrow>
        \<exists>st' sq'. be_logits be (ctx @ ext) st sq = (st', sq', Inr (model (ctx @ ext))) \<and> reads st' sq' (ctx @ ext)"
    and "reads st sq ctx \<Longrightarrow> ext \<noteq> [] \<Longrightarrow> length (ctx @ ext) \<le> maxc \<Longrightarrow>
        \<exists>st' sq' v. be_hidden be (ctx @ ext) st sq = (st', sq', Inr v) \<and> reads st' sq' (ctx @ ext)"
    and "reads st sq ctx \<Longrightarrow> 0 < n \<Longrightarrow> n \<le> length ext \<Longrightarrow> length (ctx @ ext) \<le> maxc \<Longrightarrow>
        \<exists>st' sq'. be_logits_multi be (ctx @ ext) st sq n = (st', sq', Inr (ends_with_model model (ctx @ ext) n)) \<and>
           reads st' sq' (ctx @ ext)"
    and "reads st sq ctx \<Longrightarrow> n \<le> length ctx \<Longrightarrow> seq_truncate st sq n = (st', sq', Inr ()) \<Longrightarrow>
        reads st' sq' (take n ctx)"
proof -
  note s = assms [unfolded serves_def]
  show "model ctx \<noteq> []" by (rule conjunct1 [OF s, rule_format])
  show "reads st sq ctx \<Longrightarrow> ext \<noteq> [] \<Longrightarrow> length (ctx @ ext) \<le> maxc \<Longrightarrow>
        \<exists>st' sq'. be_logits be (ctx @ ext) st sq = (st', sq', Inr (model (ctx @ ext))) \<and> reads st' sq' (ctx @ ext)"
    by (rule s [THEN conjunct2, THEN conjunct1, rule_format])
  show "reads st sq ctx \<Longrightarrow> ext \<noteq> [] \<Longrightarrow> length (ctx @ ext) \<le> maxc \<Longrightarrow>
        \<exists>st' sq' v. be_hidden be (ctx @ ext) st sq = (st', sq', Inr v) \<and> reads st' sq' (ctx @ ext)"
    by (rule s [THEN conjunct2, THEN conjunct2, THEN conjunct1, rule_format])
  show "reads st sq ctx \<Longrightarrow> 0 < n \<Longrightarrow> n \<le> length ext \<Longrightarrow> length (ctx @ ext) \<le> maxc \<Longrightarrow>
        \<exists>st' sq'. be_logits_multi be (ctx @ ext) st sq n = (st', sq', Inr (ends_with_model model (ctx @ ext) n)) \<and>
           reads st' sq' (ctx @ ext)"
    by (rule s [THEN conjunct2, THEN conjunct2, THEN conjunct2, THEN conjunct1, rule_format])
  show "reads st sq ctx \<Longrightarrow> n \<le> length ctx \<Longrightarrow> seq_truncate st sq n = (st', sq', Inr ()) \<Longrightarrow>
        reads st' sq' (take n ctx)"
    by (rule s [THEN conjunct2, THEN conjunct2, THEN conjunct2, THEN conjunct2, rule_format])
qed


section \<open>Decoding as a function of the context\<close>

fun decode_ref :: "(token list \<Rightarrow> token) \<Rightarrow> (token \<Rightarrow> bool) \<Rightarrow> nat \<Rightarrow> nat \<Rightarrow> nat \<Rightarrow> token list \<Rightarrow>
    token list \<times> token list \<times> stop_reason option" where
  "decode_ref pick ends limit maxc 0 ctx = (ctx, [], None)"
| "decode_ref pick ends limit maxc (Suc k) ctx =
     (if length ctx \<ge> limit then (ctx, [], Some Length)
      else if length ctx \<ge> maxc then (ctx, [], Some ContextFull)
      else let t = pick ctx in
        if ends t then (ctx @ [t], [], Some Eos)
        else case decode_ref pick ends limit maxc k (ctx @ [t]) of
          (ctx', ts, stop) \<Rightarrow> (ctx', t # ts, stop))"

lemma decode_ref_add:
  "decode_ref pick ends limit maxc (j + k) ctx =
     (case decode_ref pick ends limit maxc j ctx of
        (c, ts, Some e) \<Rightarrow> (c, ts, Some e)
      | (c, ts, None) \<Rightarrow>
          (case decode_ref pick ends limit maxc k c of (c', ts', stop) \<Rightarrow> (c', ts @ ts', stop)))"
  by (induction j arbitrary: ctx) (auto simp: Let_def split: prod.splits option.splits)

text \<open>What the runtime decodes greedily for a request: its choice, its stop tokens, its limit.\<close>

definition greedy_ref :: "'f fops \<Rightarrow> ('s, 'f) runtime \<Rightarrow> 'f sampling_params \<Rightarrow> (token list \<Rightarrow> 'f list) \<Rightarrow> nat \<Rightarrow> nat \<Rightarrow>
    token list \<Rightarrow> token list \<times> token list \<times> stop_reason option" where
  "greedy_ref F rt p model plen k ctx =
     decode_ref (\<lambda>c. greedy_pick F (model c)) (ends_turn rt) (plen + max_tokens p) (max_context rt) k ctx"

lemma greedy_sample: "is_greedy F p \<Longrightarrow> l \<noteq> [] \<Longrightarrow> sample F l p r = (r, Inr (greedy_pick F l))"
  by (simp add: sample_def)

definition ready :: "('s \<Rightarrow> 's seq_state \<Rightarrow> token list \<Rightarrow> bool) \<Rightarrow> 's \<Rightarrow> ('s, 'g) session \<Rightarrow> bool" where
  "ready reads st ss \<longleftrightarrow>
     \<not> finished ss \<and> ss_context ss \<noteq> [] \<and> prompt_len ss \<le> length (ss_context ss) \<and>
     reads st (ss_seq ss) (butlast (ss_context ss))"

lemma ready_logits:
  assumes "serves be model reads maxc" and "ready reads st ss" and "length (ss_context ss) \<le> maxc"
  shows "\<exists>st' sq'. be_logits be (ss_context ss) st (ss_seq ss) = (st', sq', Inr (model (ss_context ss))) \<and>
    reads st' sq' (ss_context ss)"
  using servesD(2) [OF assms(1), of st "ss_seq ss" "butlast (ss_context ss)" "[last (ss_context ss)]"] assms(2,3)
  by (auto simp: ready_def)

lemma generated_limit:
  "ready reads st ss \<Longrightarrow> generated ss \<ge> m \<longleftrightarrow> length (ss_context ss) \<ge> prompt_len ss + m"
  by (auto simp: ready_def generated_def)


section \<open>A round of guesses\<close>

lemma ends_with_model_guesses:
  assumes "ctx \<noteq> []"
  shows "ends_with_model model (ctx @ draft) (Suc (length draft)) =
    map (\<lambda>i. model (ctx @ take i draft)) [0..<Suc (length draft)]"
proof -
  obtain m where "length ctx = Suc m" using assms by (cases ctx) auto
  then show ?thesis unfolding ends_with_model_def by (intro map_cong) auto
qed

text \<open>Judging from guess \<open>i\<close> on, with every earlier guess kept.\<close>

lemma judge_all_greedy:
  assumes "\<forall>c. model c \<noteq> []" and "is_greedy F p"
    and "\<not> prompt_len ss0 + max_tokens p \<le> length ctx + length draft" and "length ctx + length draft < max_context rt"
    and "prompt_len ss0 \<le> length ctx"
    and "i \<le> length draft" and "ss_context ss = ctx @ take i draft" and "prompt_len ss = prompt_len ss0"
    and "judge_all F rt p draft dists i (map (\<lambda>i. model (ctx @ take i draft)) [i..<Suc (length draft)]) ss out =
           (ss', out', stop)"
  shows "\<exists>k toks j. 0 < k \<and> out' = out @ toks \<and> j \<le> length draft \<and>
      greedy_ref F rt p model (prompt_len ss0) k (ctx @ take i draft) = (ss_context ss', toks, stop) \<and>
      ss_context ss' \<noteq> [] \<and> butlast (ss_context ss') = ctx @ take j draft \<and>
      (toks = [] \<longrightarrow> stop = Some Eos) \<and> ss' = ss\<lparr>ss_context := ss_context ss'\<rparr>"
  using assms
proof (induction "length draft - i" arbitrary: i ss out)
  case (0 i ss out)
  then have i: "i = length draft" by simp
  let ?t = "greedy_pick F (model (ctx @ draft))"
  have s: "sample F (model (ctx @ draft)) p (rng ss) = (rng ss, Inr ?t)"
    using "0.prems"(1,2) by (simp add: greedy_sample)
  have ss': "ss' = ss\<lparr>ss_context := ctx @ draft @ [?t]\<rparr>" "out' = (if ends_turn rt ?t then out else out @ [?t])"
    "stop = (if ends_turn rt ?t then Some Eos else None)"
    using "0.prems"(7,9) i by (auto simp: judge_def s Let_def split: if_splits)
  have "greedy_ref F rt p model (prompt_len ss0) 1 (ctx @ draft) =
      (ctx @ draft @ [?t], if ends_turn rt ?t then [] else [?t], stop)"
    using "0.prems"(3,4) ss' by (simp add: greedy_ref_def Let_def)
  then show ?case using ss' i by (intro exI [of _ 1] exI [of _ "if ends_turn rt ?t then [] else [?t]"]
      exI [of _ "length draft"]) (auto simp: butlast_append)
next
  case (Suc n i ss out)
  then have i: "i < length draft" by simp
  let ?c = "ctx @ take i draft"
  let ?t = "greedy_pick F (model ?c)"
  have s: "sample F (model ?c) p (rng ss) = (rng ss, Inr ?t)"
    using Suc.prems(1,2) by (simp add: greedy_sample)
  have upt: "[i..<Suc (length draft)] = i # [Suc i..<Suc (length draft)]" using i by (intro upt_conv_Cons) simp
  let ?rest = "map (\<lambda>i. model (ctx @ take i draft)) [Suc i..<Suc (length draft)]"
  let ?ss1 = "ss\<lparr>ss_context := ?c @ [?t]\<rparr>"
  have one: "greedy_ref F rt p model (prompt_len ss0) (Suc k) ?c =
      (if ends_turn rt ?t then (?c @ [?t], [], Some Eos)
       else case greedy_ref F rt p model (prompt_len ss0) k (?c @ [?t]) of (c, ts, e) \<Rightarrow> (c, ?t # ts, e))" for k
    using Suc.prems(3,4) i by (simp add: greedy_ref_def Let_def)
  have run: "(if ends_turn rt ?t then (?ss1, out, Some Eos)
      else if ?t \<noteq> draft ! i then (?ss1, out @ [?t], None)
      else judge_all F rt p draft dists (Suc i) ?rest ?ss1 (out @ [?t])) = (ss', out', stop)"
  proof -
    define t where "t = ?t"
    have "judge F p draft dists i (model ?c) (rng ss) = (rng ss, Some (t = draft ! i, t))"
      using Suc.prems(2) i by (simp add: judge_def s t_def)
    moreover have "\<not> max_tokens p \<le> generated (ss\<lparr>ss_context := ?c @ [t]\<rparr>)"
      using Suc.prems(3,5,8) i by (simp add: generated_def)
    ultimately have "judge_all F rt p draft dists i (model ?c # ans) ss out =
        (if ends_turn rt t then (ss\<lparr>ss_context := ?c @ [t]\<rparr>, out, Some Eos)
         else if t \<noteq> draft ! i then (ss\<lparr>ss_context := ?c @ [t]\<rparr>, out @ [t], None)
         else judge_all F rt p draft dists (Suc i) ans (ss\<lparr>ss_context := ?c @ [t]\<rparr>) (out @ [t]))" for ans
      using Suc.prems(7) by (cases "t = draft ! i") (simp_all add: Let_def)
    then show ?thesis using Suc.prems(9) unfolding upt list.map t_def [symmetric] by (simp only:)
  qed
  consider "ends_turn rt ?t" | "\<not> ends_turn rt ?t" "?t \<noteq> draft ! i" | "\<not> ends_turn rt ?t" "?t = draft ! i" by blast
  then show ?case
  proof cases
    case 1
    then show ?thesis using run one [of 0] i Suc.prems(7)
      by (intro exI [of _ "Suc 0"] exI [of _ "[]"] exI [of _ i]) (auto simp: butlast_append)
  next
    case 2
    then show ?thesis using run one [of 0] i Suc.prems(7)
      by (intro exI [of _ "Suc 0"] exI [of _ "[?t]"] exI [of _ i]) (auto simp: butlast_append greedy_ref_def)
  next
    case 3
    then have c: "?c @ [?t] = ctx @ take (Suc i) draft" using i by (simp add: take_Suc_conv_app_nth)
    have run': "judge_all F rt p draft dists (Suc i) ?rest ?ss1 (out @ [?t]) = (ss', out', stop)"
      using run 3 by simp
    have "\<exists>k toks j. 0 < k \<and> out' = (out @ [?t]) @ toks \<and> j \<le> length draft \<and>
      greedy_ref F rt p model (prompt_len ss0) k (ctx @ take (Suc i) draft) = (ss_context ss', toks, stop) \<and>
      ss_context ss' \<noteq> [] \<and> butlast (ss_context ss') = ctx @ take j draft \<and>
      (toks = [] \<longrightarrow> stop = Some Eos) \<and> ss' = ?ss1\<lparr>ss_context := ss_context ss'\<rparr>"
      by (rule Suc.hyps(1) [OF _ Suc.prems(1-5) _ _ _ run'])
        (use Suc.hyps(2) Suc.prems(8) i c in simp_all)
    then obtain k toks j where k: "out' = (out @ [?t]) @ toks" "j \<le> length draft"
      "greedy_ref F rt p model (prompt_len ss0) k (ctx @ take (Suc i) draft) = (ss_context ss', toks, stop)"
      "ss_context ss' \<noteq> []" "butlast (ss_context ss') = ctx @ take j draft"
      "ss' = ?ss1\<lparr>ss_context := ss_context ss'\<rparr>" by blast
    have "greedy_ref F rt p model (prompt_len ss0) (Suc k) ?c = (ss_context ss', ?t # toks, stop)"
      using one [of k] 3(1) k(3) unfolding c by simp
    moreover have "ss' = ss\<lparr>ss_context := ss_context ss'\<rparr>" using k(6) by simp
    ultimately show ?thesis using k(1,2,4,5)
      by (intro exI [of _ "Suc k"] exI [of _ "?t # toks"] exI [of _ j]) simp
  qed
qed

lemma greedy_ref_grows:
  "greedy_ref F rt p model plen k ctx = (ctx', toks, stop) \<Longrightarrow> length ctx \<le> length ctx'"
  unfolding greedy_ref_def
  by (induction k arbitrary: ctx ctx' toks) (fastforce simp: Let_def split: if_splits prod.splits)+

lemma propose_keeps:
  assumes "drafts_apart be reads mine"
  shows "propose_with_model F be p n st sq probe r guesses dists = (st', sq', r', dists', res) \<Longrightarrow>
    reads st msq ctx \<Longrightarrow> mine sq \<Longrightarrow>
    reads st' msq ctx \<and> mine sq' \<and> (\<forall>d. res = Inr d \<longrightarrow> length d \<le> length guesses + n)"
proof (induction n arbitrary: st sq probe r guesses dists)
  case 0
  then show ?case by auto
next
  case (Suc n)
  obtain st1 sq1 r1 where one: "be_logits be probe st sq = (st1, sq1, r1)" by (metis prod_cases3)
  note k = drafts_apartD [OF assms Suc.prems(2,3) one]
  note ih = Suc.IH [OF _ k]
  show ?case
  proof (cases r1)
    case (Inr l)
    show ?thesis
    proof (cases "is_greedy F p")
      case True
      obtain r2 x where s: "sample F l p r = (r2, x)" by fastforce
      show ?thesis
        using Suc.prems(1) one k Inr True s ih [of "probe @ [projr x]" r2 "guesses @ [projr x]" dists]
        by (cases x) auto
    next
      case False
      obtain r2 t where d: "draw_token F (candidates_of F l p) r = (r2, t)" by fastforce
      show ?thesis
        using Suc.prems(1) one k Inr False d
          ih [of "probe @ [t]" r2 "guesses @ [t]" "dists @ [candidates_of F l p]"]
        by (auto simp: Let_def split: if_splits)
    qed
  qed (use Suc.prems(1) one k in auto)
qed

lemma latest_match_length: "length (latest_match ctx maxt ngram needle n) \<le> maxt"
  by (induction ctx maxt ngram needle n rule: latest_match.induct) (auto simp: Let_def)

lemma draft_from_context_length: "length (draft_from_context ctx maxt ngram) \<le> maxt"
  by (simp add: draft_from_context_def latest_match_length)

definition same_text :: "('s, 'g) session \<Rightarrow> ('s, 'g) session \<Rightarrow> bool" where
  "same_text ss ss' \<longleftrightarrow> ss_context ss' = ss_context ss \<and> ss_seq ss' = ss_seq ss \<and>
     prompt_len ss' = prompt_len ss \<and> finished ss' = finished ss"

lemma make_draft_keeps:
  assumes "make_draft F rt p budget room st ss = (st', rt', ss', dists, draft)"
    and "drafting_apart rt reads mine ss" and "reads st msq ctx"
  shows "reads st' msq ctx \<and> drafting_apart rt' reads mine ss' \<and> length draft \<le> room \<and>
    same_text ss ss' \<and> rt' = rt\<lparr>next_seq := next_seq rt'\<rparr>"
proof (cases "rt_drafter rt = None \<or> budget = 0")
  case True
  then have "st' = st \<and> rt' = rt \<and> ss' = ss \<and> draft = draft_from_context (ss_context ss) (min budget room) 4"
    using assms(1) by (auto simp: make_draft_def split: option.splits)
  then show ?thesis
    using assms(2,3) draft_from_context_length [of "ss_context ss" "min budget room" 4] by (simp add: same_text_def)
next
  case False
  then obtain be kv where be: "rt_drafter rt = Some (be, kv)" "0 < budget" by auto
  have ap: "drafts_apart be reads mine" "\<forall>sid \<ge> next_seq rt. mine (seq_new kv sid)"
    "\<forall>d. draft_seq ss = Some d \<longrightarrow> mine d" "others_apart reads mine"
    using assms(2) be(1) by (simp_all add: drafting_apart_def)
  obtain rt1 sq where sq: "(case draft_seq ss of
                  Some sq \<Rightarrow> (rt, sq)
                | None \<Rightarrow> (case fresh_seq_id rt of (rt1, sid) \<Rightarrow> (rt1, seq_new kv sid))) = (rt1, sq)" by fastforce
  have rt1: "mine sq" "rt1 = rt\<lparr>next_seq := next_seq rt1\<rparr>" "next_seq rt \<le> next_seq rt1" "rt_drafter rt1 = Some (be, kv)"
    using sq ap(2,3) be(1) by (auto simp: fresh_seq_id_def split: option.splits)
  obtain st1 sq1 r d1 res where run: "propose_with_model F be p (min budget room) st sq (ss_context ss) (rng ss) [] []
      = (st1, sq1, r, d1, res)" by (metis prod_cases5)
  note k = propose_keeps [OF ap(1) run assms(3) rt1(1)]
  have out: "st' = st1" "rt' = rt1" "ss' = ss\<lparr>draft_seq := Some sq1, rng := r\<rparr>"
    "draft = (case res of Inr d \<Rightarrow> d | Inl e \<Rightarrow> [])"
    using assms(1) be sq run by (auto simp: make_draft_def split: sum.splits)
  have "length draft \<le> room" using k out(4) by (auto split: sum.splits)
  moreover have "drafting_apart rt' reads mine ss'"
    using ap k out rt1 by (simp add: drafting_apart_def)
  ultimately show ?thesis using k out rt1(2) by (simp add: same_text_def)
qed

lemma settle_keeps:
  assumes "settle G st ss base draft out stop = (st', ss', r)"
    and "drafting_apart rt reads mine ss"
    and "\<And>st' sq'. seq_truncate st (ss_seq ss) (length (ss_context ss) - 1) = (st', sq', Inr ()) \<Longrightarrow>
           reads st' sq' (butlast (ss_context ss))"
  shows "ss_context ss' = ss_context ss \<and> prompt_len ss' = prompt_len ss \<and>
    (r = Inl ContextFull \<and> finished ss' \<or>
     reads st' (ss_seq ss') (butlast (ss_context ss)) \<and> drafting_apart rt reads mine ss' \<and>
     r = (case stop of Some e \<Rightarrow> Inl e | None \<Rightarrow> Inr ()) \<and> finished ss' = (finished ss \<or> stop \<noteq> None))"
proof -
  define ss1 where "ss1 = (if draft \<noteq> []
                 then ss\<lparr>spec_gain := g_blend G (spec_gain ss) (length out + (if stop \<noteq> None then 1 else 0) - 1)\<rparr>
                 else ss)"
  have ss1: "ss_seq ss1 = ss_seq ss" "ss_context ss1 = ss_context ss" "prompt_len ss1 = prompt_len ss"
    "draft_seq ss1 = draft_seq ss" "finished ss1 = finished ss"
    by (simp_all add: ss1_def)
  obtain st1 sq r1 where cut: "seq_truncate st (ss_seq ss) (length (ss_context ss) - 1) = (st1, sq, r1)"
    by (metis prod_cases3)
  show ?thesis
  proof (cases r1)
    case (Inl e)
    then have "ss' = ss1\<lparr>ss_seq := sq, finished := True\<rparr>" "r = Inl ContextFull"
      using assms(1) cut ss1 by (simp_all add: settle_def ss1_def [symmetric])
    then show ?thesis using ss1 by simp
  next
    case (Inr u)
    then have rd: "reads st1 sq (butlast (ss_context ss))" using assms(3) cut by simp
    have ap: "others_apart reads mine" "\<forall>d. draft_seq ss = Some d \<longrightarrow> mine d"
      using assms(2) by (simp_all add: drafting_apart_def)
    define after where "after = (case draft_seq ss1 of
                    None \<Rightarrow> (st1, None)
                  | Some d \<Rightarrow>
                      (case seq_truncate st1 d (base + min (length out - 1) (length draft)) of
                         (st2, d1, Inl _) \<Rightarrow> (seq_drop st2 d1, None)
                       | (st2, d1, Inr _) \<Rightarrow> (st2, Some d1)))"
    obtain st2 ds where after: "after = (st2, ds)" by fastforce
    have keep: "reads st2 sq (butlast (ss_context ss)) \<and> (\<forall>d. ds = Some d \<longrightarrow> mine d)"
    proof (cases "draft_seq ss")
      case (Some d)
      then have d: "mine d" using ap(2) by simp
      obtain st3 d1 r3 where t: "seq_truncate st1 d (base + min (length out - 1) (length draft)) = (st3, d1, r3)"
        by (metis prod_cases3)
      note o = others_apartD(1) [OF ap(1) rd d t]
      show ?thesis using after Some t o others_apartD(2) [OF ap(1), of st3 sq _ d1]
        by (cases r3) (auto simp: after_def ss1)
    qed (use after rd in \<open>simp add: after_def ss1\<close>)
    have fin: "st' = st2" "ss' = (if stop = None then ss1\<lparr>ss_seq := sq, draft_seq := ds\<rparr>
        else ss1\<lparr>ss_seq := sq, draft_seq := ds, finished := True\<rparr>)"
      "r = (case stop of Some e \<Rightarrow> Inl e | None \<Rightarrow> Inr ())"
    proof -
      have cut': "seq_truncate st (ss_seq ss1) (length (ss_context ss1) - 1) = (st1, sq, Inr u)"
        using cut Inr ss1 by simp
      have "(st', ss', r) = (case stop of
          Some reason \<Rightarrow> (st2, ss1\<lparr>ss_seq := sq, draft_seq := ds, finished := True\<rparr>, Inl reason)
        | None \<Rightarrow> (st2, ss1\<lparr>ss_seq := sq, draft_seq := ds\<rparr>, Inr ()))"
        using assms(1) unfolding settle_def ss1_def [symmetric] Let_def cut' prod.case sum.case
          after_def [symmetric] after by simp
      then show "st' = st2" "ss' = (if stop = None then ss1\<lparr>ss_seq := sq, draft_seq := ds\<rparr>
        else ss1\<lparr>ss_seq := sq, draft_seq := ds, finished := True\<rparr>)"
        "r = (case stop of Some e \<Rightarrow> Inl e | None \<Rightarrow> Inr ())" by (simp_all split: option.splits)
    qed
    have "drafting_apart rt reads mine ss'"
      using assms(2) keep fin(2) by (simp add: drafting_apart_def)
    then show ?thesis using keep fin ss1 by auto
  qed
qed


section \<open>A batch\<close>

text \<open>
  The contract of a batched pass: one answer per sequence, in order, each the model's for that
  sequence's own context, and each sequence then holding its context.
\<close>

definition serves_batch :: "('s, 'f) backend \<Rightarrow> (token list \<Rightarrow> 'f list) \<Rightarrow> ('s \<Rightarrow> 's seq_state \<Rightarrow> token list \<Rightarrow> bool) \<Rightarrow>
    nat \<Rightarrow> bool" where
  "serves_batch be model reads maxc \<longleftrightarrow>
     (\<forall>live st. list_all (\<lambda>(ctx, sq). ctx \<noteq> [] \<and> length ctx \<le> maxc \<and> reads st sq (butlast ctx)) live \<longrightarrow>
        (\<exists>st' sqs. be_logits_batch be live st = (st', sqs, Inr (map (\<lambda>(ctx, sq). model ctx) live)) \<and>
           list_all2 (\<lambda>(ctx, sq) sq'. reads st' sq' ctx) live sqs))"

text \<open>What one session's step answers, as a function of the model alone.\<close>

definition step_ref :: "'f fops \<Rightarrow> ('s, 'f) runtime \<Rightarrow> (token list \<Rightarrow> 'f list) \<Rightarrow> 'f sampling_params \<Rightarrow> ('s, 'g) session \<Rightarrow>
    ('s, 'g) session \<times> (stop_reason + token)" where
  "step_ref F rt model p ss =
     (case retire rt ss p of
        (ss1, Some e) \<Rightarrow> (ss1, Inl e)
      | (ss1, None) \<Rightarrow> take_logits F rt p (model (ss_context ss1)) ss1)"

definition same_step :: "('s, 'g) session \<times> (stop_reason + token) \<Rightarrow> ('s, 'g) session \<times> (stop_reason + token) \<Rightarrow> bool" where
  "same_step x y \<longleftrightarrow> snd x = snd y \<and> (\<exists>sq. fst x = fst y\<lparr>ss_seq := sq\<rparr>)"

lemma take_logits_seq:
  "take_logits F rt p l (ss\<lparr>ss_seq := sq\<rparr>) =
     (case take_logits F rt p l ss of (ss', r) \<Rightarrow> (ss'\<lparr>ss_seq := sq\<rparr>, r))"
  by (auto simp: take_logits_def Let_def split: prod.split sum.split)

lemma retire_None: "retire rt ss p = (ss1, None) \<Longrightarrow> ss1 = ss \<and> \<not> finished ss \<and> length (ss_context ss) < max_context rt"
  by (auto simp: retire_def split: if_splits)

lemma next_token_step_ref:
  assumes "serves (rt_backend rt) model reads (max_context rt)"
    and "ss_context ss \<noteq> []" and "reads st (ss_seq ss) (butlast (ss_context ss))"
  shows "case next_token F rt p st ss of (st', x) \<Rightarrow> same_step x (step_ref F rt model p ss)"
proof (cases "retire rt ss p")
  case (Pair ss1 e)
  show ?thesis
  proof (cases e)
    case (Some r)
    then show ?thesis using Pair
      by (auto simp: step_ref_def retire_def next_token_def same_step_def split: if_splits intro: exI [of _ "ss_seq ss"])
  next
    case None
    note live = retire_None [OF Pair [unfolded None]]
    obtain st' sq' where run: "be_logits (rt_backend rt) (ss_context ss) st (ss_seq ss) =
        (st', sq', Inr (model (ss_context ss)))"
      using servesD(2) [OF assms(1,3), of "[last (ss_context ss)]"] live assms(2) by auto
    have "next_token F rt p st ss = (st', take_logits F rt p (model (ss_context ss)) (ss\<lparr>ss_seq := sq'\<rparr>))"
      using Pair None run
      by (auto simp: retire_def next_token_def take_logits_def Let_def split: if_splits prod.splits sum.splits)
    then show ?thesis using Pair None live
      by (auto simp: step_ref_def take_logits_seq same_step_def split: prod.splits)
  qed
qed

lemma use_logits_put:
  assumes "list_all2 (\<lambda>(ctx, sq) sq'. reads st' sq' ctx)
      (map (\<lambda>(ss, _). (ss_context ss, ss_seq ss)) (filter (\<lambda>x. snd x = None) xs)) sqs"
    and "length xs = length ps"
  shows "list_all2 same_step
      (use_logits F rt (put_seqs xs sqs) ps
        (map (\<lambda>(ctx, sq). model ctx) (map (\<lambda>(ss, _). (ss_context ss, ss_seq ss)) (filter (\<lambda>x. snd x = None) xs))))
      (map2 (\<lambda>(ss, e) p. case e of Some e \<Rightarrow> (ss, Inl e) | None \<Rightarrow> take_logits F rt p (model (ss_context ss)) ss) xs ps)"
  using assms
proof (induction xs sqs arbitrary: ps rule: put_seqs.induct)
  case (2 ss e xs sqs)
  then obtain p ps' where "ps = p # ps'" by (cases ps) auto
  with 2 show ?case by (auto simp: same_step_def intro: exI [of _ "ss_seq ss"])
next
  case (4 ss xs sq sqs)
  then obtain p ps' where "ps = p # ps'" by (cases ps) auto
  with 4 show ?case by (auto simp: same_step_def take_logits_seq split: prod.splits)
qed auto

lemma put_seqs_none: "filter (\<lambda>x. snd x = None) xs = [] \<Longrightarrow> put_seqs xs sqs = xs"
  by (induction xs sqs rule: put_seqs.induct) (auto split: if_splits)


section \<open>Absorbing a prompt\<close>

lemma pc_insert_live:
  assumes "pc_insert h st c tokens s = (st', c')" and "pc_inv c" and "\<not> seq_has_spill s"
  shows "st' = st \<and> pc_inv c'"
proof (cases "seq_resident_bytes s \<le> pc_budget c")
  case True
  then show ?thesis using pc_insert_spec [OF assms(1,2,3)] by simp
next
  case False
  then show ?thesis using assms seq_drop_no_spill [OF assms(3), of st] by (auto simp: pc_insert_def)
qed

lemma advance_prefill_steps:
  assumes "advance_prefill h rt st pd maxt = (st', rt', pd', r)" and "pc_inv (rt_prompt_cache rt)"
  shows "pc_inv (rt_prompt_cache rt') \<and> pd_context pd' = pd_context pd \<and>
    rt' = rt\<lparr>rt_prompt_cache := rt_prompt_cache rt'\<rparr> \<and>
    (r = Inr False \<longrightarrow> remaining pd' < remaining pd)"
proof (cases "consumed pd \<ge> length (pd_context pd) - 1")
  case True
  then show ?thesis using assms by (auto simp: advance_prefill_def)
next
  case False
  define target where "target = min (length (pd_context pd) - 1) (consumed pd + max maxt 1)"
  have more: "consumed pd < target" using False by (auto simp: target_def)
  obtain st1 sq x where run: "be_hidden (rt_backend rt) (take target (pd_context pd)) st (pd_seq pd) = (st1, sq, x)"
    by (metis prod_cases3)
  obtain st2 c where ins: "pc_insert h st1 (rt_prompt_cache rt) (take (length (pd_context pd) - 1) (pd_context pd)) sq = (st2, c)"
    by fastforce
  show ?thesis
    using assms False more run ins pc_insert_live [OF ins assms(2)]
    by (auto simp: advance_prefill_def Let_def target_def [symmetric] remaining_def simp del: One_nat_def
        split: sum.splits if_splits)
qed

lemma prefill_loop_returns:
  "pc_inv (rt_prompt_cache rt) \<Longrightarrow> \<exists>x. prefill_loop h rt st pd maxt = Some x"
proof (induction "remaining pd" arbitrary: rt st pd rule: less_induct)
  case less
  obtain st1 rt1 pd1 r where one: "advance_prefill h rt st pd maxt = (st1, rt1, pd1, r)" by (metis prod_cases4)
  note s = advance_prefill_steps [OF one less.prems]
  show ?case
  proof (cases "r = Inr False")
    case True
    then have "\<exists>x. prefill_loop h rt1 st1 pd1 maxt = Some x" using less.hyps [of pd1 rt1] s by blast
    then show ?thesis using one True by (subst prefill_loop.simps) simp
  next
    case False
    then show ?thesis using one by (subst prefill_loop.simps) (auto split: sum.splits)
  qed
qed

text \<open>C11 Starting a sequence returns: whatever the backend does, whatever the prompt and the parameters,
  \<open>start\<close> neither panics on the prompt cache nor loops; the loop over \<open>advance_prefill\<close> ends for
  every piece size.\<close>

theorem start_returns:
  assumes "pc_inv (rt_prompt_cache rt)"
  shows "(\<exists>x. start F G h rt st prompt p = Some x) \<and>
    (\<forall>pd maxt. \<exists>x. prefill_loop h rt st pd maxt = Some x)"
proof (rule conjI)
  show "\<forall>pd maxt. \<exists>x. prefill_loop h rt st pd maxt = Some x" using prefill_loop_returns [OF assms] by blast
  obtain c r where get: "pc_get h (rt_prompt_cache rt) (butlast prompt) (next_seq rt) = (c, r)" by fastforce
  note g = pc_get_spec [OF get assms]
  have "\<exists>rt1 x. start_incremental F h rt prompt p = Some (rt1, x) \<and> pc_inv (rt_prompt_cache rt1)"
    using assms get g by (cases "entries (rt_prompt_cache rt) (prompt_key h (butlast prompt))")
      (simp_all add: start_incremental_def fresh_seq_id_def Let_def split: sum.split)
  then obtain rt1 x where s: "start_incremental F h rt prompt p = Some (rt1, x)" and "pc_inv (rt_prompt_cache rt1)"
    by blast
  show "\<exists>x. start F G h rt st prompt p = Some x"
  proof (cases x)
    case (Inr pd)
    obtain st2 rt2 y where "prefill_loop h rt1 st pd usize_max = Some (st2, rt2, y)"
      using prefill_loop_returns [OF \<open>pc_inv (rt_prompt_cache rt1)\<close>, of h st pd usize_max] by auto
    then show ?thesis using s Inr by (cases y) (simp_all add: start_def)
  qed (use s in \<open>simp add: start_def\<close>)
qed

definition absorbing :: "('s \<Rightarrow> 's seq_state \<Rightarrow> token list \<Rightarrow> bool) \<Rightarrow> 's \<Rightarrow> 's pending \<Rightarrow> bool" where
  "absorbing reads st pd \<longleftrightarrow> consumed pd < length (pd_context pd) \<and>
     reads st (pd_seq pd) (take (consumed pd) (pd_context pd))"


section \<open>When one sequence of a batch fails\<close>

text \<open>C13 One failing sequence finishes the others: with a backend that batches by the trait's default (one
  after the other) and refuses a context it has already absorbed, as the built-in engine does, a
  failure of the second of two sequences comes after the first has absorbed its token; stepping it
  again alone is refused, and it is reported as out of context and finished, although alone it
  would have answered.\<close>

theorem batch_failure_spreads:
  assumes "be_logits_batch (rt_backend rt) = default_logits_batch (be_logits (rt_backend rt))"
    and "\<forall>ctx st sq. length ctx \<le> seq_len sq \<longrightarrow> (\<exists>st' sq' e. be_logits (rt_backend rt) ctx st sq = (st', sq', Inl e))"
    and "be_logits (rt_backend rt) (ss_context a) st (ss_seq a) = (st1, sqa, Inr l)"
    and "seq_len sqa = length (ss_context a)"
    and "be_logits (rt_backend rt) (ss_context b) st1 (ss_seq b) = (st2, sqb, Inl e)"
    and "retire rt a p = (a, None)" and "retire rt b q = (b, None)"
    and "sample F l p (rng a) = (r, Inr t)" and "\<not> ends_turn rt t"
    and "next_token_batch F rt st [a, b] [p, q] = (st', results)"
  shows "snd (snd (next_token F rt p st a)) = Inr t \<and>
    snd (results ! 0) = Inl ContextFull \<and> finished (fst (results ! 0))"
proof -
  have live: "\<not> finished a" "\<not> max_tokens p \<le> generated a" "\<not> max_context rt \<le> length (ss_context a)"
    using assms(6) by (auto simp: retire_def split: if_splits)
  have alone: "snd (snd (next_token F rt p st a)) = Inr t"
    using live assms(3,8,9) by (simp add: next_token_def Let_def)
  obtain st3 sq3 e3 where again: "be_logits (rt_backend rt) (ss_context a) st2 sqa = (st3, sq3, Inl e3)"
    using assms(2,4) by (metis order_refl)
  have "be_logits_batch (rt_backend rt) [(ss_context a, ss_seq a), (ss_context b, ss_seq b)] st =
      (st2, [sqa, sqb], Inl e)"
    using assms(1,3,5) by simp
  then have "snd (step_alone F rt st2 [(a\<lparr>ss_seq := sqa\<rparr>, None), (b\<lparr>ss_seq := sqb\<rparr>, None)] [p, q]) = results"
    using assms(6,7,10) by (simp add: next_token_batch_def)
  moreover have "next_token F rt p st2 (a\<lparr>ss_seq := sqa\<rparr>) =
      (st3, a\<lparr>ss_seq := sq3, finished := True\<rparr>, Inl ContextFull)"
    using live again by (simp add: next_token_def generated_def)
  ultimately have "results ! 0 = (a\<lparr>ss_seq := sq3, finished := True\<rparr>, Inl ContextFull)"
    by (auto split: prod.splits)
  with alone show ?thesis by simp
qed


section \<open>A backend that counts\<close>

text \<open>
  For the witnesses: a vocabulary of four tokens, the answer to a context the token after its last
  one; the cache holds a length. \<open>brittle\<close> refuses contexts of five tokens.
\<close>

definition count_model :: "token list \<Rightarrow> int list" where
  "count_model ctx = map (\<lambda>i. if i = (unat (last ctx) + 1) mod 4 then 1 else 0) [0..<4]"

definition count_forward :: "(unit, int) forward" where
  "count_forward ctx st sq = (st, sq\<lparr>kvs := map (\<lambda>kv. kv\<lparr>kv_len := length ctx\<rparr>) (kvs sq)\<rparr>, Inr (count_model ctx))"

definition brittle_forward :: "(unit, int) forward" where
  "brittle_forward ctx st sq =
     (if length ctx \<le> seq_len sq \<or> length ctx = 5 then (st, sq, Inl (Inference ''refused''))
      else count_forward ctx st sq)"

definition count_multi :: "token list \<Rightarrow> unit \<Rightarrow> unit seq_state \<Rightarrow> nat \<Rightarrow> unit \<times> unit seq_state \<times> int list list res" where
  "count_multi ctx st sq n = (st, sq, Inr (ends_with_model count_model ctx n))"

definition count_backend :: "(unit, int) backend" where
  "count_backend = \<lparr>be_hidden = count_forward, be_logits = count_forward, be_logits_multi = count_multi,
     be_speculation = True, be_logits_batch = default_logits_batch count_forward\<rparr>"

definition brittle_backend :: "(unit, int) backend" where
  "brittle_backend = \<lparr>be_hidden = brittle_forward, be_logits = brittle_forward, be_logits_multi = count_multi,
     be_speculation = False, be_logits_batch = default_logits_batch brittle_forward\<rparr>"

definition count_kv :: "unit kv_config" where
  "count_kv = mha_config tiny_dims 8 4 None None"

definition count_rt :: "(unit, int) backend \<Rightarrow> (unit, int) runtime" where
  "count_rt be = with_drafter (runtime_new 3 be count_kv 2 64) be count_kv"

definition flat_gain :: "unit gain_ops" where
  "flat_gain = \<lparr>g_start = (), g_losing = (\<lambda>_. False), g_want = (\<lambda>_. 2), g_blend = (\<lambda>_ _. ())\<rparr>"

definition count_session :: "token list \<Rightarrow> (unit, unit) session" where
  "count_session ctx = \<lparr>ss_seq = seq_new count_kv 1, ss_context = ctx, prompt_len = length ctx, rng = 7,
     finished = False, spec_gain = (), spec_idle = 0, draft_seq = None\<rparr>"

definition count_pending :: "token list \<Rightarrow> unit pending" where
  "count_pending ctx = \<lparr>pd_seq = seq_new count_kv 1, pd_context = ctx, consumed = 0, pd_seed = 7, cache_on_finish = True\<rparr>"

lemma count_rt_simps [simp]:
  "rt_backend (count_rt be) = be" "max_context (count_rt be) = 8" "rt_drafter (count_rt be) = Some (be, count_kv)"
  "ends_turn (count_rt be) t \<longleftrightarrow> t = 3" "pc_inv (rt_prompt_cache (count_rt be))"
  by (auto simp: count_rt_def with_drafter_def runtime_new_def count_kv_def mha_config_def ends_turn_def
      pc_inv_def pc_core_def pc_new_def)

lemma count_serves: "serves count_backend count_model (\<lambda>_ _ _. True) m"
  by (simp add: serves_def count_backend_def count_forward_def count_multi_def count_model_def)

lemma count_apart: "drafting_apart (count_rt be) (\<lambda>_ _ _. True) (\<lambda>_. True) ss"
  by (simp add: drafting_apart_def others_apart_def drafts_apart_def)

lemma count_ready: "ctx \<noteq> [] \<Longrightarrow> ready (\<lambda>_ _ _. True) st (count_session ctx)"
  by (simp add: ready_def count_session_def)

lemma cold_greedy [simp]: "is_greedy int_ops cold"
  by (simp add: is_greedy_def int_ops_def cold_def)

lemma default_batch_count:
  "\<exists>sqs. default_logits_batch count_forward live st = (st, sqs, Inr (map (\<lambda>(ctx, sq). count_model ctx) live)) \<and>
     length sqs = length live"
proof (induction live)
  case (Cons x live)
  then show ?case by (cases x) (auto simp: count_forward_def)
qed simp

lemma count_serves_batch: "serves_batch count_backend count_model (\<lambda>_ _ _. True) m"
  using default_batch_count by (fastforce simp: serves_batch_def count_backend_def list_all2_conv_all_nth)




lemma start_returns_witness:
  "\<exists>x. start int_ops flat_gain id (count_rt count_backend) () [0, 1, 2] cold = Some x"
  by (rule start_returns [THEN conjunct1]) simp


lemma batch_failure_spreads_witness:
  "let rt = count_rt brittle_backend in
   case next_token_batch int_ops rt () [count_session [0, 1], count_session [0, 1, 2, 0, 1]] [cold, cold] of (st', results) \<Rightarrow>
     snd (snd (next_token int_ops rt cold () (count_session [0, 1]))) = Inr 2 \<and> snd (results ! 0) = Inl ContextFull"
proof -
  let ?rt = "count_rt brittle_backend" and ?a = "count_session [0, 1]" and ?b = "count_session [0, 1, 2, 0, 1]"
  obtain st' results where run: "next_token_batch int_ops ?rt () [?a, ?b] [cold, cold] = (st', results)" by (metis surj_pair)
  have pick: "sample int_ops (count_model [0, 1]) cold 7 = (7, Inr 2)"
  proof -
    have m: "count_model [0, 1] = [0, 0, 1, 0]" by (simp add: count_model_def upt_conv_Cons)
    have "greedy_pick int_ops [0, 0, 1, 0] = 2" by (simp add: greedy_pick_def int_ops_def)
    then show ?thesis by (simp add: m greedy_sample)
  qed
  have len: "seq_len (seq_new count_kv n) = 0" for n
    by (simp add: seq_len_def seq_new_def for_layer_def count_kv_def mha_config_def)
  define sq where "sq = fst (snd (count_forward [0, 1] () (seq_new count_kv 1)))"
  have sqlen: "seq_len sq = 2"
    by (simp add: sq_def count_forward_def seq_len_def seq_new_def count_kv_def mha_config_def)
  have "snd (snd (next_token int_ops ?rt cold () ?a)) = Inr 2 \<and>
      snd (results ! 0) = Inl ContextFull \<and> finished (fst (results ! 0))"
  proof (rule batch_failure_spreads [OF _ _ _ _ _ _ _ _ _ run])
    show "be_logits (rt_backend ?rt) (ss_context ?a) () (ss_seq ?a) = ((), sq, Inr (count_model [0, 1]))"
      by (simp add: brittle_backend_def brittle_forward_def count_session_def len sq_def count_forward_def)
    show "sample int_ops (count_model [0, 1]) cold (rng ?a) = (7, Inr 2)"
      using pick by (simp add: count_session_def)
  qed (auto simp: brittle_backend_def brittle_forward_def count_session_def len sqlen retire_def generated_def cold_def)
  then show ?thesis unfolding Let_def run by simp
qed

end
