(* ===== verification/Scheduler.thy ===== *)
theory Scheduler
  imports Decoding
begin

text \<open>
  \<open>garuda/src/scheduler/mod.rs\<close>: submission under a per-user limit, the priority queue,
  admission, prefill in pieces, batched decoding, and the worker loop as a state machine. A
  request is named by its sequence number, which stands for its event channel too; a permit is
  the number of the semaphore it was taken from. What the outside does (clients hanging up,
  the clock, how long a pass took) is the record \<open>env\<close>, a new one at each step.
\<close>

section \<open>Requests\<close>

datatype priority = Low | Normal | High

definition priority_rank :: "priority \<Rightarrow> nat" where
  "priority_rank p = (case p of Low \<Rightarrow> 0 | Normal \<Rightarrow> 1 | High \<Rightarrow> 2)"

instantiation priority :: linorder
begin

definition less_eq_priority :: "priority \<Rightarrow> priority \<Rightarrow> bool" where
  "less_eq_priority p q \<longleftrightarrow> priority_rank p \<le> priority_rank q"

definition less_priority :: "priority \<Rightarrow> priority \<Rightarrow> bool" where
  "less_priority p q \<longleftrightarrow> priority_rank p < priority_rank q"

instance
  by standard
    (auto simp: less_eq_priority_def less_priority_def priority_rank_def split: priority.splits)

end

definition parse_priority :: "string \<Rightarrow> priority res" where
  "parse_priority s =
     (let t = ascii_lower s in
      if t = ''low'' then Inr Low
      else if t = ''normal'' \<or> t = '''' then Inr Normal
      else if t = ''high'' then Inr High
      else Inl (Config ''unknown priority '{other}' (expected low, normal or high)''))"

record 'f request_spec =
  user_id :: string
  rs_prompt :: "token list"
  rs_params :: "'f sampling_params"
  rs_priority :: priority
  rs_timeout :: nat

datatype stream_event = TokenEv token | DoneEv stop_reason | ErrorEv garuda_error

record 'f request =
  rq_seq :: nat
  rq_spec :: "'f request_spec"
  rq_submitted :: nat
  rq_permit :: nat

text \<open>Higher priority first, and within a priority the older request.\<close>

definition outranks :: "'f request \<Rightarrow> 'f request \<Rightarrow> bool" where
  "outranks a b \<longleftrightarrow>
     rs_priority (rq_spec a) > rs_priority (rq_spec b) \<or>
     rs_priority (rq_spec a) = rs_priority (rq_spec b) \<and> rq_seq a < rq_seq b"

definition heap_pop :: "'f request list \<Rightarrow> ('f request \<times> 'f request list) option" where
  "heap_pop h =
     (case h of
        [] \<Rightarrow> None
      | x # xs \<Rightarrow>
          let m = foldl (\<lambda>m y. if outranks y m then y else m) x xs in Some (m, remove1 m h))"


section \<open>The state\<close>

record sched_config =
  max_concurrent :: nat
  speculative_lookahead :: nat
  queue_capacity :: nat
  max_per_user :: nat

definition default_config :: sched_config where
  "default_config = \<lparr>max_concurrent = 4, speculative_lookahead = 4, queue_capacity = 256, max_per_user = 8\<rparr>"

record sched_counters =
  n_submitted :: nat
  n_completed :: nat
  n_cancelled :: nat
  n_timed_out :: nat
  n_failed :: nat
  rejected_busy :: nat
  rejected_rate_limit :: nat

record 't pacing =
  decode_step :: "'t option"
  prefill_token :: "'t option"

record 't f64_ops =
  d_zero :: 't
  d_alpha :: 't
  d_rest :: 't
  d_add :: "'t \<Rightarrow> 't \<Rightarrow> 't"
  d_mul :: "'t \<Rightarrow> 't \<Rightarrow> 't"
  d_div :: "'t \<Rightarrow> 't \<Rightarrow> 't"
  d_less :: "'t \<Rightarrow> 't \<Rightarrow> bool"
  d_of_nat :: "nat \<Rightarrow> 't"
  d_to_nat :: "'t \<Rightarrow> nat"

record ('s, 'f) prefilling =
  pf_request :: "'f request"
  pf_pending :: "'s pending"
  pf_deadline :: nat

record ('s, 'f, 'g) active =
  ac_request :: "'f request"
  ac_session :: "('s, 'g) session"
  ac_deadline :: nat

text \<open>Where the worker loop is.\<close>

datatype phase = Receiving | Sweeping | Admitting | Absorbing | Decoding

record ('s, 'f, 'g, 't) sched =
  sc_config :: sched_config
  sc_rt :: "('s, 'f) runtime"
  sc_store :: 's
  user_slots :: "(string \<times> nat) list"
  available :: "nat \<Rightarrow> nat"
  next_sem :: nat
  next_rq :: nat
  counters :: sched_counters
  chan :: "'f request list"
  heap :: "'f request list"
  admit :: "'f request list"
  prefilling :: "('s, 'f) prefilling list"
  active :: "('s, 'f, 'g) active list"
  sc_pacing :: "'t pacing"
  sc_phase :: phase
  sent :: "(nat \<times> stream_event) list"
  lost :: nat

text \<open>The arithmetic and the hash, fixed for a run; and what the outside does during a step.\<close>

record ('f, 'g, 't) world =
  w_fops :: "'f fops"
  w_gain :: "'g gain_ops"
  w_hash :: "u8 list \<Rightarrow> u8 list"
  w_time :: "'t f64_ops"

record 't env =
  cancelled :: "nat \<Rightarrow> bool"
  closed :: "nat \<Rightarrow> bool"
  accepts :: "nat \<Rightarrow> nat"
  now :: nat
  prefill_time :: 't
  decode_time :: 't

definition sched_new :: "sched_config \<Rightarrow> ('s, 'f) runtime \<Rightarrow> 's \<Rightarrow> ('s, 'f, 'g, 't) sched" where
  "sched_new c rt st =
     \<lparr>sc_config = c, sc_rt = rt, sc_store = st, user_slots = [], available = (\<lambda>_. 0), next_sem = 0, next_rq = 0,
      counters = \<lparr>n_submitted = 0, n_completed = 0, n_cancelled = 0, n_timed_out = 0, n_failed = 0,
        rejected_busy = 0, rejected_rate_limit = 0\<rparr>,
      chan = [], heap = [], admit = [], prefilling = [], active = [],
      sc_pacing = \<lparr>decode_step = None, prefill_token = None\<rparr>, sc_phase = Receiving, sent = [], lost = 0\<rparr>"

definition count_submitted :: "('s, 'f, 'g, 't) sched \<Rightarrow> ('s, 'f, 'g, 't) sched" where
  "count_submitted s = s\<lparr>counters := (counters s)\<lparr>n_submitted := Suc (n_submitted (counters s))\<rparr>\<rparr>"

definition count_completed :: "('s, 'f, 'g, 't) sched \<Rightarrow> ('s, 'f, 'g, 't) sched" where
  "count_completed s = s\<lparr>counters := (counters s)\<lparr>n_completed := Suc (n_completed (counters s))\<rparr>\<rparr>"

definition count_cancelled :: "('s, 'f, 'g, 't) sched \<Rightarrow> ('s, 'f, 'g, 't) sched" where
  "count_cancelled s = s\<lparr>counters := (counters s)\<lparr>n_cancelled := Suc (n_cancelled (counters s))\<rparr>\<rparr>"

definition count_timed_out :: "('s, 'f, 'g, 't) sched \<Rightarrow> ('s, 'f, 'g, 't) sched" where
  "count_timed_out s = s\<lparr>counters := (counters s)\<lparr>n_timed_out := Suc (n_timed_out (counters s))\<rparr>\<rparr>"

definition count_failed :: "('s, 'f, 'g, 't) sched \<Rightarrow> ('s, 'f, 'g, 't) sched" where
  "count_failed s = s\<lparr>counters := (counters s)\<lparr>n_failed := Suc (n_failed (counters s))\<rparr>\<rparr>"

definition count_busy :: "('s, 'f, 'g, 't) sched \<Rightarrow> ('s, 'f, 'g, 't) sched" where
  "count_busy s = s\<lparr>counters := (counters s)\<lparr>rejected_busy := Suc (rejected_busy (counters s))\<rparr>\<rparr>"

definition count_rate_limit :: "('s, 'f, 'g, 't) sched \<Rightarrow> ('s, 'f, 'g, 't) sched" where
  "count_rate_limit s = s\<lparr>counters := (counters s)\<lparr>rejected_rate_limit := Suc (rejected_rate_limit (counters s))\<rparr>\<rparr>"


section \<open>Submitting\<close>

definition user_semaphore :: "string \<Rightarrow> ('s, 'f, 'g, 't) sched \<Rightarrow> ('s, 'f, 'g, 't) sched \<times> nat" where
  "user_semaphore user s =
     (let m = max_per_user (sc_config s);
          slots = (if length (user_slots s) > 1024
                   then filter (\<lambda>(_, sem). available s sem < m) (user_slots s) else user_slots s)
      in case map_of slots user of
           Some sem \<Rightarrow> (s\<lparr>user_slots := slots\<rparr>, sem)
         | None \<Rightarrow>
             (s\<lparr>user_slots := (user, next_sem s) # slots, available := (available s)(next_sem s := m),
                next_sem := Suc (next_sem s)\<rparr>, next_sem s))"

text \<open>A permit goes back when the request that holds it is dropped.\<close>

definition release :: "'f request \<Rightarrow> ('s, 'f, 'g, 't) sched \<Rightarrow> ('s, 'f, 'g, 't) sched" where
  "release r s = s\<lparr>available := (available s)(rq_permit r := Suc (available s (rq_permit r)))\<rparr>"

text \<open>The rest of a submission, with the semaphore in hand.\<close>

definition submit_with :: "nat \<Rightarrow> 'f request_spec \<Rightarrow> nat \<Rightarrow> ('s, 'f, 'g, 't) sched \<Rightarrow>
    ('s, 'f, 'g, 't) sched \<times> nat res" where
  "submit_with sem spec t s =
     (if available s sem = 0 then (count_rate_limit s, Inl RateLimit)
      else
        let r = \<lparr>rq_seq = next_rq s, rq_spec = spec, rq_submitted = t, rq_permit = sem\<rparr>;
            s1 = s\<lparr>available := (available s)(sem := available s sem - 1), next_rq := Suc (next_rq s)\<rparr>
        in if length (chan s1) \<ge> max (queue_capacity (sc_config s1)) 1
           then (release r (count_busy s1), Inl Busy)
           else (count_submitted (s1\<lparr>chan := chan s1 @ [r]\<rparr>), Inr (rq_seq r)))"

definition submit :: "'f request_spec \<Rightarrow> nat \<Rightarrow> ('s, 'f, 'g, 't) sched \<Rightarrow> ('s, 'f, 'g, 't) sched \<times> nat res" where
  "submit spec t s = (case user_semaphore (user_id spec) s of (s1, sem) \<Rightarrow> submit_with sem spec t s1)"

section \<open>Pacing\<close>

definition blend :: "'t f64_ops \<Rightarrow> 't option \<Rightarrow> 't \<Rightarrow> 't option" where
  "blend D slot x = Some (case slot of
     Some prev \<Rightarrow> d_add D (d_mul D prev (d_rest D)) (d_mul D x (d_alpha D)) | None \<Rightarrow> x)"

definition observe_decode :: "'t f64_ops \<Rightarrow> 't \<Rightarrow> 't pacing \<Rightarrow> 't pacing" where
  "observe_decode D elapsed p = p\<lparr>decode_step := blend D (decode_step p) elapsed\<rparr>"

definition observe_prefill :: "'t f64_ops \<Rightarrow> 't \<Rightarrow> nat \<Rightarrow> 't pacing \<Rightarrow> 't pacing" where
  "observe_prefill D elapsed n p =
     (if 0 < n then p\<lparr>prefill_token := blend D (prefill_token p) (d_div D elapsed (d_of_nat D n))\<rparr> else p)"

text \<open>\<open>clamp\<close> to 1 and 512, 32 while nothing has been measured.\<close>

definition chunk :: "'t f64_ops \<Rightarrow> 't pacing \<Rightarrow> nat" where
  "chunk D p =
     (case (decode_step p, prefill_token p) of
        (Some step, Some per_token) \<Rightarrow>
          if d_less D (d_zero D) per_token then max 1 (min 512 (d_to_nat D (d_div D step per_token))) else 32
      | _ \<Rightarrow> 32)"


section \<open>The worker\<close>

text \<open>
  An event reaches the client unless the receiver is gone: \<open>accepts\<close> is how many more
  events of this step it takes.
\<close>

definition send :: "'t env \<Rightarrow> nat \<Rightarrow> 'f request \<Rightarrow> stream_event \<Rightarrow> ('s, 'f, 'g, 't) sched \<Rightarrow> ('s, 'f, 'g, 't) sched" where
  "send E k r ev s = (if k < accepts E (rq_seq r) then s\<lparr>sent := sent s @ [(rq_seq r, ev)]\<rparr> else s)"

text \<open>Dropping a sequence deletes its spill files.\<close>

definition drop_pending :: "'s pending \<Rightarrow> ('s, 'f, 'g, 't) sched \<Rightarrow> ('s, 'f, 'g, 't) sched" where
  "drop_pending pd s = s\<lparr>sc_store := seq_drop (sc_store s) (pd_seq pd)\<rparr>"

definition drop_session :: "('s, 'g) session \<Rightarrow> ('s, 'f, 'g, 't) sched \<Rightarrow> ('s, 'f, 'g, 't) sched" where
  "drop_session ss s =
     s\<lparr>sc_store := (case draft_seq ss of
          None \<Rightarrow> seq_drop (sc_store s) (ss_seq ss)
        | Some d \<Rightarrow> seq_drop (seq_drop (sc_store s) (ss_seq ss)) d)\<rparr>"

definition receive :: "('s, 'f, 'g, 't) sched \<Rightarrow> ('s, 'f, 'g, 't) sched" where
  "receive s = s\<lparr>heap := heap s @ chan s, chan := [], sc_phase := Sweeping\<rparr>"

definition gone :: "'t env \<Rightarrow> 'f request \<Rightarrow> bool" where
  "gone E r \<longleftrightarrow> cancelled E (rq_seq r) \<or> closed E (rq_seq r)"

fun drop_queued :: "'f request list \<Rightarrow> ('s, 'f, 'g, 't) sched \<Rightarrow> ('s, 'f, 'g, 't) sched" where
  "drop_queued [] s = s"
| "drop_queued (r # rs) s = drop_queued rs (release r (count_cancelled s))"

definition sweep :: "'t env \<Rightarrow> ('s, 'f, 'g, 't) sched \<Rightarrow> ('s, 'f, 'g, 't) sched" where
  "sweep E s =
     drop_queued (filter (gone E) (heap s))
       (s\<lparr>heap := filter (\<lambda>r. \<not> gone E r) (heap s), sc_phase := Admitting\<rparr>)"

lemma foldl_outranks_in: "foldl (\<lambda>m y. if outranks y m then y else m) x xs \<in> set (x # xs)"
proof (induction xs arbitrary: x)
  case (Cons a xs)
  show ?case using Cons [of a] Cons [of x] by auto
qed simp

lemma heap_pop_Some:
  assumes "heap_pop h = Some (m, h')"
  shows "m \<in> set h \<and> h' = remove1 m h"
proof (cases h)
  case (Cons x xs)
  then show ?thesis using assms foldl_outranks_in [of x xs] by (simp add: heap_pop_def Let_def) metis
qed (use assms in \<open>simp add: heap_pop_def\<close>)

lemma heap_pop_length: "heap_pop h = Some (m, h') \<Longrightarrow> length h' < length h"
  using heap_pop_Some [of h m h'] by (metis One_nat_def Suc_pred length_pos_if_in_set length_remove1 lessI)

text \<open>Up to \<open>n\<close> from the top of the heap; the ones whose client is gone are skipped.\<close>

function admit_loop :: "'t env \<Rightarrow> nat \<Rightarrow> 'f request list \<Rightarrow> 'f request list \<times> 'f request list \<times> 'f request list" where
  "admit_loop E n h =
     (if n = 0 then ([], [], h)
      else case heap_pop h of
        None \<Rightarrow> ([], [], h)
      | Some (r, h') \<Rightarrow>
          if gone E r then (case admit_loop E n h' of (as, ds, h'') \<Rightarrow> (as, r # ds, h''))
          else (case admit_loop E (n - 1) h' of (as, ds, h'') \<Rightarrow> (r # as, ds, h'')))"
  by pat_completeness auto
termination by (relation "measure (\<lambda>(E, n, h). length h)") (auto dest: heap_pop_length)

declare admit_loop.simps [simp del]

definition max_active :: "('s, 'f, 'g, 't) sched \<Rightarrow> nat" where
  "max_active s = max (max_concurrent (sc_config s)) 1"

definition admit_phase :: "'t env \<Rightarrow> ('s, 'f, 'g, 't) sched \<Rightarrow> ('s, 'f, 'g, 't) sched" where
  "admit_phase E s =
     (case admit_loop E (max_active s - (length (active s) + length (prefilling s))) (heap s) of
        (as, ds, h) \<Rightarrow> drop_queued ds (s\<lparr>admit := as, heap := h, sc_phase := Absorbing\<rparr>))"

text \<open>\<open>None\<close> is a panic of the worker.\<close>

definition admit_one :: "('f, 'g, 't) world \<Rightarrow> 't env \<Rightarrow> 'f request \<Rightarrow> ('s, 'f, 'g, 't) sched \<Rightarrow>
    ('s, 'f, 'g, 't) sched option" where
  "admit_one W E r s =
     (case start_incremental (w_fops W) (w_hash W) (sc_rt s) (rs_prompt (rq_spec r)) (rs_params (rq_spec r)) of
        None \<Rightarrow> None
      | Some (rt, Inl e) \<Rightarrow> Some (release r (send E 0 r (ErrorEv e) (count_failed (s\<lparr>sc_rt := rt\<rparr>))))
      | Some (rt, Inr pd) \<Rightarrow>
          Some (s\<lparr>sc_rt := rt, prefilling := prefilling s @
            [\<lparr>pf_request = r, pf_pending = pd, pf_deadline = rq_submitted r + rs_timeout (rq_spec r)\<rparr>]\<rparr>))"

fun admit_all :: "('f, 'g, 't) world \<Rightarrow> 't env \<Rightarrow> 'f request list \<Rightarrow> ('s, 'f, 'g, 't) sched \<Rightarrow>
    ('s, 'f, 'g, 't) sched option" where
  "admit_all W E [] s = Some s"
| "admit_all W E (r # rs) s = (case admit_one W E r s of None \<Rightarrow> None | Some s1 \<Rightarrow> admit_all W E rs s1)"

text \<open>One pending prompt, a little further; with the tokens absorbed.\<close>

definition advance_one :: "('f, 'g, 't) world \<Rightarrow> 't env \<Rightarrow> nat \<Rightarrow> ('s, 'f) prefilling \<Rightarrow> ('s, 'f, 'g, 't) sched \<Rightarrow>
    ('s, 'f, 'g, 't) sched \<times> nat" where
  "advance_one W E budget p s =
     (let r = pf_request p in
      if cancelled E (rq_seq r)
      then (release r (drop_pending (pf_pending p) (send E 0 r (ErrorEv Cancelled) (count_cancelled s))), 0)
      else if closed E (rq_seq r)
      then (release r (drop_pending (pf_pending p) (count_cancelled s)), 0)
      else if now E \<ge> pf_deadline p
      then (release r (drop_pending (pf_pending p) (send E 0 r (ErrorEv Timeout) (count_timed_out s))), 0)
      else case advance_prefill (w_hash W) (sc_rt s) (sc_store s) (pf_pending p) budget of
        (st, rt, pd, outcome) \<Rightarrow>
          (let s1 = s\<lparr>sc_rt := rt, sc_store := st\<rparr>; n = Runtime.remaining (pf_pending p) - Runtime.remaining pd in
           (case outcome of
              Inr True \<Rightarrow>
                (s1\<lparr>active := active s1 @ [\<lparr>ac_request = r, ac_session = finish_prefill (w_gain W) pd,
                    ac_deadline = pf_deadline p\<rparr>]\<rparr>, n)
            | Inr False \<Rightarrow> (s1\<lparr>prefilling := prefilling s1 @ [p\<lparr>pf_pending := pd\<rparr>]\<rparr>, n)
            | Inl e \<Rightarrow> (release r (drop_pending pd (send E 0 r (ErrorEv e) (count_failed s1))), n))))"

fun advance_list :: "('f, 'g, 't) world \<Rightarrow> 't env \<Rightarrow> nat \<Rightarrow> ('s, 'f) prefilling list \<Rightarrow> ('s, 'f, 'g, 't) sched \<Rightarrow>
    ('s, 'f, 'g, 't) sched \<times> nat" where
  "advance_list W E budget [] s = (s, 0)"
| "advance_list W E budget (p # ps) s =
     (case advance_one W E budget p s of (s1, n) \<Rightarrow>
        (case advance_list W E budget ps s1 of (s2, m) \<Rightarrow> (s2, n + m)))"

definition advance_prefills :: "('f, 'g, 't) world \<Rightarrow> 't env \<Rightarrow> nat \<Rightarrow> ('s, 'f, 'g, 't) sched \<Rightarrow>
    ('s, 'f, 'g, 't) sched \<times> nat" where
  "advance_prefills W E budget s = advance_list W E budget (prefilling s) (s\<lparr>prefilling := []\<rparr>)"

definition absorb_phase :: "('f, 'g, 't) world \<Rightarrow> 't env \<Rightarrow> ('s, 'f, 'g, 't) sched \<Rightarrow> ('s, 'f, 'g, 't) sched option" where
  "absorb_phase W E s =
     (case admit_all W E (admit s) (s\<lparr>admit := []\<rparr>) of
        None \<Rightarrow> None
      | Some s1 \<Rightarrow>
          (let budget = (if active s1 = [] then usize_max else chunk (w_time W) (sc_pacing s1)) in
           case advance_prefills W E budget s1 of (s2, absorbed) \<Rightarrow>
             Some (s2\<lparr>sc_phase := Decoding,
               sc_pacing := (if 0 < absorbed
                 then observe_prefill (w_time W) (prefill_time E) absorbed (sc_pacing s2) else sc_pacing s2)\<rparr>)))"

text \<open>Retiring, between tokens, what was cancelled, abandoned or ran out of time.\<close>

fun sweep_active :: "'t env \<Rightarrow> ('s, 'f, 'g) active list \<Rightarrow> ('s, 'f, 'g, 't) sched \<Rightarrow> ('s, 'f, 'g, 't) sched" where
  "sweep_active E [] s = s"
| "sweep_active E (a # as) s =
     (let r = ac_request a in
      if cancelled E (rq_seq r)
      then sweep_active E as
        (release r (drop_session (ac_session a) (send E 0 r (ErrorEv Cancelled) (count_cancelled s))))
      else if closed E (rq_seq r)
      then sweep_active E as (release r (drop_session (ac_session a) (count_cancelled s)))
      else if now E \<ge> ac_deadline a
      then sweep_active E as
        (release r (drop_session (ac_session a) (send E 0 r (ErrorEv Timeout) (count_timed_out s))))
      else sweep_active E as (s\<lparr>active := active s @ [a]\<rparr>))"

fun send_tokens :: "'t env \<Rightarrow> nat \<Rightarrow> 'f request \<Rightarrow> token list \<Rightarrow> ('s, 'f, 'g, 't) sched \<Rightarrow>
    ('s, 'f, 'g, 't) sched \<times> bool" where
  "send_tokens E k r [] s = (s, False)"
| "send_tokens E k r (t # ts) s =
     (if k < accepts E (rq_seq r) then send_tokens E (Suc k) r ts (send E k r (TokenEv t) s)
      else (count_cancelled s, True))"

text \<open>A single sequence, guessing ahead.\<close>

definition step_alone_spec :: "('f, 'g, 't) world \<Rightarrow> 't env \<Rightarrow> ('s, 'f, 'g) active \<Rightarrow> ('s, 'f, 'g, 't) sched \<Rightarrow>
    ('s, 'f, 'g, 't) sched" where
  "step_alone_spec W E a s =
     (let r = ac_request a in
      case next_tokens_speculative (w_fops W) (w_gain W) (sc_rt s) (rs_params (rq_spec r))
             (speculative_lookahead (sc_config s)) (sc_store s) (ac_session a) [] of
        (st, rt, ss, tokens, outcome) \<Rightarrow>
          (case send_tokens E 0 r tokens (s\<lparr>sc_rt := rt, sc_store := st\<rparr>) of (s1, lostit) \<Rightarrow>
             (case outcome of
                Inr _ \<Rightarrow>
                  if lostit then release r (drop_session ss (s1\<lparr>active := []\<rparr>))
                  else s1\<lparr>active := [a\<lparr>ac_session := ss\<rparr>]\<rparr>
              | Inl reason \<Rightarrow>
                  let s2 = (if lostit then s1 else send E (length tokens) r (DoneEv reason) (count_completed s1))
                  in release r (drop_session ss (s2\<lparr>active := []\<rparr>)))))"

fun deliver :: "'t env \<Rightarrow> ('s, 'f, 'g) active list \<Rightarrow> (('s, 'g) session \<times> (stop_reason + token)) list \<Rightarrow>
    ('s, 'f, 'g, 't) sched \<Rightarrow> ('s, 'f, 'g, 't) sched" where
  "deliver E (a # as) ((ss, Inr t) # os) s =
     (let r = ac_request a in
      if 0 < accepts E (rq_seq r)
      then deliver E as os (send E 0 r (TokenEv t) (s\<lparr>active := active s @ [a\<lparr>ac_session := ss\<rparr>]\<rparr>))
      else deliver E as os (release r (drop_session ss (count_cancelled s))))"
| "deliver E (a # as) ((ss, Inl reason) # os) s =
     deliver E as os
       (release (ac_request a) (drop_session ss (send E 0 (ac_request a) (DoneEv reason) (count_completed s))))"
| "deliver E _ _ s = s"

text \<open>A backend that answers for fewer sequences than it was given makes the indexing panic: \<open>None\<close>.\<close>

definition step_batch :: "('f, 'g, 't) world \<Rightarrow> 't env \<Rightarrow> ('s, 'f, 'g, 't) sched \<Rightarrow>
    (('s, 'f, 'g, 't) sched \<times> bool) option" where
  "step_batch W E s =
     (let s1 = sweep_active E (active s) (s\<lparr>active := []\<rparr>) in
      case active s1 of
        [] \<Rightarrow> Some (s1, False)
      | a # as \<Rightarrow>
          if as = [] \<and> 0 < speculative_lookahead (sc_config s1) then Some (step_alone_spec W E a s1, True)
          else
            (case next_token_batch (w_fops W) (sc_rt s1) (sc_store s1) (map ac_session (a # as))
                    (map (\<lambda>a. rs_params (rq_spec (ac_request a))) (a # as)) of
               (st, results) \<Rightarrow>
                 if length results < length (a # as) then None
                 else Some (deliver E (a # as) results (s1\<lparr>sc_store := st, active := []\<rparr>), True)))"

definition decode_phase :: "('f, 'g, 't) world \<Rightarrow> 't env \<Rightarrow> ('s, 'f, 'g, 't) sched \<Rightarrow> ('s, 'f, 'g, 't) sched option" where
  "decode_phase W E s =
     (case step_batch W E s of
        None \<Rightarrow> None
      | Some (s1, stepped) \<Rightarrow>
          Some (s1\<lparr>sc_phase := Receiving,
            sc_pacing := (if stepped then observe_decode (w_time W) (decode_time E) (sc_pacing s1) else sc_pacing s1)\<rparr>))"

text \<open>A worker that died takes its batch with it: the requests are dropped, with no event and no count.\<close>

fun release_all :: "'f request list \<Rightarrow> ('s, 'f, 'g, 't) sched \<Rightarrow> ('s, 'f, 'g, 't) sched" where
  "release_all [] s = s"
| "release_all (r # rs) s = release_all rs (release r (s\<lparr>lost := Suc (lost s)\<rparr>))"

fun drop_all_pending :: "('s, 'f) prefilling list \<Rightarrow> ('s, 'f, 'g, 't) sched \<Rightarrow> ('s, 'f, 'g, 't) sched" where
  "drop_all_pending [] s = s"
| "drop_all_pending (p # ps) s = drop_all_pending ps (drop_pending (pf_pending p) s)"

fun drop_all_sessions :: "('s, 'f, 'g) active list \<Rightarrow> ('s, 'f, 'g, 't) sched \<Rightarrow> ('s, 'f, 'g, 't) sched" where
  "drop_all_sessions [] s = s"
| "drop_all_sessions (a # as) s = drop_all_sessions as (drop_session (ac_session a) s)"

definition worker_died :: "('s, 'f, 'g, 't) sched \<Rightarrow> ('s, 'f, 'g, 't) sched" where
  "worker_died s =
     release_all (admit s @ map pf_request (prefilling s) @ map ac_request (active s))
       (drop_all_sessions (active s) (drop_all_pending (prefilling s)
         (s\<lparr>admit := [], prefilling := [], active := [], sc_pacing := \<lparr>decode_step = None, prefill_token = None\<rparr>,
            sc_phase := Receiving\<rparr>)))"

text \<open>
  The worker's loop, a phase at a time, with submissions in between. The first phase waits
  while there is nothing to do at all.
\<close>

inductive sched_step :: "('f, 'g, 't) world \<Rightarrow> ('s, 'f, 'g, 't) sched \<Rightarrow> ('s, 'f, 'g, 't) sched \<Rightarrow> bool"
  for W where
  Submit: "submit spec t s = (s', r) \<Longrightarrow> sched_step W s s'"
| Receive: "sc_phase s = Receiving \<Longrightarrow> \<not> (active s = [] \<and> prefilling s = [] \<and> heap s = [] \<and> chan s = []) \<Longrightarrow>
    sched_step W s (receive s)"
| Sweep: "sc_phase s = Sweeping \<Longrightarrow> sched_step W s (sweep E s)"
| Admit: "sc_phase s = Admitting \<Longrightarrow> sched_step W s (admit_phase E s)"
| Absorb: "sc_phase s = Absorbing \<Longrightarrow> absorb_phase W E s = Some s' \<Longrightarrow> sched_step W s s'"
| Decode: "sc_phase s = Decoding \<Longrightarrow> decode_phase W E s = Some s' \<Longrightarrow> sched_step W s s'"
| Died: "sc_phase s \<in> {Absorbing, Decoding} \<Longrightarrow> sched_step W s (worker_died s)"

inductive_cases sched_stepE: "sched_step W s s'"

inductive sched_run :: "('f, 'g, 't) world \<Rightarrow> sched_config \<Rightarrow> ('s, 'f) runtime \<Rightarrow> 's \<Rightarrow> ('s, 'f, 'g, 't) sched \<Rightarrow> bool"
  for W c rt st where
  Start: "sched_run W c rt st (sched_new c rt st)"
| Step: "sched_run W c rt st s \<Longrightarrow> sched_step W s s' \<Longrightarrow> sched_run W c rt st s'"

end
