(* ===== verification/SchedulerBooks.thy ===== *)
theory SchedulerBooks
  imports Scheduler "HOL-Library.Multiset"
begin

text \<open>
  The scheduler's books: every request submitted is counted once where it ends, every permit
  taken is held by a request in the system or back in its semaphore, every stream of events
  ends at most once. \<open>books H s\<close> says so of a state \<open>s\<close> while the requests \<open>H\<close> are
  outstanding; each operation of the worker keeps it for the requests it was handed.
\<close>

section \<open>The invariant\<close>

definition terminal :: "stream_event \<Rightarrow> bool" where
  "terminal e \<longleftrightarrow> (case e of TokenEv _ \<Rightarrow> False | _ \<Rightarrow> True)"

text \<open>After a terminal event of a request nothing more of that request.\<close>

definition log_ok :: "(nat \<times> stream_event) list \<Rightarrow> bool" where
  "log_ok L \<longleftrightarrow> sorted_wrt (\<lambda>(q, e) (q', e'). terminal e \<longrightarrow> q \<noteq> q') L"

definition ended :: "('s, 'f, 'g, 't) sched \<Rightarrow> nat" where
  "ended s = n_completed (counters s) + n_cancelled (counters s) + n_timed_out (counters s) +
     n_failed (counters s) + lost s"

definition in_system :: "('s, 'f, 'g, 't) sched \<Rightarrow> 'f request list" where
  "in_system s = chan s @ heap s @ admit s @ map pf_request (prefilling s) @ map ac_request (active s)"

definition held :: "('s, 'f, 'g, 't) sched \<Rightarrow> 'f request multiset" where
  "held s = mset (in_system s)"

definition holding :: "nat \<Rightarrow> 'f request multiset \<Rightarrow> nat" where
  "holding sem H = size (filter_mset (\<lambda>r. rq_permit r = sem) H)"

definition books :: "'f request multiset \<Rightarrow> ('s, 'f, 'g, 't) sched \<Rightarrow> bool" where
  "books H s \<longleftrightarrow>
     n_submitted (counters s) = ended s + size H \<and>
     (\<forall>sem. available s sem + holding sem H = (if sem < next_sem s then max_per_user (sc_config s) else 0)) \<and>
     (\<forall>r \<in># H. map_of (user_slots s) (user_id (rq_spec r)) = Some (rq_permit r) \<and> rq_seq r < next_rq s \<and>
        (\<forall>e. (rq_seq r, e) \<in> set (sent s) \<longrightarrow> \<not> terminal e)) \<and>
     distinct (map fst (user_slots s)) \<and> (\<forall>sem \<in> snd ` set (user_slots s). sem < next_sem s) \<and>
     (\<forall>q. count (image_mset rq_seq H) q \<le> 1) \<and>
     (\<forall>q \<in> fst ` set (sent s). q < next_rq s) \<and> log_ok (sent s)"

text \<open>A step of the worker that ends request \<open>r\<close>: one more ended, its permit back, at most one event.\<close>

definition ends_one :: "'f request \<Rightarrow> ('s, 'f, 'g, 't) sched \<Rightarrow> ('s, 'f, 'g, 't) sched \<Rightarrow> bool" where
  "ends_one r s s' \<longleftrightarrow>
     n_submitted (counters s') = n_submitted (counters s) \<and> ended s' = Suc (ended s) \<and>
     available s' = (available s)(rq_permit r := Suc (available s (rq_permit r))) \<and>
     (sent s' = sent s \<or> (\<exists>e. sent s' = sent s @ [(rq_seq r, e)])) \<and>
     user_slots s' = user_slots s \<and> next_sem s' = next_sem s \<and> next_rq s' = next_rq s \<and> sc_config s' = sc_config s"

text \<open>One that ends none: only token events.\<close>

definition ends_none :: "'f request \<Rightarrow> ('s, 'f, 'g, 't) sched \<Rightarrow> ('s, 'f, 'g, 't) sched \<Rightarrow> bool" where
  "ends_none r s s' \<longleftrightarrow>
     n_submitted (counters s') = n_submitted (counters s) \<and> ended s' = ended s \<and>
     available s' = available s \<and>
     (\<exists>ts. sent s' = sent s @ map (\<lambda>t. (rq_seq r, TokenEv t)) ts) \<and>
     user_slots s' = user_slots s \<and> next_sem s' = next_sem s \<and> next_rq s' = next_rq s \<and> sc_config s' = sc_config s"

lemma log_ok_snoc: "log_ok (L @ [(q, e)]) \<longleftrightarrow> log_ok L \<and> (\<forall>e'. (q, e') \<in> set L \<longrightarrow> \<not> terminal e')"
  by (auto simp: log_ok_def sorted_wrt_append)

lemma log_ok_tokens:
  "log_ok (L @ map (\<lambda>t. (q, TokenEv t)) ts) \<longleftrightarrow> log_ok L \<and> (ts \<noteq> [] \<longrightarrow> (\<forall>e'. (q, e') \<in> set L \<longrightarrow> \<not> terminal e'))"
proof (induction ts rule: rev_induct)
  case (snoc t ts)
  have "log_ok (L @ map (\<lambda>t. (q, TokenEv t)) ts @ [(q, TokenEv t)]) \<longleftrightarrow>
      log_ok (L @ map (\<lambda>t. (q, TokenEv t)) ts) \<and>
      (\<forall>e'. (q, e') \<in> set (L @ map (\<lambda>t. (q, TokenEv t)) ts) \<longrightarrow> \<not> terminal e')"
    using log_ok_snoc [of "L @ map (\<lambda>t. (q, TokenEv t)) ts"] by simp
  then show ?case using snoc by (auto simp: terminal_def)
qed simp

lemma count_le_1_other:
  assumes "\<forall>q. count (image_mset f (add_mset r H)) q \<le> 1" and "x \<in># H"
  shows "f x \<noteq> f r"
proof
  assume "f x = f r"
  have "count (image_mset f H) (f r) \<noteq> 0" using assms(2) \<open>f x = f r\<close> by (metis count_eq_zero_iff imageI set_image_mset)
  moreover have "count (image_mset f (add_mset r H)) (f r) = Suc (count (image_mset f H) (f r))" by simp
  ultimately show False using assms(1) by (metis One_nat_def Suc_le_mono le_zero_eq)
qed

lemma holding_add [simp]: "holding sem (add_mset r H) = (if rq_permit r = sem then Suc (holding sem H) else holding sem H)"
  by (simp add: holding_def)

lemma books_ends_one:
  assumes "books (add_mset r H) s" and "ends_one r s s'"
  shows "books H s'"
proof -
  note b = assms(1) [unfolded books_def] and e = assms(2) [unfolded ends_one_def]
  have seqs: "\<forall>q. count (image_mset rq_seq (add_mset r H)) q \<le> 1" using b by blast
  have other: "rq_seq x \<noteq> rq_seq r" if "x \<in># H" for x using count_le_1_other [OF seqs that] .
  have "\<forall>sem. available s' sem + holding sem H = (if sem < next_sem s' then max_per_user (sc_config s') else 0)"
  proof
    fix sem
    have "available s sem + holding sem (add_mset r H) = (if sem < next_sem s then max_per_user (sc_config s) else 0)"
      using b by blast
    then show "available s' sem + holding sem H = (if sem < next_sem s' then max_per_user (sc_config s') else 0)"
      using e by (auto split: if_splits)
  qed
  moreover have "\<forall>q. count (image_mset rq_seq H) q \<le> 1"
    using seqs by (metis (no_types) count_add_mset image_mset_add_mset le_Suc_eq not_less_eq_eq)
  moreover have "\<forall>x \<in># H. \<forall>e. (rq_seq x, e) \<in> set (sent s') \<longrightarrow> \<not> terminal e"
    using b e other by auto
  moreover have "log_ok (sent s')" using b e log_ok_snoc by auto
  moreover have "\<forall>q \<in> fst ` set (sent s'). q < next_rq s'" using b e by auto
  ultimately show ?thesis using b e by (simp add: books_def)
qed

lemma books_ends_none:
  assumes "books H s" and "r \<in># H" and "ends_none r s s'"
  shows "books H s'"
proof -
  note b = assms(1) [unfolded books_def] and e = assms(3) [unfolded ends_none_def]
  obtain ts where ts: "sent s' = sent s @ map (\<lambda>t. (rq_seq r, TokenEv t)) ts" using e by blast
  have quiet: "\<forall>e. (rq_seq r, e) \<in> set (sent s) \<longrightarrow> \<not> terminal e" using b assms(2) by blast
  have "log_ok (sent s')" unfolding ts log_ok_tokens using b quiet by blast
  moreover have "\<forall>x \<in># H. \<forall>e. (rq_seq x, e) \<in> set (sent s') \<longrightarrow> \<not> terminal e"
    using b unfolding ts by (auto simp: terminal_def)
  moreover have "\<forall>q \<in> fst ` set (sent s'). q < next_rq s'" using b assms(2) e unfolding ts by auto
  moreover have "\<forall>r \<in># H. map_of (user_slots s') (user_id (rq_spec r)) = Some (rq_permit r) \<and> rq_seq r < next_rq s'"
    using b e by simp
  moreover have "\<forall>sem. available s' sem + holding sem H = (if sem < next_sem s' then max_per_user (sc_config s') else 0)"
    using b e by simp
  ultimately show ?thesis using b e by (simp add: books_def)
qed

section \<open>The worker keeps the books\<close>

lemmas worker_defs = release_def count_completed_def count_cancelled_def count_timed_out_def count_failed_def
  send_def drop_pending_def drop_session_def

text \<open>Who is where, and the rest of what the books do not speak of.\<close>

definition parts :: "('s, 'f, 'g, 't) sched \<Rightarrow> 'f request list \<times> 'f request list \<times> 'f request list \<times>
    ('s, 'f) prefilling list \<times> ('s, 'f, 'g) active list \<times> sched_config \<times> phase" where
  "parts s = (chan s, heap s, admit s, prefilling s, active s, sc_config s, sc_phase s)"

lemma parts_simps [simp]:
  "parts (release r s) = parts s" "parts (count_completed s) = parts s" "parts (count_cancelled s) = parts s"
  "parts (count_timed_out s) = parts s" "parts (count_failed s) = parts s" "parts (send E k r ev s) = parts s"
  "parts (drop_pending pd s) = parts s" "parts (drop_session ss s) = parts s"
  "parts (s\<lparr>sc_rt := rt\<rparr>) = parts s" "parts (s\<lparr>sc_store := st\<rparr>) = parts s"
  by (simp_all add: parts_def worker_defs)

lemma parts_eq:
  assumes "parts s = parts s'"
  shows "chan s = chan s'" and "heap s = heap s'" and "admit s = admit s'" and "prefilling s = prefilling s'"
    and "active s = active s'" and "sc_config s = sc_config s'" and "sc_phase s = sc_phase s'" and "held s = held s'"
  using assms by (simp_all add: parts_def held_def in_system_def)

lemma books_cong:
  assumes "books H s" and "counters s' = counters s" and "lost s' = lost s" and "available s' = available s"
    and "sent s' = sent s" and "user_slots s' = user_slots s" and "next_sem s' = next_sem s"
    and "next_rq s' = next_rq s" and "sc_config s' = sc_config s"
  shows "books H s'"
  using assms by (simp add: books_def ended_def)

lemma ends_one_simps:
  "ends_one r s (release r (count_cancelled s))"
  "ends_one r s (release r (drop_pending pd (count_cancelled s)))"
  "ends_one r s (release r (drop_pending pd (send E k r ev (count_cancelled s))))"
  "ends_one r s (release r (drop_pending pd (send E k r ev (count_timed_out s))))"
  "ends_one r s (release r (drop_pending pd (send E k r ev (count_failed s))))"
  "ends_one r s (release r (send E k r ev (count_failed s)))"
  "ends_one r s (release r (drop_session ss (count_cancelled s)))"
  "ends_one r s (release r (drop_session ss (send E k r ev (count_cancelled s))))"
  "ends_one r s (release r (drop_session ss (send E k r ev (count_timed_out s))))"
  "ends_one r s (release r (drop_session ss (send E k r ev (count_completed s))))"
  by (simp_all add: ends_one_def ended_def worker_defs)

lemma drop_queued_books:
  "books (mset rs + H) s \<Longrightarrow> books H (drop_queued rs s) \<and> parts (drop_queued rs s) = parts s"
proof (induction rs arbitrary: s)
  case (Cons r rs)
  then have "books (mset rs + H) (release r (count_cancelled s))"
    by (intro books_ends_one [OF _ ends_one_simps(1)]) simp
  with Cons.IH show ?case by simp
qed simp

lemma sweep_books:
  assumes "books (held s) s"
  shows "books (held (sweep E s)) (sweep E s) \<and> active (sweep E s) = active s \<and> prefilling (sweep E s) = prefilling s \<and>
    admit (sweep E s) = admit s \<and> sc_config (sweep E s) = sc_config s \<and> sc_phase (sweep E s) = Admitting"
proof -
  let ?s = "s\<lparr>heap := filter (\<lambda>r. \<not> gone E r) (heap s), sc_phase := Admitting\<rparr>"
  have "mset (heap s) = mset (filter (gone E) (heap s)) + mset (filter (\<lambda>r. \<not> gone E r) (heap s))"
    unfolding mset_filter by (rule multiset_partition)
  then have eq: "held s = mset (filter (gone E) (heap s)) + held ?s" by (simp add: held_def in_system_def)
  have "books (mset (filter (gone E) (heap s)) + held ?s) ?s"
    by (rule books_cong [OF assms [unfolded eq]]) simp_all
  from drop_queued_books [OF this] have d: "books (held ?s) (sweep E s) \<and> parts (sweep E s) = parts ?s"
    by (simp add: sweep_def)
  with parts_eq [of "sweep E s" ?s] show ?thesis by simp
qed

lemma admit_loop_spec:
  "admit_loop E n h = (as, ds, h') \<Longrightarrow> mset h = mset as + mset ds + mset h' \<and> length as \<le> n"
proof (induction E n h arbitrary: as ds h' rule: admit_loop.induct)
  case (1 E n h)
  show ?case
  proof (cases "n = 0 \<or> heap_pop h = None")
    case True
    with "1.prems" show ?thesis by (auto simp: admit_loop.simps [of E n h] split: if_splits)
  next
    case False
    then obtain r hr where pop: "heap_pop h = Some (r, hr)" by auto
    have h: "mset h = add_mset r (mset hr)" using heap_pop_Some [OF pop] by simp
    show ?thesis
    proof (cases "gone E r")
      case True
      obtain as1 ds1 h1 where rest: "admit_loop E n hr = (as1, ds1, h1)" by (metis prod_cases3)
      with "1.prems" False pop True have "as = as1" "ds = r # ds1" "h' = h1"
        by (simp_all add: admit_loop.simps [of E n h])
      with "1.IH"(1) [OF _ pop _ True rest] False h show ?thesis by simp
    next
      case notgone: False
      obtain as1 ds1 h1 where rest: "admit_loop E (n - 1) hr = (as1, ds1, h1)" by (metis prod_cases3)
      with "1.prems" False pop notgone have "as = r # as1" "ds = ds1" "h' = h1"
        by (simp_all add: admit_loop.simps [of E n h])
      with "1.IH"(2) [OF _ pop _ notgone rest] False h show ?thesis by auto
    qed
  qed
qed

lemma admit_phase_books:
  assumes "books (held s) s" and "admit s = []"
  shows "books (held (admit_phase E s)) (admit_phase E s) \<and> active (admit_phase E s) = active s \<and>
    prefilling (admit_phase E s) = prefilling s \<and> sc_config (admit_phase E s) = sc_config s \<and>
    sc_phase (admit_phase E s) = Absorbing \<and>
    length (admit (admit_phase E s)) \<le> max_active s - (length (active s) + length (prefilling s))"
proof -
  obtain as ds h where run: "admit_loop E (max_active s - (length (active s) + length (prefilling s))) (heap s) = (as, ds, h)"
    by (metis prod_cases3)
  let ?s = "s\<lparr>admit := as, heap := h, sc_phase := Absorbing\<rparr>"
  note spec = admit_loop_spec [OF run]
  have eq: "held s = mset ds + held ?s" using spec assms(2) by (simp add: held_def in_system_def)
  have "books (mset ds + held ?s) ?s" by (rule books_cong [OF assms(1) [unfolded eq]]) simp_all
  from drop_queued_books [OF this] have d: "books (held ?s) (admit_phase E s) \<and> parts (admit_phase E s) = parts ?s"
    by (simp add: admit_phase_def run)
  with parts_eq [of "admit_phase E s" ?s] spec show ?thesis by simp
qed

text \<open>How many sequences the worker has, beside those in hand.\<close>

definition busy :: "('s, 'f, 'g, 't) sched \<Rightarrow> nat" where
  "busy s = length (active s) + length (prefilling s)"

lemma admit_one_books:
  assumes "books (held s + add_mset r X) s" and "admit_one W E r s = Some s'"
  shows "books (held s' + X) s' \<and> busy s' \<le> Suc (busy s) \<and> admit s' = admit s \<and> sc_config s' = sc_config s"
proof -
  obtain rt x where run: "start_incremental (w_fops W) (w_hash W) (sc_rt s) (rs_prompt (rq_spec r)) (rs_params (rq_spec r)) = Some (rt, x)"
    using assms(2) by (auto simp: admit_one_def split: option.splits)
  show ?thesis
  proof (cases x)
    case (Inl e)
    let ?s = "s\<lparr>sc_rt := rt\<rparr>"
    have s': "s' = release r (send E 0 r (ErrorEv e) (count_failed ?s))"
      using assms(2) run Inl by (simp add: admit_one_def)
    have "books (held s + add_mset r X) ?s" using assms(1) by (rule books_cong) simp_all
    then have "books (held s + X) s'" unfolding s' by (intro books_ends_one [OF _ ends_one_simps(6)]) simp
    moreover have "parts s' = parts s" unfolding s' by simp
    ultimately show ?thesis using parts_eq [of s' s] by (simp add: busy_def)
  next
    case (Inr pd)
    have s': "s' = s\<lparr>sc_rt := rt, prefilling := prefilling s @
        [\<lparr>pf_request = r, pf_pending = pd, pf_deadline = rq_submitted r + rs_timeout (rq_spec r)\<rparr>]\<rparr>"
      using assms(2) run Inr by (simp add: admit_one_def)
    have "held s' + X = held s + add_mset r X" unfolding s' by (simp add: held_def in_system_def)
    then show ?thesis using books_cong [OF assms(1), of s'] by (simp add: s' busy_def)
  qed
qed

lemma admit_all_books:
  "books (held s + mset rs) s \<Longrightarrow> admit_all W E rs s = Some s' \<Longrightarrow>
     books (held s') s' \<and> busy s' \<le> busy s + length rs \<and> admit s' = admit s \<and> sc_config s' = sc_config s"
proof (induction rs arbitrary: s)
  case (Cons r rs)
  then obtain s1 where one: "admit_one W E r s = Some s1" by (auto split: option.splits)
  have "books (held s + add_mset r (mset rs)) s" using Cons.prems(1) by simp
  note k = admit_one_books [OF this one]
  with Cons.IH [of s1] Cons.prems(2) one show ?case by simp
qed auto

lemma moved_on:
  assumes "books (held s + add_mset r X) s" and "ends_one r s1 s'" and "parts s' = parts s"
    and "counters s1 = counters s" "lost s1 = lost s" "available s1 = available s" "sent s1 = sent s"
    and "user_slots s1 = user_slots s" "next_sem s1 = next_sem s" "next_rq s1 = next_rq s" "sc_config s1 = sc_config s"
  shows "books (held s' + X) s' \<and> busy s' = busy s \<and> admit s' = admit s \<and> sc_config s' = sc_config s"
proof -
  have "books (held s + add_mset r X) s1" by (rule books_cong [OF assms(1)]) (use assms(4-11) in simp_all)
  then have "books (add_mset r (held s + X)) s1" by simp
  from books_ends_one [OF this assms(2)] parts_eq [OF assms(3)] show ?thesis by (simp add: busy_def)
qed

lemma advance_one_books:
  assumes "books (held s + add_mset (pf_request p) X) s" and "advance_one W E budget p s = (s', n)"
  shows "books (held s' + X) s' \<and> busy s' \<le> Suc (busy s) \<and> admit s' = admit s \<and> sc_config s' = sc_config s"
proof -
  let ?r = "pf_request p"
  note mv = moved_on [OF assms(1)]
  consider "cancelled E (rq_seq ?r)" | "\<not> cancelled E (rq_seq ?r)" "closed E (rq_seq ?r)" |
    "\<not> cancelled E (rq_seq ?r)" "\<not> closed E (rq_seq ?r)" "now E \<ge> pf_deadline p" |
    "\<not> cancelled E (rq_seq ?r)" "\<not> closed E (rq_seq ?r)" "\<not> now E \<ge> pf_deadline p" by blast
  then show ?thesis
  proof cases
    case 1
    then have s': "s' = release ?r (drop_pending (pf_pending p) (send E 0 ?r (ErrorEv Cancelled) (count_cancelled s)))"
      using assms(2) by (simp add: advance_one_def Let_def)
    have "ends_one ?r s s'" and "parts s' = parts s" unfolding s' by (rule ends_one_simps, simp)
    from mv [OF this] show ?thesis by simp
  next
    case 2
    then have s': "s' = release ?r (drop_pending (pf_pending p) (count_cancelled s))"
      using assms(2) by (simp add: advance_one_def Let_def)
    have "ends_one ?r s s'" and "parts s' = parts s" unfolding s' by (rule ends_one_simps, simp)
    from mv [OF this] show ?thesis by simp
  next
    case 3
    then have s': "s' = release ?r (drop_pending (pf_pending p) (send E 0 ?r (ErrorEv Timeout) (count_timed_out s)))"
      using assms(2) by (simp add: advance_one_def Let_def)
    have "ends_one ?r s s'" and "parts s' = parts s" unfolding s' by (rule ends_one_simps, simp)
    from mv [OF this] show ?thesis by simp
  next
    case 4
    obtain st rt pd out where run: "advance_prefill (w_hash W) (sc_rt s) (sc_store s) (pf_pending p) budget = (st, rt, pd, out)"
      by (metis prod_cases4)
    let ?s = "s\<lparr>sc_rt := rt, sc_store := st\<rparr>"
    show ?thesis
    proof (cases out)
      case (Inl e)
      then have s': "s' = release ?r (drop_pending pd (send E 0 ?r (ErrorEv e) (count_failed ?s)))"
        using assms(2) 4 run by (simp add: advance_one_def Let_def)
      have "ends_one ?r ?s s'" and "parts s' = parts s" unfolding s' by (rule ends_one_simps, simp)
      from mv [OF this] show ?thesis by simp
    next
      case (Inr fin)
      let ?a = "\<lparr>ac_request = ?r, ac_session = finish_prefill (w_gain W) pd, ac_deadline = pf_deadline p\<rparr>"
      have s': "s' = (if fin then ?s\<lparr>active := active s @ [?a]\<rparr>
          else ?s\<lparr>prefilling := prefilling s @ [p\<lparr>pf_pending := pd\<rparr>]\<rparr>)"
        using assms(2) 4 run Inr by (cases fin) (simp_all add: advance_one_def Let_def)
      have "held s' + X = held s + add_mset ?r X" unfolding s' by (simp add: held_def in_system_def)
      with books_cong [OF assms(1), of s'] show ?thesis by (simp add: s' busy_def)
    qed
  qed
qed

lemma advance_list_books:
  "books (held s + mset (map pf_request ps)) s \<Longrightarrow> advance_list W E budget ps s = (s', n) \<Longrightarrow>
     books (held s') s' \<and> busy s' \<le> busy s + length ps \<and> admit s' = admit s \<and> sc_config s' = sc_config s"
proof (induction ps arbitrary: s n)
  case (Cons p ps)
  obtain s1 n1 where one: "advance_one W E budget p s = (s1, n1)" by fastforce
  then obtain n2 where rest: "advance_list W E budget ps s1 = (s', n2)"
    using Cons.prems(2) by (auto split: prod.splits)
  have "books (held s + add_mset (pf_request p) (mset (map pf_request ps))) s" using Cons.prems(1) by simp
  note k = advance_one_books [OF this one]
  with Cons.IH [OF _ rest] show ?case by simp
qed simp

lemma absorb_phase_books:
  assumes "books (held s) s" and "busy s + length (admit s) \<le> max_active s" and "absorb_phase W E s = Some s'"
  shows "books (held s') s' \<and> busy s' \<le> max_active s' \<and> admit s' = [] \<and> sc_config s' = sc_config s \<and> sc_phase s' = Decoding"
proof -
  obtain s1 where adm: "admit_all W E (admit s) (s\<lparr>admit := []\<rparr>) = Some s1"
    using assms(3) by (auto simp: absorb_phase_def split: option.splits)
  have eq: "held s = held (s\<lparr>admit := []\<rparr>) + mset (admit s)" by (simp add: held_def in_system_def)
  have "books (held (s\<lparr>admit := []\<rparr>) + mset (admit s)) (s\<lparr>admit := []\<rparr>)"
    by (rule books_cong [OF assms(1) [unfolded eq]]) simp_all
  note k1 = admit_all_books [OF this adm]
  define budget where "budget = (if active s1 = [] then usize_max else chunk (w_time W) (sc_pacing s1))"
  obtain s2 n where adv: "advance_prefills W E budget s1 = (s2, n)" by fastforce
  let ?s1 = "s1\<lparr>prefilling := []\<rparr>"
  have eq1: "held s1 = held ?s1 + mset (map pf_request (prefilling s1))"
    by (simp add: held_def in_system_def)
  have "books (held ?s1 + mset (map pf_request (prefilling s1))) ?s1"
    by (rule books_cong [OF conjunct1 [OF k1, unfolded eq1]]) simp_all
  note k2 = advance_list_books [OF this adv [unfolded advance_prefills_def]]
  have s': "s' = s2\<lparr>sc_phase := Decoding, sc_pacing := (if 0 < n
                 then observe_prefill (w_time W) (prefill_time E) n (sc_pacing s2) else sc_pacing s2)\<rparr>"
    using assms(3) adm adv by (simp add: absorb_phase_def budget_def [symmetric])
  have "held s' = held s2" unfolding s' by (simp add: held_def in_system_def)
  moreover have "books (held s2) s'" unfolding s' by (rule books_cong [OF conjunct1 [OF k2]]) simp_all
  ultimately show ?thesis using k1 k2 assms(2) by (simp add: s' busy_def max_active_def)
qed

lemma sweep_active_books:
  "books (held s + mset (map ac_request as)) s \<Longrightarrow>
     (let s' = sweep_active E as s in books (held s') s' \<and> prefilling s' = prefilling s \<and>
        length (active s') \<le> length (active s) + length as \<and> admit s' = admit s \<and> sc_config s' = sc_config s)"
proof (induction as arbitrary: s)
  case (Cons a as)
  let ?r = "ac_request a"
  let ?X = "mset (map ac_request as)"
  have b: "books (held s + add_mset ?r ?X) s" using Cons.prems by simp
  note mv = moved_on [OF b]
  have dropped: ?case if e: "ends_one ?r s s1" and p: "parts s1 = parts s"
    and run: "sweep_active E (a # as) s = sweep_active E as s1" for s1
    using Cons.IH [of s1] mv [OF e p] run parts_eq [OF p] by (auto simp: Let_def)
  consider "cancelled E (rq_seq ?r)" | "\<not> cancelled E (rq_seq ?r)" "closed E (rq_seq ?r)" |
    "\<not> cancelled E (rq_seq ?r)" "\<not> closed E (rq_seq ?r)" "now E \<ge> ac_deadline a" |
    "\<not> cancelled E (rq_seq ?r)" "\<not> closed E (rq_seq ?r)" "\<not> now E \<ge> ac_deadline a" by blast
  then show ?case
  proof cases
    case 1
    then show ?thesis
      by (intro dropped [of "release ?r (drop_session (ac_session a) (send E 0 ?r (ErrorEv Cancelled) (count_cancelled s)))"] ends_one_simps)
        (simp_all add: Let_def)
  next
    case 2
    then show ?thesis
      by (intro dropped [of "release ?r (drop_session (ac_session a) (count_cancelled s))"] ends_one_simps)
        (simp_all add: Let_def)
  next
    case 3
    then show ?thesis
      by (intro dropped [of "release ?r (drop_session (ac_session a) (send E 0 ?r (ErrorEv Timeout) (count_timed_out s)))"] ends_one_simps)
        (simp_all add: Let_def)
  next
    case 4
    let ?s = "s\<lparr>active := active s @ [a]\<rparr>"
    have "held ?s + ?X = held s + add_mset ?r ?X" by (simp add: held_def in_system_def)
    then have "books (held ?s + ?X) ?s" using books_cong [OF b, of ?s] by simp
    with Cons.IH [of ?s] 4 show ?thesis by (auto simp: Let_def)
  qed
qed simp

lemma send_tokens_spec:
  "send_tokens E k r ts s = (s', lostit) \<Longrightarrow>
     (if lostit then \<exists>s1. ends_none r s s1 \<and> parts s1 = parts s \<and> s' = count_cancelled s1
      else ends_none r s s') \<and> parts s' = parts s"
proof (induction ts arbitrary: k s)
  case (Cons t ts)
  show ?case
  proof (cases "k < accepts E (rq_seq r)")
    case True
    let ?s = "send E k r (TokenEv t) s"
    have step: "ends_none r s x" if "ends_none r ?s x" for x
    proof -
      obtain us where "sent x = sent ?s @ map (\<lambda>t. (rq_seq r, TokenEv t)) us"
        using \<open>ends_none r ?s x\<close> by (auto simp: ends_none_def)
      then have "sent x = sent s @ map (\<lambda>t. (rq_seq r, TokenEv t)) (t # us)" using True by (simp add: send_def)
      moreover have "n_submitted (counters ?s) = n_submitted (counters s) \<and> ended ?s = ended s \<and> available ?s = available s \<and>
          user_slots ?s = user_slots s \<and> next_sem ?s = next_sem s \<and> next_rq ?s = next_rq s \<and> sc_config ?s = sc_config s"
        by (simp add: send_def ended_def)
      ultimately show ?thesis using that unfolding ends_none_def by metis
    qed
    have "send_tokens E (Suc k) r ts ?s = (s', lostit)" using Cons.prems True by simp
    from Cons.IH [OF this] step show ?thesis by (auto split: if_splits)
  next
    case False
    moreover have "ends_none r s s" by (simp add: ends_none_def)
    ultimately show ?thesis using Cons.prems by auto
  qed
qed (auto simp: ends_none_def)

lemma step_alone_spec_books:
  assumes "books (held s) s" and "active s = [a]"
  shows "let s' = step_alone_spec W E a s in
    books (held s') s' \<and> length (active s') \<le> 1 \<and> prefilling s' = prefilling s \<and> admit s' = admit s \<and> sc_config s' = sc_config s"
proof -
  let ?r = "ac_request a"
  obtain st rt ss tokens out where run: "next_tokens_speculative (w_fops W) (w_gain W) (sc_rt s) (rs_params (rq_spec ?r))
      (speculative_lookahead (sc_config s)) (sc_store s) (ac_session a) [] = (st, rt, ss, tokens, out)"
    by (metis prod_cases5)
  let ?s = "s\<lparr>sc_rt := rt, sc_store := st\<rparr>"
  obtain s1 lostit where snd: "send_tokens E 0 ?r tokens ?s = (s1, lostit)" by fastforce
  note sp = send_tokens_spec [OF snd]
  define X where "X = held (s\<lparr>active := []\<rparr>)"
  have X: "held s = add_mset ?r X" using assms(2) by (simp add: X_def held_def in_system_def)
  have b0: "books (add_mset ?r X) ?s" by (rule books_cong [OF assms(1) [unfolded X]]) simp_all
  have b1: "books (add_mset ?r X) x" if "ends_none ?r ?s x" for x
    by (rule books_ends_none [OF b0 _ that]) simp
  have p1: "parts s1 = parts s" using sp by simp
  have out_x: ?thesis if "step_alone_spec W E a s = s'" "ends_one ?r s2 s'" "ends_none ?r ?s s2" "parts s' = parts (s\<lparr>active := []\<rparr>)" for s' s2
  proof -
    have "books X s'" by (rule books_ends_one [OF b1 [OF that(3)] that(2)])
    with parts_eq [OF that(4)] that(1) show ?thesis by (simp add: X_def Let_def)
  qed
  have none_clear: "ends_none ?r ?s (x\<lparr>active := []\<rparr>)" if "ends_none ?r ?s x" for x
    using that by (simp add: ends_none_def ended_def)
  have cc: "(count_cancelled x)\<lparr>active := []\<rparr> = count_cancelled (x\<lparr>active := []\<rparr>)" for x :: "('b, 'a, 'c, 'd) sched"
    by (simp add: count_cancelled_def)
  have pc: "parts (x\<lparr>active := []\<rparr>) = parts (s\<lparr>active := []\<rparr>)" if "parts x = parts s" for x
    using that by (simp add: parts_def)
  show ?thesis
  proof (cases lostit)
    case True
    then obtain s2 where s2: "ends_none ?r ?s s2" "parts s2 = parts s" "s1 = count_cancelled s2"
      using sp by auto
    have "step_alone_spec W E a s = release ?r (drop_session ss (count_cancelled (s2\<lparr>active := []\<rparr>)))"
      using run snd True s2(3) cc by (cases out) (simp_all add: step_alone_spec_def Let_def)
    from out_x [OF this ends_one_simps(7) none_clear [OF s2(1)]] pc [OF s2(2)] show ?thesis by simp
  next
    case False
    then have s1: "ends_none ?r ?s s1" using sp by simp
    show ?thesis
    proof (cases out)
      case (Inl reason)
      have "(send E (length tokens) ?r (DoneEv reason) (count_completed s1))\<lparr>active := []\<rparr> =
          send E (length tokens) ?r (DoneEv reason) (count_completed (s1\<lparr>active := []\<rparr>))"
        by (simp add: send_def count_completed_def)
      then have "step_alone_spec W E a s = release ?r (drop_session ss
          (send E (length tokens) ?r (DoneEv reason) (count_completed (s1\<lparr>active := []\<rparr>))))"
        using run snd False Inl by (simp add: step_alone_spec_def Let_def)
      from out_x [OF this ends_one_simps(10) none_clear [OF s1]] pc [OF p1] show ?thesis by simp
    next
      case (Inr u)
      let ?s' = "s1\<lparr>active := [a\<lparr>ac_session := ss\<rparr>]\<rparr>"
      have s': "step_alone_spec W E a s = ?s'" using run snd False Inr by (simp add: step_alone_spec_def Let_def)
      have "books (add_mset ?r X) ?s'" by (rule books_cong [OF b1 [OF s1]]) simp_all
      moreover have "held ?s' = add_mset ?r X"
        using parts_eq [OF p1] by (simp add: X_def held_def in_system_def)
      ultimately show ?thesis unfolding s' using parts_eq [OF p1] by simp
    qed
  qed
qed

lemma deliver_books:
  "books (held s + mset (map ac_request as)) s \<Longrightarrow> length as \<le> length os \<Longrightarrow>
     (let s' = deliver E as os s in books (held s') s' \<and> prefilling s' = prefilling s \<and>
        length (active s') \<le> length (active s) + length as \<and> admit s' = admit s \<and> sc_config s' = sc_config s)"
proof (induction E as os s rule: deliver.induct)
  case (1 E a as ss t os s)
  let ?r = "ac_request a" and ?X = "mset (map ac_request as)"
  have b: "books (held s + add_mset ?r ?X) s" using "1.prems"(1) by simp
  show ?case
  proof (cases "0 < accepts E (rq_seq ?r)")
    case True
    let ?s1 = "s\<lparr>active := active s @ [a\<lparr>ac_session := ss\<rparr>]\<rparr>"
    let ?s2 = "send E 0 ?r (TokenEv t) ?s1"
    have eq: "held ?s1 + ?X = held s + add_mset ?r ?X" by (simp add: held_def in_system_def)
    have b1: "books (held ?s1 + ?X) ?s1" unfolding eq by (rule books_cong [OF b]) simp_all
    have "ends_none ?r ?s1 ?s2" using True by (auto simp: ends_none_def ended_def send_def intro: exI [of _ "[t]"])
    then have "books (held ?s1 + ?X) ?s2"
      by (intro books_ends_none [OF b1]) (simp_all add: held_def in_system_def)
    moreover have "parts ?s2 = parts ?s1" by simp
    ultimately show ?thesis using "1.IH"(1) [OF refl True] "1.prems"(2) True parts_eq [OF \<open>parts ?s2 = parts ?s1\<close>]
      by (auto simp: Let_def)
  next
    case False
    let ?s1 = "release ?r (drop_session ss (count_cancelled s))"
    have e: "ends_one ?r s ?s1" by (rule ends_one_simps)
    have "parts ?s1 = parts s" by simp
    from moved_on [OF b e this] parts_eq [OF this] "1.IH"(2) [OF refl False] "1.prems"(2) False
    show ?thesis by (auto simp: Let_def)
  qed
next
  case (2 E a as ss reason os s)
  let ?r = "ac_request a" and ?X = "mset (map ac_request as)"
  have b: "books (held s + add_mset ?r ?X) s" using "2.prems"(1) by simp
  let ?s1 = "release ?r (drop_session ss (send E 0 ?r (DoneEv reason) (count_completed s)))"
  have e: "ends_one ?r s ?s1" by (rule ends_one_simps)
  have "parts ?s1 = parts s" by simp
  from moved_on [OF b e this] parts_eq [OF this] "2.IH" "2.prems"(2) show ?case by (auto simp: Let_def)
qed auto

lemma decode_phase_books:
  assumes "books (held s) s" and "busy s \<le> max_active s" and "decode_phase W E s = Some s'"
  shows "books (held s') s' \<and> busy s' \<le> max_active s' \<and> admit s' = admit s \<and> sc_config s' = sc_config s \<and> sc_phase s' = Receiving"
proof -
  define s1 where "s1 = sweep_active E (active s) (s\<lparr>active := []\<rparr>)"
  have eq: "held s = held (s\<lparr>active := []\<rparr>) + mset (map ac_request (active s))" by (simp add: held_def in_system_def)
  have "books (held (s\<lparr>active := []\<rparr>) + mset (map ac_request (active s))) (s\<lparr>active := []\<rparr>)"
    by (rule books_cong [OF assms(1) [unfolded eq]]) simp_all
  from sweep_active_books [OF this, of E] have k1: "books (held s1) s1" "prefilling s1 = prefilling s"
    "length (active s1) \<le> length (active s)" "admit s1 = admit s" "sc_config s1 = sc_config s"
    by (simp_all add: s1_def [symmetric] Let_def)
  obtain s2 stepped where step: "step_batch W E s = Some (s2, stepped)"
    using assms(3) by (auto simp: decode_phase_def split: option.splits)
  have "books (held s2) s2 \<and> prefilling s2 = prefilling s1 \<and> length (active s2) \<le> length (active s1) \<and>
    admit s2 = admit s1 \<and> sc_config s2 = sc_config s1"
  proof (cases "active s1")
    case Nil
    then show ?thesis using step k1 by (simp add: step_batch_def s1_def [symmetric] Let_def)
  next
    case (Cons a as)
    show ?thesis
    proof (cases "as = [] \<and> 0 < speculative_lookahead (sc_config s1)")
      case True
      then have "s2 = step_alone_spec W E a s1"
        using step Cons by (simp add: step_batch_def s1_def [symmetric] Let_def)
      with step_alone_spec_books [OF k1(1), of a W E] Cons True show ?thesis by (simp add: Let_def)
    next
      case False
      obtain st results where batch: "next_token_batch (w_fops W) (sc_rt s1) (sc_store s1) (map ac_session (a # as))
          (map (\<lambda>a. rs_params (rq_spec (ac_request a))) (a # as)) = (st, results)" by fastforce
      let ?s = "s1\<lparr>sc_store := st, active := []\<rparr>"
      have s2: "s2 = deliver E (a # as) results ?s" and len: "length (a # as) \<le> length results"
        using step Cons False batch
        by (auto simp: step_batch_def s1_def [symmetric] Let_def split: if_splits)
      have eq2: "held s1 = held ?s + mset (map ac_request (a # as))"
        using Cons by (simp add: held_def in_system_def)
      have "books (held ?s + mset (map ac_request (a # as))) ?s"
        by (rule books_cong [OF k1(1) [unfolded eq2]]) simp_all
      from deliver_books [OF this len, of E] Cons show ?thesis by (simp add: Let_def s2)
    qed
  qed
  moreover have s': "s' = s2\<lparr>sc_phase := Receiving,
      sc_pacing := (if stepped then observe_decode (w_time W) (decode_time E) (sc_pacing s2) else sc_pacing s2)\<rparr>"
    using assms(3) step by (simp add: decode_phase_def)
  moreover have "held s' = held s2" unfolding s' by (simp add: held_def in_system_def)
  moreover have "books (held s2) s'" if "books (held s2) s2" unfolding s' by (rule books_cong [OF that]) simp_all
  ultimately show ?thesis using k1 assms(2) by (simp add: s' busy_def max_active_def)
qed

lemma release_all_books:
  "books (mset rs + H) s \<Longrightarrow> books H (release_all rs s) \<and> parts (release_all rs s) = parts s"
proof (induction rs arbitrary: s)
  case (Cons r rs)
  let ?s = "release r (s\<lparr>lost := Suc (lost s)\<rparr>)"
  have e: "ends_one r s ?s" by (simp add: ends_one_def ended_def release_def)
  have b: "books (add_mset r (mset rs + H)) s" using Cons.prems by simp
  have "books (mset rs + H) ?s" by (rule books_ends_one [OF b e])
  moreover have "parts ?s = parts s" by (simp add: parts_def release_def)
  ultimately show ?case using Cons.IH by simp
qed simp

lemma drop_books:
  "books H (drop_pending pd s) = books H s" "books H (drop_session ss s) = books H s"
  by (simp_all add: books_def ended_def drop_pending_def drop_session_def)

lemma drop_all_pending_books: "books H (drop_all_pending ps s) = books H s \<and> parts (drop_all_pending ps s) = parts s"
  by (induction ps arbitrary: s) (simp_all add: drop_books)

lemma drop_all_sessions_books: "books H (drop_all_sessions as s) = books H s \<and> parts (drop_all_sessions as s) = parts s"
  by (induction as arbitrary: s) (simp_all add: drop_books)

lemmas drop_all_books = drop_all_pending_books [THEN conjunct1] drop_all_pending_books [THEN conjunct2]
  drop_all_sessions_books [THEN conjunct1] drop_all_sessions_books [THEN conjunct2]

lemma worker_died_books:
  assumes "books (held s) s"
  shows "books (held (worker_died s)) (worker_died s) \<and> busy (worker_died s) = 0 \<and> admit (worker_died s) = [] \<and>
    sc_config (worker_died s) = sc_config s \<and> sc_phase (worker_died s) = Receiving"
proof -
  let ?rs = "admit s @ map pf_request (prefilling s) @ map ac_request (active s)"
  let ?s = "s\<lparr>admit := [], prefilling := [], active := [], sc_pacing := \<lparr>decode_step = None, prefill_token = None\<rparr>,
      sc_phase := Receiving\<rparr>"
  have eq: "held s = mset ?rs + held ?s" by (simp add: held_def in_system_def)
  have "books (mset ?rs + held ?s) ?s" by (rule books_cong [OF assms [unfolded eq]]) simp_all
  then have "books (mset ?rs + held ?s) (drop_all_sessions (active s) (drop_all_pending (prefilling s) ?s))"
    by (simp only: drop_all_books)
  from release_all_books [OF this] have "books (held ?s) (worker_died s) \<and> parts (worker_died s) = parts ?s"
    by (simp add: worker_died_def drop_all_books)
  with parts_eq [of "worker_died s" ?s] show ?thesis by (simp add: busy_def)
qed


section \<open>Submission keeps the books\<close>

lemma map_of_filter_distinct:
  "distinct (map fst xs) \<Longrightarrow> map_of xs k = Some v \<Longrightarrow> P (k, v) \<Longrightarrow> map_of (filter P xs) k = Some v"
  by (induction xs) (auto split: if_splits)

lemma booksD:
  assumes "books H s"
  shows "\<forall>sem \<in> snd ` set (user_slots s). sem < next_sem s"
    and "available s sem + holding sem H = (if sem < next_sem s then max_per_user (sc_config s) else 0)"
    and "r \<in># H \<Longrightarrow> map_of (user_slots s) (user_id (rq_spec r)) = Some (rq_permit r)"
    and "distinct (map fst (user_slots s))"
  using assms by (simp_all add: books_def)

lemma user_semaphore_books:
  assumes "books H s" and "user_semaphore user s = (s', sem)"
  shows "books H s' \<and> parts s' = parts s \<and> map_of (user_slots s') user = Some sem \<and> sem < next_sem s' \<and>
    sent s' = sent s \<and> next_rq s' = next_rq s"
proof -
  note b = assms(1) [unfolded books_def] and d = booksD [OF assms(1)]
  let ?m = "max_per_user (sc_config s)"
  define slots where "slots = (if length (user_slots s) > 1024
      then filter (\<lambda>(_, sem). available s sem < ?m) (user_slots s) else user_slots s)"
  have sub: "set slots \<subseteq> set (user_slots s)" by (auto simp: slots_def)
  have dist: "distinct (map fst slots)" using d(4) by (auto simp: slots_def intro: distinct_map_filter)
  have keep: "map_of slots (user_id (rq_spec r)) = Some (rq_permit r)" if r: "r \<in># H" for r
  proof -
    have m: "map_of (user_slots s) (user_id (rq_spec r)) = Some (rq_permit r)" by (rule d(3) [OF r])
    then have lt: "rq_permit r < next_sem s" using d(1) by (force dest: map_of_SomeD)
    have "r \<in># filter_mset (\<lambda>x. rq_permit x = rq_permit r) H" using r by simp
    then have "0 < holding (rq_permit r) H" unfolding holding_def by (metis nonempty_has_size empty_iff set_mset_empty)
    moreover have "available s (rq_permit r) + holding (rq_permit r) H = ?m" using d(2) [of "rq_permit r"] lt by simp
    ultimately have "available s (rq_permit r) < ?m" by linarith
    moreover have "distinct (map fst (user_slots s))" by (rule d(4))
    ultimately show ?thesis
      using m map_of_filter_distinct [OF _ m, of "\<lambda>(_, sem). available s sem < ?m"] by (simp add: slots_def)
  qed
  have sems: "\<forall>sem \<in> snd ` set slots. sem < next_sem s" using d(1) sub by blast
  show ?thesis
  proof (cases "map_of slots user")
    case (Some x)
    then have s': "s' = s\<lparr>user_slots := slots\<rparr>" "sem = x"
      using assms(2) by (auto simp: user_semaphore_def slots_def [symmetric] Let_def)
    have "x < next_sem s" using sems Some by (force dest: map_of_SomeD)
    then show ?thesis using b keep dist sems Some
      by (auto simp: s' books_def ended_def parts_def)
  next
    case None
    then have s': "s' = s\<lparr>user_slots := (user, next_sem s) # slots, available := (available s)(next_sem s := ?m),
        next_sem := Suc (next_sem s)\<rparr>" "sem = next_sem s"
      using assms(2) by (auto simp: user_semaphore_def slots_def [symmetric] Let_def)
    have fresh: "user \<notin> fst ` set slots" using None by (simp add: map_of_eq_None_iff)
    have other: "user_id (rq_spec r) \<noteq> user" if "r \<in># H" for r using keep [OF that] None by auto
    have none: "available s (next_sem s) = 0" "holding (next_sem s) H = 0" using d(2) [of "next_sem s"] by simp_all
    have "\<forall>sem. available s' sem + holding sem H = (if sem < next_sem s' then max_per_user (sc_config s') else 0)"
      using d(2) none by (auto simp: s' less_Suc_eq)
    then show ?thesis using b keep dist sems fresh other
      by (auto simp: s' books_def ended_def parts_def less_Suc_eq)
  qed
qed

lemma submit_with_books:
  assumes "books (held s) s" and "map_of (user_slots s) (user_id spec) = Some sem" and "sem < next_sem s"
    and "submit_with sem spec t s = (s', r)"
  shows "books (held s') s' \<and> busy s' = busy s \<and> admit s' = admit s \<and> sc_config s' = sc_config s \<and> sc_phase s' = sc_phase s"
proof -
  note b = assms(1) [unfolded books_def]
  consider "available s sem = 0" |
    "available s sem \<noteq> 0" "length (chan s) \<ge> max (queue_capacity (sc_config s)) 1" |
    "available s sem \<noteq> 0" "\<not> length (chan s) \<ge> max (queue_capacity (sc_config s)) 1" by blast
  then show ?thesis
  proof cases
    case 1
    then have s': "s' = count_rate_limit s" using assms(4) by (simp add: submit_with_def)
    have "held s' = held s" by (simp add: s' held_def in_system_def count_rate_limit_def)
    then show ?thesis using b by (simp add: s' count_rate_limit_def books_def ended_def busy_def)
  next
    case 2
    let ?r = "\<lparr>rq_seq = next_rq s, rq_spec = spec, rq_submitted = t, rq_permit = sem\<rparr>"
    have "s' = release ?r (count_busy (s\<lparr>available := (available s)(sem := available s sem - 1), next_rq := Suc (next_rq s)\<rparr>))"
      using assms(4) 2 by (simp add: submit_with_def Let_def)
    then have s': "s' = s\<lparr>counters := (counters s)\<lparr>rejected_busy := Suc (rejected_busy (counters s))\<rparr>, next_rq := Suc (next_rq s)\<rparr>"
      using 2(1) by (simp add: release_def count_busy_def)
    have "held s' = held s" by (simp add: s' held_def in_system_def)
    then show ?thesis using b by (auto simp: s' books_def ended_def busy_def less_Suc_eq)
  next
    case 3
    let ?r = "\<lparr>rq_seq = next_rq s, rq_spec = spec, rq_submitted = t, rq_permit = sem\<rparr>"
    have s': "s' = count_submitted (s\<lparr>available := (available s)(sem := available s sem - 1), next_rq := Suc (next_rq s),
        chan := chan s @ [?r]\<rparr>)"
      using assms(4) 3 by (auto simp: submit_with_def Let_def split: if_splits)
    have held: "held s' = add_mset ?r (held s)" by (simp add: s' held_def in_system_def count_submitted_def)
    have "\<forall>x. available s' x + holding x (add_mset ?r (held s)) = (if x < next_sem s' then max_per_user (sc_config s') else 0)"
    proof
      fix x
      have "available s x + holding x (held s) = (if x < next_sem s then max_per_user (sc_config s) else 0)" using b by blast
      then show "available s' x + holding x (add_mset ?r (held s)) = (if x < next_sem s' then max_per_user (sc_config s') else 0)"
        using 3(1) assms(3) by (auto simp: s' count_submitted_def)
    qed
    moreover have "\<forall>q. count (image_mset rq_seq (add_mset ?r (held s))) q \<le> 1"
    proof
      fix q
      have "next_rq s \<notin># image_mset rq_seq (held s)" using b by fastforce
      then have "count (image_mset rq_seq (held s)) (next_rq s) = 0" by (simp only: not_in_iff)
      with b show "count (image_mset rq_seq (add_mset ?r (held s))) q \<le> 1" by auto
    qed
    moreover have "\<forall>e. (next_rq s, e) \<notin> set (sent s)" using b by force
    ultimately have "books (add_mset ?r (held s)) s'"
      using b assms(2) by (auto simp: s' books_def ended_def count_submitted_def less_Suc_eq)
    then show ?thesis unfolding held by (simp add: s' count_submitted_def busy_def)
  qed
qed

section \<open>Every run keeps them\<close>

definition sched_inv :: "sched_config \<Rightarrow> ('s, 'f, 'g, 't) sched \<Rightarrow> bool" where
  "sched_inv c s \<longleftrightarrow>
     books (held s) s \<and> sc_config s = c \<and> busy s + length (admit s) \<le> max (max_concurrent c) 1 \<and>
     (sc_phase s \<noteq> Absorbing \<longrightarrow> admit s = [])"

lemma sched_inv_new: "sched_inv c (sched_new c rt st)"
  by (simp add: sched_inv_def sched_new_def books_def held_def in_system_def ended_def holding_def log_ok_def busy_def)

lemma submit_inv:
  assumes "sched_inv c s" and "submit spec t s = (s', r)"
  shows "sched_inv c s'"
proof -
  obtain s1 sem where sem: "user_semaphore (user_id spec) s = (s1, sem)" by fastforce
  note i = assms(1) [unfolded sched_inv_def]
  have u: "books (held s) s1 \<and> parts s1 = parts s \<and> map_of (user_slots s1) (user_id spec) = Some sem \<and> sem < next_sem s1"
    using user_semaphore_books [OF _ sem, of "held s"] i by blast
  note p = parts_eq [OF conjunct1 [OF conjunct2 [OF u]]]
  have "submit_with sem spec t s1 = (s', r)" using assms(2) sem by (simp add: submit_def)
  from submit_with_books [OF _ _ _ this] u p i show ?thesis by (simp add: sched_inv_def busy_def)
qed

lemma sched_step_inv:
  assumes "sched_step W s s'" and "sched_inv c s"
  shows "sched_inv c s'"
  using assms
proof (induction rule: sched_step.induct)
  case (Submit spec t s s' r)
  then show ?case using submit_inv by blast
next
  case (Receive s)
  have "held (receive s) = held s" by (simp add: held_def in_system_def receive_def)
  moreover have "books (held s) (receive s)" if "books (held s) s" by (rule books_cong [OF that]) (simp_all add: receive_def)
  ultimately show ?case using Receive by (simp add: sched_inv_def receive_def busy_def)
next
  case (Sweep s E)
  then show ?case using sweep_books [of s E] by (simp add: sched_inv_def busy_def)
next
  case (Admit s E)
  then have e: "books (held s) s" "admit s = []" and "busy s \<le> max_active s"
    by (simp_all add: sched_inv_def max_active_def)
  with admit_phase_books [OF e, of E] Admit show ?case
    by (simp add: sched_inv_def busy_def max_active_def le_diff_conv2 add.commute)
next
  case (Absorb s E s')
  then have "books (held s) s" "busy s + length (admit s) \<le> max_active s"
    by (simp_all add: sched_inv_def max_active_def)
  from absorb_phase_books [OF this Absorb(2)] Absorb(3) show ?case by (auto simp: sched_inv_def max_active_def)
next
  case (Decode s E s')
  then have b: "books (held s) s" "busy s \<le> max_active s" "admit s = []"
    by (simp_all add: sched_inv_def max_active_def)
  from decode_phase_books [OF b(1,2) Decode(2)] b(3) Decode(3) show ?case by (auto simp: sched_inv_def max_active_def)
next
  case (Died s)
  with worker_died_books [of s] show ?case by (simp add: sched_inv_def)
qed

lemma sched_run_inv: "sched_run W c rt st s \<Longrightarrow> sched_inv c s"
  by (induction rule: sched_run.induct) (auto intro: sched_inv_new sched_step_inv)


section \<open>Properties\<close>



text \<open>A stream of events ends at most once and nothing follows its end: in every reachable state a
  request still in the system has had token events only, and after a terminal event no event of
  that request was sent.\<close>

theorem stream_ends_once:
  assumes "sched_run W c rt st s"
  shows "(\<forall>r \<in> set (in_system s). \<forall>e. (rq_seq r, e) \<in> set (sent s) \<longrightarrow> (\<exists>t. e = TokenEv t)) \<and>
    (\<forall>i j. i < j \<longrightarrow> j < length (sent s) \<longrightarrow> fst (sent s ! i) = fst (sent s ! j) \<longrightarrow> (\<exists>t. snd (sent s ! i) = TokenEv t))"
proof (rule conjI)
  have b: "books (held s) s" using sched_run_inv [OF assms] by (simp add: sched_inv_def)
  have tok: "\<not> terminal e \<longleftrightarrow> (\<exists>t. e = TokenEv t)" for e by (cases e) (simp_all add: terminal_def)
  show "\<forall>r \<in> set (in_system s). \<forall>e. (rq_seq r, e) \<in> set (sent s) \<longrightarrow> (\<exists>t. e = TokenEv t)"
    using b tok by (simp add: books_def held_def)
  show "\<forall>i j. i < j \<longrightarrow> j < length (sent s) \<longrightarrow> fst (sent s ! i) = fst (sent s ! j) \<longrightarrow> (\<exists>t. snd (sent s ! i) = TokenEv t)"
  proof (intro allI impI)
    fix i j assume ij: "i < j" "j < length (sent s)" "fst (sent s ! i) = fst (sent s ! j)"
    have "log_ok (sent s)" using b by (simp add: books_def)
    with ij have "\<not> terminal (snd (sent s ! i))"
      by (auto simp: log_ok_def sorted_wrt_iff_nth_less case_prod_beta)
    then show "\<exists>t. snd (sent s ! i) = TokenEv t" by (simp only: tok)
  qed
qed

section \<open>The order of admission\<close>

locale work_queue =
  fixes pop :: "'h \<Rightarrow> ('r \<times> 'h) option"
    and items :: "'h \<Rightarrow> 'r multiset"
    and better :: "'r \<Rightarrow> 'r \<Rightarrow> bool"
  assumes pop_None: "pop h = None \<longleftrightarrow> items h = {#}"
    and pop_Some: "pop h = Some (r, h') \<Longrightarrow> items h = add_mset r (items h')"
    and pop_best: "pop h = Some (r, h') \<Longrightarrow> x \<in># items h' \<Longrightarrow> \<not> better x r"
begin

lemma pop_size: "pop h = Some (r, h') \<Longrightarrow> size (items h') < size (items h)"
  by (simp add: pop_Some)

lemma pop_two: "pop h = Some (r, h') \<Longrightarrow> pop h' = Some (x, h'') \<Longrightarrow> \<not> better x r"
  using pop_best pop_Some by fastforce

lemma pop_rest: "pop h = Some (r, h') \<Longrightarrow> items h' = A + B \<Longrightarrow> x \<in># A + B \<Longrightarrow> \<not> better x r"
  using pop_best by metis

end

lemma outranks_order:
  "\<not> outranks a a" "outranks a b \<Longrightarrow> outranks b c \<Longrightarrow> outranks a c"
  "\<not> outranks a b \<Longrightarrow> \<not> outranks b c \<Longrightarrow> \<not> outranks a c"
  by (auto simp: outranks_def)

lemma outranks_asym: "outranks a b \<Longrightarrow> \<not> outranks b a"
  using outranks_order(1,2) by blast

lemma foldl_best:
  "x \<in> insert a (set xs) \<Longrightarrow> \<not> outranks x (foldl (\<lambda>m y. if outranks y m then y else m) a xs)"
proof (induction xs arbitrary: a x)
  case Nil
  then show ?case by (simp add: outranks_order(1))
next
  case (Cons b xs)
  let ?a = "if outranks b a then b else a"
  let ?m = "foldl (\<lambda>m y. if outranks y m then y else m) ?a xs"
  have ih: "\<not> outranks y ?m" if "y \<in> insert ?a (set xs)" for y by (rule Cons.IH [OF that])
  have "\<not> outranks a ?a" and "\<not> outranks b ?a"
    using outranks_asym [of b a] outranks_order(1) [of a] outranks_order(1) [of b] by (cases "outranks b a"; simp)+
  moreover have "\<not> outranks ?a ?m" by (rule ih) simp
  ultimately have ab: "\<not> outranks a ?m" "\<not> outranks b ?m" using outranks_order(3) by blast+
  have "x = a \<or> x = b \<or> x \<in> set xs" using Cons.prems by simp
  then have "\<not> outranks x ?m"
  proof (elim disjE)
    assume "x \<in> set xs"
    then show ?thesis by (intro ih) (rule insertI2)
  qed (use ab in \<open>simp_all only: not_False_eq_True\<close>)
  then show ?case unfolding foldl_Cons .
qed

interpretation wq: work_queue heap_pop mset outranks
proof (unfold_locales, goal_cases)
  case (1 h)
  then show ?case by (cases h) (simp_all add: heap_pop_def Let_def)
next
  case (2 h r h')
  then show ?case using heap_pop_Some by fastforce
next
  case (3 h r h' x)
  then have "h \<noteq> []" by (auto simp: heap_pop_def)
  then obtain a xs where h: "h = a # xs" by (cases h) auto
  then have "r = foldl (\<lambda>m y. if outranks y m then y else m) a xs"
    using 3(1) by (simp add: heap_pop_def Let_def)
  moreover have "x \<in> set h'" using 3(2) by simp
  then have "x \<in> set h" using heap_pop_Some [OF 3(1)] by (metis notin_set_remove1)
  ultimately show ?case using foldl_best [of x a xs] h by simp
qed

text \<open>C19 Priority order: admission takes requests from the queue highest priority first and, within a
  priority, oldest first; it skips exactly requests whose client is gone, leaves behind none that
  outranks one it admitted, and stops short of the free slots only when the queue is empty.\<close>

theorem admission_order:
  "case admit_loop E n h of (as, ds, h') \<Rightarrow>
     mset h = mset as + mset ds + mset h' \<and> length as \<le> n \<and> (length as < n \<longrightarrow> h' = []) \<and>
     sorted_wrt (\<lambda>a b. \<not> outranks b a) as \<and> (\<forall>r \<in> set ds. gone E r) \<and>
     (\<forall>a \<in> set as. \<not> gone E a \<and> (\<forall>r \<in> set h'. \<not> outranks r a))"
proof (induction E n h rule: admit_loop.induct)
  case (1 E n h)
  show ?case
  proof (cases "n = 0 \<or> heap_pop h = None")
    case True
    then show ?thesis using wq.pop_None [of h] by (auto simp: admit_loop.simps [of E n h] split: option.splits)
  next
    case False
    then obtain r hr where pop: "heap_pop h = Some (r, hr)" and n: "0 < n" by auto
    have h: "mset h = add_mset r (mset hr)" by (rule wq.pop_Some [OF pop])
    show ?thesis
    proof (cases "gone E r")
      case True
      obtain as ds h1 where rest: "admit_loop E n hr = (as, ds, h1)" by (metis prod_cases3)
      have "admit_loop E n h = (as, r # ds, h1)"
        using False pop True rest by (simp add: admit_loop.simps [of E n h])
      with "1.IH"(1) [OF _ pop refl True] False rest h True show ?thesis by simp
    next
      case notgone: False
      obtain as ds h1 where rest: "admit_loop E (n - 1) hr = (as, ds, h1)" by (metis prod_cases3)
      have run: "admit_loop E n h = (r # as, ds, h1)"
        using False pop notgone rest by (simp add: admit_loop.simps [of E n h])
      from "1.IH"(2) [OF _ pop refl notgone] False rest
      have ih: "mset hr = mset as + mset ds + mset h1 \<and> length as \<le> n - 1 \<and> (length as < n - 1 \<longrightarrow> h1 = []) \<and>
          sorted_wrt (\<lambda>a b. \<not> outranks b a) as \<and> (\<forall>r \<in> set ds. gone E r) \<and>
          (\<forall>a \<in> set as. \<not> gone E a \<and> (\<forall>r \<in> set h1. \<not> outranks r a))" by simp
      have below: "\<not> outranks x r" if "x \<in> set as \<union> set h1" for x
        using wq.pop_best [OF pop, of x] ih that by (simp add: Un_iff) (metis union_iff set_mset_mset)
      show ?thesis using run ih n h notgone below by auto
    qed
  qed
qed


section \<open>The queue is not bounded\<close>

text \<open>The queue capacity does not bound the waiting requests: the worker moves the channel into its
  heap, which has no bound, each time round its loop, and the next submission is then accepted
  however many are waiting.\<close>

theorem capacity_not_enforced:
  assumes "sched_run W c rt st s" and "sc_phase s = Receiving" and "chan s \<noteq> []"
    and "map_of (user_slots s) (user_id spec) = Some sem" and "0 < available s sem" and "length (user_slots s) \<le> 1024"
  shows "\<exists>s' q. sched_run W c rt st (receive s) \<and> submit spec t (receive s) = (s', Inr q) \<and>
    length (heap s') = length (heap s) + length (chan s) \<and> length (chan s') = 1"
proof -
  have "sched_run W c rt st (receive s)"
    by (rule sched_run.Step [OF assms(1)], rule sched_step.Receive) (use assms(2,3) in simp_all)
  moreover have "user_semaphore (user_id spec) (receive s) = (receive s, sem)"
    using assms(4,6) by (simp add: user_semaphore_def receive_def Let_def)
  ultimately show ?thesis
    using assms(5) by (simp add: submit_def submit_with_def receive_def count_submitted_def Let_def)
qed


section \<open>A run\<close>

text \<open>Two requests of one user, submitted one after the other.\<close>

definition int_time :: "int f64_ops" where
  "int_time = \<lparr>d_zero = 0, d_alpha = 1, d_rest = 3, d_add = (+), d_mul = (*), d_div = (div), d_less = (<),
     d_of_nat = int, d_to_nat = nat\<rparr>"

definition count_world :: "(int, unit, int) world" where
  "count_world = \<lparr>w_fops = int_ops, w_gain = flat_gain, w_hash = id, w_time = int_time\<rparr>"

definition small_config :: sched_config where
  "small_config = \<lparr>max_concurrent = 1, speculative_lookahead = 4, queue_capacity = 1, max_per_user = 3\<rparr>"

definition ask :: "priority \<Rightarrow> int request_spec" where
  "ask p = \<lparr>user_id = ''ann'', rs_prompt = [0, 1], rs_params = cold, rs_priority = p, rs_timeout = 60\<rparr>"

definition one_waiting :: "(unit, int, unit, int) sched" where
  "one_waiting = fst (submit (ask Low) 0 (sched_new small_config (count_rt count_backend) ()))"

lemma one_waiting_run: "sched_run count_world small_config (count_rt count_backend) () one_waiting"
  unfolding one_waiting_def
  by (rule sched_run.Step [OF sched_run.Start], rule sched_step.Submit, rule prod.collapse [symmetric])

lemma one_waiting_simps [simp]:
  "sc_phase one_waiting = Receiving" "heap one_waiting = []" "user_slots one_waiting = [(''ann'', 0)]"
  "available one_waiting 0 = 2" "next_sem one_waiting = 1" "n_submitted (counters one_waiting) = 1"
  "map user_id (map rq_spec (in_system one_waiting)) = [''ann'']" "length (chan one_waiting) = 1" "sent one_waiting = []" "chan one_waiting \<noteq> []"
  by (simp_all add: one_waiting_def submit_def user_semaphore_def sched_new_def submit_with_def small_config_def
      ask_def count_submitted_def in_system_def Let_def)



lemma stream_ends_once_witness:
  "\<not> (\<exists>r \<in> set (in_system one_waiting). \<exists>e. (rq_seq r, e) \<in> set (sent one_waiting) \<and> (\<nexists>t. e = TokenEv t))"
  using stream_ends_once [OF one_waiting_run] by blast

definition quiet :: "int env" where
  "quiet = \<lparr>cancelled = (\<lambda>_. False), closed = (\<lambda>q. q = 7), accepts = (\<lambda>_. 9), now = 0, prefill_time = 1, decode_time = 1\<rparr>"

definition queued_as :: "nat \<Rightarrow> priority \<Rightarrow> int request" where
  "queued_as n p = \<lparr>rq_seq = n, rq_spec = ask p, rq_submitted = 0, rq_permit = 0\<rparr>"

lemma admission_order_witness:
  "case admit_loop quiet 2 [queued_as 3 Low, queued_as 7 High, queued_as 5 High, queued_as 4 Low] of (as, ds, h') \<Rightarrow>
     length as \<le> 2 \<and> map rq_seq as = [5, 3] \<and> map rq_seq h' = [4]"
proof -
  let ?h = "[queued_as 3 Low, queued_as 7 High, queued_as 5 High, queued_as 4 Low]"

  have "case admit_loop quiet 2 ?h of (as, ds, h') \<Rightarrow> length as \<le> 2" using admission_order [where E = quiet and n = 2 and h = ?h] by auto
  moreover have "case admit_loop quiet 2 ?h of (as, ds, h') \<Rightarrow> map rq_seq as = [5, 3]" by code_simp
  moreover have "case admit_loop quiet 2 ?h of (as, ds, h') \<Rightarrow> map rq_seq h' = [4]" by code_simp
  ultimately show ?thesis by (auto split: prod.splits)
qed

lemma capacity_not_enforced_witness:
  "\<exists>s' q. submit (ask High) 0 (receive one_waiting) = (s', Inr q) \<and> length (heap s') + length (chan s') = 2 \<and>
     queue_capacity small_config = 1"
proof -
  have "\<exists>s' q. sched_run count_world small_config (count_rt count_backend) () (receive one_waiting) \<and>
      submit (ask High) 0 (receive one_waiting) = (s', Inr q) \<and>
      length (heap s') = length (heap one_waiting) + length (chan one_waiting) \<and> length (chan s') = 1"
  proof (rule capacity_not_enforced [OF one_waiting_run])
    show "0 < available one_waiting 0" unfolding one_waiting_simps(4) by simp
  qed (simp_all add: ask_def)
  then show ?thesis by (auto simp: small_config_def)
qed

end
