(* ===== verification/MemoryManager.thy ===== *)
theory MemoryManager
  imports ExpertCache Weights LocalStorage
begin

text \<open>
  \<open>garuda/src/memory/mod.rs\<close>: the three tiers an expert may live in. What an id stands for
  (\<open>truth\<close>) is what its file in the second tier says, else its file in the third, else the
  synthetic expert; the lemmas show that caching, promotion and materialisation never change
  it, whatever storage calls fail, and that a load that succeeds answers with it.

  The state is the manager and the two disks. The per-expert lock makes the part of a load
  after the lock is taken (\<open>load_locked\<close>) run once at a time per expert; between the first
  look into the cache and that part other threads may have run, which is why \<open>load_locked\<close>
  is stated on its own from any coherent state.
\<close>

datatype memory_tier = L1Ram | L2Ssd | L3Archive | Synthesised

record tier_counts =
  tc_l1 :: nat
  tc_l2 :: nat
  tc_l3 :: nat
  tc_synthesised :: nat
  tc_prefetched :: nat

record ('a, 'b) memory_manager =
  mm_dims :: model_dims
  l1 :: expert_cache
  l2 :: "'a storage_ops"
  l3 :: "'b storage_ops option"
  tiers :: tier_counts

type_synonym ('a, 'b) mm_state = "('a, 'b) memory_manager \<times> 'a \<times> 'b"

definition mm_new :: "model_dims \<Rightarrow> nat \<Rightarrow> 'a storage_ops \<Rightarrow> 'b storage_ops option \<Rightarrow> ('a, 'b) memory_manager res" where
  "mm_new dims budget s2 s3 =
     (case validate_dims dims of
        Inl e \<Rightarrow> Inl e
      | Inr _ \<Rightarrow> Inr \<lparr>mm_dims = dims, l1 = ec_new budget, l2 = s2, l3 = s3,
                     tiers = \<lparr>tc_l1 = 0, tc_l2 = 0, tc_l3 = 0, tc_synthesised = 0, tc_prefetched = 0\<rparr>\<rparr>)"

definition expert_path :: "expert_id \<Rightarrow> path" where
  "expert_path i = ''expert_'' @ show_nat (unat i) @ ''.bin''"

definition locate :: "('a, 'b) mm_state \<Rightarrow> expert_id \<Rightarrow> memory_tier" where
  "locate s i = (case s of (m, d2, d3) \<Rightarrow>
     if ec_contains (l1 m) i then L1Ram
     else if so_exists (l2 m) d2 (expert_path i) then L2Ssd
     else case l3 m of
       Some s3 \<Rightarrow> if so_exists s3 d3 (expert_path i) then L3Archive else Synthesised
     | None \<Rightarrow> Synthesised)"

definition count_l1 :: "('a, 'b) memory_manager \<Rightarrow> ('a, 'b) memory_manager" where
  "count_l1 m = m\<lparr>tiers := (tiers m)\<lparr>tc_l1 := Suc (tc_l1 (tiers m))\<rparr>\<rparr>"

definition count_l2 :: "('a, 'b) memory_manager \<Rightarrow> ('a, 'b) memory_manager" where
  "count_l2 m = m\<lparr>tiers := (tiers m)\<lparr>tc_l2 := Suc (tc_l2 (tiers m))\<rparr>\<rparr>"

definition count_l3 :: "('a, 'b) memory_manager \<Rightarrow> ('a, 'b) memory_manager" where
  "count_l3 m = m\<lparr>tiers := (tiers m)\<lparr>tc_l3 := Suc (tc_l3 (tiers m))\<rparr>\<rparr>"

definition count_synthesised :: "('a, 'b) memory_manager \<Rightarrow> ('a, 'b) memory_manager" where
  "count_synthesised m = m\<lparr>tiers := (tiers m)\<lparr>tc_synthesised := Suc (tc_synthesised (tiers m))\<rparr>\<rparr>"

definition count_prefetched :: "('a, 'b) memory_manager \<Rightarrow> ('a, 'b) memory_manager" where
  "count_prefetched m = m\<lparr>tiers := (tiers m)\<lparr>tc_prefetched := Suc (tc_prefetched (tiers m))\<rparr>\<rparr>"

text \<open>Reading from the second tier.\<close>

definition load_l2 :: "('a, 'b) mm_state \<Rightarrow> expert_id \<Rightarrow> ('a, 'b) mm_state \<times> expert res" where
  "load_l2 s i = (case s of (m, d2, d3) \<Rightarrow>
     case so_read (l2 m) d2 (expert_path i) of
       (d2', Inl e) \<Rightarrow> ((m, d2', d3), Inl e)
     | (d2', Inr bytes) \<Rightarrow>
         (case expert_from_bytes i (mm_dims m) bytes of
            Inl e \<Rightarrow> ((m, d2', d3), Inl e)
          | Inr ex \<Rightarrow> ((count_l2 m, d2', d3), Inr ex)))"

text \<open>Reading from the third tier, promoting the file into the second if that works.\<close>

definition load_l3 :: "'b storage_ops \<Rightarrow> ('a, 'b) mm_state \<Rightarrow> expert_id \<Rightarrow> ('a, 'b) mm_state \<times> expert res" where
  "load_l3 s3 s i = (case s of (m, d2, d3) \<Rightarrow>
     case so_read s3 d3 (expert_path i) of
       (d3', Inl e) \<Rightarrow> ((m, d2, d3'), Inl e)
     | (d3', Inr bytes) \<Rightarrow>
         (case expert_from_bytes i (mm_dims m) bytes of
            Inl e \<Rightarrow> ((m, d2, d3'), Inl e)
          | Inr ex \<Rightarrow> ((count_l3 m, fst (so_write (l2 m) d2 (expert_path i) bytes), d3'), Inr ex)))"

text \<open>Nowhere on disk: synthesise, and write the file if that works.\<close>

definition load_synthesised :: "f32_ops \<Rightarrow> ('a, 'b) mm_state \<Rightarrow> expert_id \<Rightarrow> ('a, 'b) mm_state \<times> expert res" where
  "load_synthesised F s i = (case s of (m, d2, d3) \<Rightarrow>
     let ex = synthesize_expert F i (mm_dims m)
     in ((count_synthesised m, fst (so_write (l2 m) d2 (expert_path i) (expert_to_bytes ex)), d3), Inr ex))"

definition load_uncached :: "f32_ops \<Rightarrow> ('a, 'b) mm_state \<Rightarrow> expert_id \<Rightarrow> ('a, 'b) mm_state \<times> expert res" where
  "load_uncached F s i = (case s of (m, d2, d3) \<Rightarrow>
     if so_exists (l2 m) d2 (expert_path i) then load_l2 s i
     else case l3 m of
       Some s3 \<Rightarrow> if so_exists s3 d3 (expert_path i) then load_l3 s3 s i else load_synthesised F s i
     | None \<Rightarrow> load_synthesised F s i)"

definition load_locked :: "f32_ops \<Rightarrow> ('a, 'b) mm_state \<Rightarrow> expert_id \<Rightarrow> ('a, 'b) mm_state \<times> expert res" where
  "load_locked F s i = (case s of (m, d2, d3) \<Rightarrow>
     case ec_get (l1 m) i of
       (c, Some ex) \<Rightarrow> ((count_l1 (m\<lparr>l1 := c\<rparr>), d2, d3), Inr ex)
     | (c, None) \<Rightarrow>
         (case load_uncached F (m\<lparr>l1 := c\<rparr>, d2, d3) i of
            (s', Inl e) \<Rightarrow> (s', Inl e)
          | ((m', d2', d3'), Inr ex) \<Rightarrow>
              ((m'\<lparr>l1 := fst (ec_insert (l1 m') i ex)\<rparr>, d2', d3'), Inr ex)))"

definition mm_load :: "f32_ops \<Rightarrow> ('a, 'b) mm_state \<Rightarrow> expert_id \<Rightarrow> ('a, 'b) mm_state \<times> expert res" where
  "mm_load F s i = (case s of (m, d2, d3) \<Rightarrow>
     if unat i \<ge> n_experts (mm_dims m)
     then (s, Inl (Model ''expert {id} does not exist (model has {})''))
     else case ec_get (l1 m) i of
       (c, Some ex) \<Rightarrow> ((count_l1 (m\<lparr>l1 := c\<rparr>), d2, d3), Inr ex)
     | (c, None) \<Rightarrow> load_locked F (m\<lparr>l1 := c\<rparr>, d2, d3) i)"

definition mm_unload :: "('a, 'b) mm_state \<Rightarrow> expert_id \<Rightarrow> ('a, 'b) mm_state" where
  "mm_unload s i = (case s of (m, d2, d3) \<Rightarrow> (m\<lparr>l1 := ec_remove (l1 m) i\<rparr>, d2, d3))"

definition mm_is_resident :: "('a, 'b) mm_state \<Rightarrow> expert_id \<Rightarrow> bool" where
  "mm_is_resident s i \<longleftrightarrow> ec_contains (l1 (fst s)) i"

definition mm_prefetch :: "f32_ops \<Rightarrow> ('a, 'b) mm_state \<Rightarrow> expert_id \<Rightarrow> ('a, 'b) mm_state \<times> unit res" where
  "mm_prefetch F s i =
     (if mm_is_resident s i then (s, Inr ())
      else case mm_load F s i of
        (s', Inl e) \<Rightarrow> (s', Inl e)
      | ((m, d2, d3), Inr _) \<Rightarrow> ((count_prefetched m, d2, d3), Inr ()))"


section \<open>What an id stands for\<close>

definition truth :: "f32_ops \<Rightarrow> model_dims \<Rightarrow> (path \<rightharpoonup> u8 list) \<Rightarrow> (path \<rightharpoonup> u8 list) \<Rightarrow> expert_id \<rightharpoonup> expert" where
  "truth F dims files2 files3 i =
     (let decode = (\<lambda>bytes. case expert_from_bytes i dims bytes of Inl _ \<Rightarrow> None | Inr e \<Rightarrow> Some e) in
      case files2 (expert_path i) of
        Some bytes \<Rightarrow> decode bytes
      | None \<Rightarrow>
          (case files3 (expert_path i) of
             Some bytes \<Rightarrow> decode bytes
           | None \<Rightarrow> Some (synthesize_expert F i dims)))"

text \<open>The arithmetic produces no infinity and no NaN in a synthetic expert.\<close>

definition synth_finite :: "f32_ops \<Rightarrow> model_dims \<Rightarrow> bool" where
  "synth_finite F dims \<longleftrightarrow> (\<forall>i. expert_wf i dims (synthesize_expert F i dims))"

lemma expert_path_inject [simp]: "expert_path i = expert_path j \<longleftrightarrow> i = j"
proof
  assume "expert_path i = expert_path j"
  then have "show_nat (unat i) @ CHR ''.'' # ''bin'' = show_nat (unat j) @ CHR ''.'' # ''bin''"
    by (simp add: expert_path_def)
  from show_nat_prefix_unique [OF this] have "unat i = unat j" by (simp add: is_digit_char_def)
  then show "i = j" by (simp add: word_unat_eq_iff)
qed simp

lemma expert_path_good: "good_path (expert_path i)"
proof -
  have "CHR ''/'' \<notin> set (show_nat (unat i))"
    using show_nat_digits [of "CHR ''/''" "unat i"] by (auto simp: is_digit_char_def)
  then have "bin_path [expert_path i]"
    by (auto simp: bin_path_def plain_name_def expert_path_def
        intro!: exI [of _ "''expert_'' @ show_nat (unat i)"])
  then show ?thesis unfolding good_path_def by (intro exI [of _ "[expert_path i]"]) simp
qed

definition files3_of :: "('b \<Rightarrow> path \<rightharpoonup> u8 list) \<Rightarrow> ('a, 'b) mm_state \<Rightarrow> path \<rightharpoonup> u8 list" where
  "files3_of content3 s = (case s of (m, d2, d3) \<Rightarrow> if l3 m = None then Map.empty else content3 d3)"

definition meaning :: "f32_ops \<Rightarrow> ('a \<Rightarrow> path \<rightharpoonup> u8 list) \<Rightarrow> ('b \<Rightarrow> path \<rightharpoonup> u8 list) \<Rightarrow>
    ('a, 'b) mm_state \<Rightarrow> expert_id \<rightharpoonup> expert" where
  "meaning F content2 content3 s =
     truth F (mm_dims (fst s)) (content2 (fst (snd s))) (files3_of content3 s)"

definition mm_loads :: "('a, 'b) memory_manager \<Rightarrow> nat" where
  "mm_loads m = (let t = tiers m in tc_l1 t + tc_l2 t + tc_l3 t + tc_synthesised t)"

definition mm_inv :: "f32_ops \<Rightarrow> 'a storage_ops \<Rightarrow> ('a \<Rightarrow> path \<rightharpoonup> u8 list) \<Rightarrow>
    'b storage_ops \<Rightarrow> ('b \<Rightarrow> path \<rightharpoonup> u8 list) \<Rightarrow> ('a, 'b) mm_state \<Rightarrow> bool" where
  "mm_inv F ops2 content2 ops3 content3 s \<longleftrightarrow>
     l2 (fst s) = ops2 \<and> l3 (fst s) \<in> {None, Some ops3} \<and> ec_inv (l1 (fst s)) \<and>
     loaded (l1 (fst s)) \<subseteq>\<^sub>m meaning F content2 content3 s"

text \<open>What a read below the cache may change.\<close>

definition tier_step :: "('a, 'b) mm_state \<Rightarrow> ('a, 'b) mm_state \<Rightarrow> bool" where
  "tier_step s s' \<longleftrightarrow>
     mm_dims (fst s') = mm_dims (fst s) \<and> l1 (fst s') = l1 (fst s) \<and> l2 (fst s') = l2 (fst s) \<and>
     l3 (fst s') = l3 (fst s)"

lemma count_simps [simp]:
  "mm_dims (count_l1 m) = mm_dims m" "l1 (count_l1 m) = l1 m" "l2 (count_l1 m) = l2 m" "l3 (count_l1 m) = l3 m"
  "mm_dims (count_l2 m) = mm_dims m" "l1 (count_l2 m) = l1 m" "l2 (count_l2 m) = l2 m" "l3 (count_l2 m) = l3 m"
  "mm_dims (count_l3 m) = mm_dims m" "l1 (count_l3 m) = l1 m" "l2 (count_l3 m) = l2 m" "l3 (count_l3 m) = l3 m"
  "mm_dims (count_synthesised m) = mm_dims m" "l1 (count_synthesised m) = l1 m"
  "l2 (count_synthesised m) = l2 m" "l3 (count_synthesised m) = l3 m"
  "mm_dims (count_prefetched m) = mm_dims m" "l1 (count_prefetched m) = l1 m"
  "l2 (count_prefetched m) = l2 m" "l3 (count_prefetched m) = l3 m"
  by (simp_all add: count_l1_def count_l2_def count_l3_def count_synthesised_def count_prefetched_def)

lemma mm_loads_count [simp]:
  "mm_loads (count_l1 m) = Suc (mm_loads m)" "mm_loads (count_l2 m) = Suc (mm_loads m)"
  "mm_loads (count_l3 m) = Suc (mm_loads m)" "mm_loads (count_synthesised m) = Suc (mm_loads m)"
  "mm_loads (count_prefetched m) = mm_loads m" "mm_loads (m\<lparr>l1 := c\<rparr>) = mm_loads m"
  by (simp_all add: mm_loads_def count_l1_def count_l2_def count_l3_def count_synthesised_def
      count_prefetched_def Let_def)

lemma truth_cong:
  assumes "\<And>j. files2' (expert_path j) = files2 (expert_path j)"
    and "\<And>j. files3' (expert_path j) = files3 (expert_path j)"
  shows "truth F dims files2' files3' = truth F dims files2 files3"
  by (rule ext) (simp add: truth_def Let_def assms split: option.split)

text \<open>Writing an expert's own encoding into the second tier changes no meaning.\<close>

lemma truth_write:
  assumes none: "files2 (expert_path i) = None"
    and new: "files2' (expert_path i) = None \<or>
      files2' (expert_path i) = Some bytes \<and>
      truth F dims files2 files3 i = (case expert_from_bytes i dims bytes of Inl _ \<Rightarrow> None | Inr e \<Rightarrow> Some e)"
    and other: "\<And>j. j \<noteq> i \<Longrightarrow> files2' (expert_path j) = files2 (expert_path j)"
  shows "truth F dims files2' files3 = truth F dims files2 files3"
proof
  fix j
  show "truth F dims files2' files3 j = truth F dims files2 files3 j"
  proof (cases "j = i")
    case True
    then show ?thesis using new none by (auto simp: truth_def Let_def)
  next
    case False
    then show ?thesis using other [OF False] by (simp add: truth_def)
  qed
qed

locale tier_storage =
  l2: storage_backend ops2 content2 good + l3: storage_backend ops3 content3 good
  for ops2 :: "'a storage_ops" and content2 :: "'a \<Rightarrow> path \<rightharpoonup> u8 list"
    and ops3 :: "'b storage_ops" and content3 :: "'b \<Rightarrow> path \<rightharpoonup> u8 list" and good :: "path \<Rightarrow> bool" +
  assumes expert_good: "good (expert_path i)"
begin

lemma write_l2:
  assumes "content2 d2 (expert_path i) = None"
    and "truth F dims (content2 d2) files3 i =
      (case expert_from_bytes i dims bytes of Inl _ \<Rightarrow> None | Inr e \<Rightarrow> Some e)"
  shows "truth F dims (content2 (fst (so_write ops2 d2 (expert_path i) bytes))) files3 =
    truth F dims (content2 d2) files3"
proof -
  obtain d2' r where w: "so_write ops2 d2 (expert_path i) bytes = (d2', r)" by fastforce
  have "content2 d2' (expert_path i) = None \<or> content2 d2' (expert_path i) = Some bytes"
  proof (cases r)
    case (Inl e)
    then show ?thesis using l2.write_err [OF w [unfolded Inl] expert_good] assms(1) by simp
  next
    case (Inr u)
    then show ?thesis using l2.write_ok [OF w [unfolded Inr] expert_good] by simp
  qed
  moreover have "content2 d2' (expert_path j) = content2 d2 (expert_path j)" if "j \<noteq> i" for j
    using l2.write_frame [OF w expert_good expert_good] that by simp
  ultimately show ?thesis
    unfolding w fst_conv using assms by (intro truth_write [where i = i and bytes = bytes]) auto
qed

lemma read_l2:
  "so_read ops2 d2 (expert_path i) = (d2', r) \<Longrightarrow>
     truth F dims (content2 d2') files3 = truth F dims (content2 d2) files3"
  using l2.read_frame [OF _ expert_good expert_good] by (intro truth_cong) auto

lemma read_l3:
  "so_read ops3 d3 (expert_path i) = (d3', r) \<Longrightarrow>
     truth F dims files2 (content3 d3') = truth F dims files2 (content3 d3)"
  using l3.read_frame [OF _ expert_good expert_good] by (intro truth_cong) auto

lemma load_uncached_keeps:
  assumes run: "load_uncached F s i = (s', r)"
    and cfg: "l2 (fst s) = ops2" "l3 (fst s) \<in> {None, Some ops3}"
    and fin: "synth_finite F (mm_dims (fst s))"
  shows "tier_step s s' \<and> meaning F content2 content3 s' = meaning F content2 content3 s \<and>
    (\<forall>ex. r = Inr ex \<longrightarrow> meaning F content2 content3 s i = Some ex) \<and>
    mm_loads (fst s') = mm_loads (fst s) + (case r of Inl _ \<Rightarrow> 0 | Inr _ \<Rightarrow> 1)"
proof -
  obtain m d2 d3 where s: "s = (m, d2, d3)" by (cases s)
  have cfg': "l2 m = ops2" "l3 m = None \<or> l3 m = Some ops3" using cfg s by auto
  show ?thesis
  proof (cases "content2 d2 (expert_path i)")
    case (Some bytes)
    then have run2: "load_l2 s i = (s', r)"
      using run cfg' l2.exists_iff [OF expert_good] by (simp add: load_uncached_def s)
    obtain d2' r2 where rd: "so_read ops2 d2 (expert_path i) = (d2', r2)" by fastforce
    show ?thesis
    proof (cases r2)
      case (Inl e)
      then show ?thesis using run2 rd cfg' read_l2 [OF rd]
        by (auto simp: load_l2_def s tier_step_def meaning_def files3_of_def)
    next
      case (Inr bs)
      have "content2 d2 (expert_path i) = Some bs" using l2.read_ok [OF rd [unfolded Inr] expert_good] .
      then have t: "meaning F content2 content3 s i =
          (case expert_from_bytes i (mm_dims m) bs of Inl _ \<Rightarrow> None | Inr e \<Rightarrow> Some e)"
        by (simp add: meaning_def truth_def s)
      then show ?thesis using run2 rd Inr cfg' read_l2 [OF rd]
        by (auto simp: load_l2_def s tier_step_def meaning_def files3_of_def
            split: sum.splits)
    qed
  next
    case None
    then have ex2: "\<not> so_exists ops2 d2 (expert_path i)" using l2.exists_iff [OF expert_good] by simp
    show ?thesis
    proof (cases "l3 m = Some ops3 \<and> content3 d3 (expert_path i) \<noteq> None")
      case True
      then have run3: "load_l3 ops3 s i = (s', r)"
        using run cfg' ex2 l3.exists_iff [OF expert_good] by (simp add: load_uncached_def s)
      obtain d3' r3 where rd: "so_read ops3 d3 (expert_path i) = (d3', r3)" by fastforce
      show ?thesis
      proof (cases r3)
        case (Inl e)
        then show ?thesis using run3 rd cfg' True read_l3 [OF rd]
          by (auto simp: load_l3_def s tier_step_def meaning_def files3_of_def)
      next
        case (Inr bs)
        have "content3 d3 (expert_path i) = Some bs" using l3.read_ok [OF rd [unfolded Inr] expert_good] .
        then have t: "truth F (mm_dims m) (content2 d2) (content3 d3) i =
            (case expert_from_bytes i (mm_dims m) bs of Inl _ \<Rightarrow> None | Inr e \<Rightarrow> Some e)"
          using None by (simp add: truth_def)
        have "truth F (mm_dims m) (content2 d2) (content3 d3') i =
            (case expert_from_bytes i (mm_dims m) bs of Inl _ \<Rightarrow> None | Inr e \<Rightarrow> Some e)"
          using t read_l3 [OF rd] by metis
        note w = write_l2 [OF None this]
        show ?thesis using run3 rd Inr cfg' True t w read_l3 [OF rd]
          by (auto simp: load_l3_def s tier_step_def meaning_def files3_of_def
              split: sum.splits)
      qed
    next
      case False
      let ?ex = "synthesize_expert F i (mm_dims m)" and ?f3 = "files3_of content3 s"
      have "load_synthesised F s i = (s', r)"
        using run cfg' ex2 False l3.exists_iff [OF expert_good] by (auto simp: load_uncached_def s)
      then have s': "s' = (count_synthesised m,
          fst (so_write ops2 d2 (expert_path i) (expert_to_bytes ?ex)), d3)" and r: "r = Inr ?ex"
        using cfg' by (simp_all add: load_synthesised_def s Let_def)
      have wf: "expert_from_bytes i (mm_dims m) (expert_to_bytes ?ex) = Inr ?ex"
        using fin s by (intro expert_to_bytes_back) (simp add: synth_finite_def)
      have "?f3 (expert_path i) = None" using False cfg' by (auto simp: files3_of_def s)
      then have t: "truth F (mm_dims m) (content2 d2) ?f3 i = Some ?ex"
        using None by (simp add: truth_def)
      then have w: "truth F (mm_dims m) (content2 (fst (so_write ops2 d2 (expert_path i) (expert_to_bytes ?ex)))) ?f3 =
          truth F (mm_dims m) (content2 d2) ?f3"
        using wf by (intro write_l2 [OF None]) simp
      then show ?thesis using t r unfolding s'
        by (auto simp: s tier_step_def meaning_def files3_of_def)
    qed
  qed
qed

end

interpretation local_tiers: tier_storage "local_ops b2" "local_content b2" "local_ops b3" "local_content b3" good_path
  by unfold_locales (rule expert_path_good)

section \<open>The loader\<close>

context tier_storage
begin

abbreviation "means F s \<equiv> meaning F content2 content3 s"
abbreviation "coherent F s \<equiv> mm_inv F ops2 content2 ops3 content3 s"

lemma means_l1 [simp]: "means F (m\<lparr>l1 := c\<rparr>, d) = means F (m, d)"
  by (simp add: meaning_def files3_of_def split: prod.split)

lemma means_count [simp]:
  "means F (count_l1 m, d) = means F (m, d)" "means F (count_prefetched m, d) = means F (m, d)"
  by (simp_all add: meaning_def files3_of_def split: prod.split)

lemma load_locked_keeps:
  assumes run: "load_locked F s i = (s', r)" and inv: "coherent F s"
    and fin: "synth_finite F (mm_dims (fst s))"
  shows "coherent F s' \<and> means F s' = means F s \<and> mm_dims (fst s') = mm_dims (fst s) \<and>
    (\<forall>ex. r = Inr ex \<longrightarrow> means F s i = Some ex \<and> loaded (l1 (fst s')) i = Some ex) \<and>
    mm_loads (fst s') = mm_loads (fst s) + (case r of Inl _ \<Rightarrow> 0 | Inr _ \<Rightarrow> 1)"
proof -
  obtain m d2 d3 where s: "s = (m, d2, d3)" by (cases s)
  have m: "l2 m = ops2" "l3 m \<in> {None, Some ops3}" "ec_inv (l1 m)" "loaded (l1 m) \<subseteq>\<^sub>m means F s"
    using inv by (simp_all add: mm_inv_def s)
  obtain c o1 where get: "ec_get (l1 m) i = (c, o1)" by fastforce
  note g = ec_get_keeps [OF get m(3)]
  show ?thesis
  proof (cases o1)
    case (Some ex)
    then have "means F s i = Some ex" using ec.get_coherent [OF m(3,4)] get by blast
    then show ?thesis using run get Some g m by (auto simp: load_locked_def s mm_inv_def)
  next
    case None
    obtain s1 r1 where unc: "load_uncached F (m\<lparr>l1 := c\<rparr>, d2, d3) i = (s1, r1)" by fastforce
    have k: "tier_step (m\<lparr>l1 := c\<rparr>, d2, d3) s1" "means F s1 = means F s"
      "\<forall>ex. r1 = Inr ex \<longrightarrow> means F s i = Some ex"
      "mm_loads (fst s1) = mm_loads m + (case r1 of Inl _ \<Rightarrow> 0 | Inr _ \<Rightarrow> 1)"
      using load_uncached_keeps [OF unc] m fin by (simp_all add: s)
    obtain m1 e2 e3 where s1: "s1 = (m1, e2, e3)" by (cases s1)
    have m1: "mm_dims m1 = mm_dims m" "l1 m1 = c" "l2 m1 = ops2" "l3 m1 \<in> {None, Some ops3}"
      using k(1) m by (simp_all add: tier_step_def s1)
    show ?thesis
    proof (cases r1)
      case (Inl e)
      then have "s' = s1" and "r = Inl e" using run get None unc by (simp_all add: load_locked_def s s1)
      then show ?thesis using k m1 m g Inl by (auto simp: mm_inv_def s1 s)
    next
      case (Inr ex)
      obtain c' ev where ins: "ec_insert c i ex = (c', ev)" by fastforce
      have s': "s' = (m1\<lparr>l1 := c'\<rparr>, e2, e3)" and r: "r = Inr ex"
        using run get None unc Inr m1 ins by (simp_all add: load_locked_def s s1)
      have c: "ec_inv c" "loaded c \<subseteq>\<^sub>m means F s" using g m by simp_all
      have "loaded c' \<subseteq>\<^sub>m means F s" using ec.insert_coherent [OF c _ ins] k(3) Inr by blast
      moreover have "ec_inv c'" "loaded c' i = Some ex" using ec_insert_spec(1,2) [OF ins c(1)] by simp_all
      moreover have "means F s' = means F s" using k(2) by (simp add: s' s1)
      ultimately show ?thesis using k(3,4) m1 Inr r by (simp add: mm_inv_def s' s s1)
    qed
  qed
qed

lemma mm_load_keeps:
  assumes run: "mm_load F s i = (s', r)" and inv: "coherent F s"
    and fin: "synth_finite F (mm_dims (fst s))"
  shows "coherent F s' \<and> means F s' = means F s \<and> mm_dims (fst s') = mm_dims (fst s) \<and>
    (\<forall>ex. r = Inr ex \<longrightarrow> means F s i = Some ex \<and> loaded (l1 (fst s')) i = Some ex) \<and>
    mm_loads (fst s') = mm_loads (fst s) + (case r of Inl _ \<Rightarrow> 0 | Inr _ \<Rightarrow> 1)"
proof -
  obtain m d2 d3 where s: "s = (m, d2, d3)" by (cases s)
  have m: "l2 m = ops2" "l3 m \<in> {None, Some ops3}" "ec_inv (l1 m)" "loaded (l1 m) \<subseteq>\<^sub>m means F s"
    using inv by (simp_all add: mm_inv_def s)
  obtain c o1 where get: "ec_get (l1 m) i = (c, o1)" by fastforce
  note g = ec_get_keeps [OF get m(3)]
  show ?thesis
  proof (cases "unat i \<ge> n_experts (mm_dims m)")
    case True
    then show ?thesis using run inv by (auto simp: mm_load_def s)
  next
    case False
    show ?thesis
    proof (cases o1)
      case (Some ex)
      then have "means F s i = Some ex" using ec.get_coherent [OF m(3,4)] get by blast
      then show ?thesis using run get Some g m False by (auto simp: mm_load_def s mm_inv_def)
    next
      case None
      then have run': "load_locked F (m\<lparr>l1 := c\<rparr>, d2, d3) i = (s', r)"
        using run get False by (simp add: mm_load_def s)
      have inv': "coherent F (m\<lparr>l1 := c\<rparr>, d2, d3)" using g m by (simp add: mm_inv_def s)
      from load_locked_keeps [OF run' inv'] fin show ?thesis by (simp add: s)
    qed
  qed
qed

lemma mm_prefetch_keeps:
  assumes run: "mm_prefetch F s i = (s', r)" and inv: "coherent F s"
    and fin: "synth_finite F (mm_dims (fst s))"
  shows "coherent F s' \<and> means F s' = means F s \<and> mm_dims (fst s') = mm_dims (fst s) \<and>
    (r = Inr () \<longrightarrow> mm_is_resident s' i)"
proof (cases "mm_is_resident s i")
  case True
  then show ?thesis using run inv by (auto simp: mm_prefetch_def)
next
  case False
  obtain s1 r1 where ld: "mm_load F s i = (s1, r1)" by fastforce
  obtain m1 e where s1: "s1 = (m1, e)" by (cases s1)
  note k = mm_load_keeps [OF ld inv fin]
  show ?thesis
  proof (cases r1)
    case (Inl e)
    then show ?thesis using run ld False k by (auto simp: mm_prefetch_def)
  next
    case (Inr ex)
    then have "s' = (count_prefetched m1, e)" "r = Inr ()"
      using run ld False s1 by (auto simp: mm_prefetch_def split: prod.splits)
    then show ?thesis using k Inr by (auto simp: s1 mm_inv_def mm_is_resident_def ec_contains_def)
  qed
qed

lemma mm_unload_keeps:
  assumes inv: "coherent F s"
  shows "coherent F (mm_unload s i) \<and> means F (mm_unload s i) = means F s \<and>
    mm_dims (fst (mm_unload s i)) = mm_dims (fst s)"
proof -
  obtain m d where s: "s = (m, d)" by (cases s)
  have m: "ec_inv (l1 m)" "loaded (l1 m) \<subseteq>\<^sub>m means F s"
    using inv by (simp_all add: mm_inv_def s)
  have u: "mm_unload s i = (m\<lparr>l1 := ec_remove (l1 m) i\<rparr>, d)"
    by (cases d) (simp add: mm_unload_def s)
  show ?thesis
    using inv ec_remove_keeps [OF m(1), of i] ec.remove_coherent [OF m, of i] unfolding u
    by (simp add: mm_inv_def s)
qed

end

section \<open>The loader trait\<close>

text \<open>
  What the forward pass and the prefetcher rely on (\<open>ExpertLoader\<close> in
  \<open>core/mod.rs\<close>): calls may fail, but none of them changes what an id stands for, and a
  load that succeeds answers with it.
\<close>

locale expert_loader =
  fixes load :: "'s \<Rightarrow> expert_id \<Rightarrow> 's \<times> expert res"
    and unload :: "'s \<Rightarrow> expert_id \<Rightarrow> 's"
    and prefetch :: "'s \<Rightarrow> expert_id \<Rightarrow> 's \<times> unit res"
    and stands_for :: "'s \<Rightarrow> expert_id \<rightharpoonup> expert"
    and ok :: "'s \<Rightarrow> bool"
  assumes load_ok: "ok s \<Longrightarrow> load s i = (s', r) \<Longrightarrow>
      ok s' \<and> stands_for s' = stands_for s \<and> (\<forall>ex. r = Inr ex \<longrightarrow> stands_for s i = Some ex)"
    and unload_ok: "ok s \<Longrightarrow> ok (unload s i) \<and> stands_for (unload s i) = stands_for s"
    and prefetch_ok: "ok s \<Longrightarrow> prefetch s i = (s', r') \<Longrightarrow> ok s' \<and> stands_for s' = stands_for s"

text \<open>Any sequence of calls, with the answers of its loads.\<close>

datatype loader_op = Load expert_id | Unload expert_id | Prefetch expert_id

fun loader_run :: "('s \<Rightarrow> expert_id \<Rightarrow> 's \<times> expert res) \<Rightarrow> ('s \<Rightarrow> expert_id \<Rightarrow> 's) \<Rightarrow>
    ('s \<Rightarrow> expert_id \<Rightarrow> 's \<times> unit res) \<Rightarrow> 's \<Rightarrow> loader_op list \<Rightarrow> 's \<times> (expert_id \<times> expert res) list" where
  "loader_run load unload prefetch s [] = (s, [])"
| "loader_run load unload prefetch s (Load i # as) =
     (case load s i of (s1, r) \<Rightarrow>
        (case loader_run load unload prefetch s1 as of (s2, rs) \<Rightarrow> (s2, (i, r) # rs)))"
| "loader_run load unload prefetch s (Unload i # as) =
     loader_run load unload prefetch (unload s i) as"
| "loader_run load unload prefetch s (Prefetch i # as) =
     loader_run load unload prefetch (fst (prefetch s i)) as"

context expert_loader
begin

lemma loader_run_sound:
  "ok s \<Longrightarrow> loader_run load unload prefetch s as = (s', rs) \<Longrightarrow>
     ok s' \<and> stands_for s' = stands_for s \<and>
     (\<forall>i ex. (i, Inr ex) \<in> set rs \<longrightarrow> stands_for s i = Some ex)"
proof (induction "as" arbitrary: s rs)
  case Nil
  then show ?case by simp
next
  case (Cons a as)
  show ?case
  proof (cases a)
    case (Load i)
    obtain s1 r where one: "load s i = (s1, r)" by fastforce
    obtain rs1 where two: "loader_run load unload prefetch s1 as = (s', rs1)" and rs: "rs = (i, r) # rs1"
      using Cons.prems(2) one Load by (auto split: prod.splits)
    note l = load_ok [OF Cons.prems(1) one]
    from Cons.IH [OF _ two] l show ?thesis by (auto simp: rs)
  next
    case (Unload i)
    then have two: "loader_run load unload prefetch (unload s i) as = (s', rs)" using Cons.prems(2) by simp
    from Cons.IH [OF _ two] unload_ok [OF Cons.prems(1), of i] show ?thesis by simp
  next
    case (Prefetch i)
    obtain s1 r where one: "prefetch s i = (s1, r)" by fastforce
    then have two: "loader_run load unload prefetch s1 as = (s', rs)" using Cons.prems(2) Prefetch by simp
    from Cons.IH [OF _ two] prefetch_ok [OF Cons.prems(1) one] show ?thesis by simp
  qed
qed

end

interpretation local_loader: expert_loader "mm_load F" mm_unload "mm_prefetch F"
  "meaning F (local_content b2) (local_content b3)"
  "\<lambda>s. mm_inv F (local_ops b2) (local_content b2) (local_ops b3) (local_content b3) s \<and>
       synth_finite F (mm_dims (fst s))"
proof (unfold_locales, goal_cases)
  case (1 s i s' r)
  then show ?case using local_tiers.mm_load_keeps by fastforce
next
  case (2 s i)
  then show ?case using local_tiers.mm_unload_keeps by fastforce
next
  case (3 s i s' r')
  then show ?case using local_tiers.mm_prefetch_keeps by fastforce
qed

section \<open>Properties\<close>

text \<open>A four-expert model over arithmetic that always answers zero, with expert 1's file in the second
  tier, on disks whose first calls fail.\<close>

definition zero_ops :: f32_ops where
  "zero_ops = \<lparr>f_of_u64 = \<lambda>_. 0, f_sub = \<lambda>_ _. 0, f_mul = \<lambda>_ _. 0, f_div = \<lambda>_ _. 0, f_sqrt = \<lambda>_. 0\<rparr>"

definition four_dims :: model_dims where
  "four_dims = \<lparr>d_model = 1, n_heads = 1, head_dim = 1, d_ff = 1, n_experts = 4, dims_top_k = 1,
     vocab_size = 256, dims_block_size = 2, rope_theta = 0\<rparr>"

definition expert_one :: expert where
  "expert_one = \<lparr>e_id = 1, gate = [7], up = [8], down = [9], e_dims = four_dims\<rparr>"

definition ssd :: local_storage_backend where "ssd = \<lparr>base_path = [''ssd'']\<rparr>"
definition archive :: local_storage_backend where "archive = \<lparr>base_path = [''archive'']\<rparr>"

definition ssd_disk :: "nat option list \<Rightarrow> fs" where
  "ssd_disk faults = \<lparr>fs_files = [[''ssd'', ''expert_1.bin''] \<mapsto> expert_to_bytes expert_one], fs_faults = faults\<rparr>"

definition archive_disk :: fs where
  "archive_disk = \<lparr>fs_files = Map.empty, fs_faults = []\<rparr>"

definition four_manager :: "(fs, fs) memory_manager" where
  "four_manager = \<lparr>mm_dims = four_dims, l1 = ec_new 24, l2 = local_ops ssd, l3 = Some (local_ops archive),
     tiers = \<lparr>tc_l1 = 0, tc_l2 = 0, tc_l3 = 0, tc_synthesised = 0, tc_prefetched = 0\<rparr>\<rparr>"

definition four_state :: "nat option list \<Rightarrow> (fs, fs) mm_state" where
  "four_state faults = (four_manager, ssd_disk faults, archive_disk)"

lemma seeded_zero: "seeded zero_ops st n b = replicate n 0"
  by (induction n arbitrary: st) (simp_all add: unit_draw_def zero_ops_def split: prod.split)

lemma zero_ops_finite: "synth_finite zero_ops dims"
proof -
  have "is_finite 0" by (simp add: is_finite_def)
  then show ?thesis
    by (auto simp: synth_finite_def expert_wf_def synthesize_expert_def Let_def seeded_zero list_all_iff)
qed

lemma four_inv:
  "mm_inv F (local_ops ssd) (local_content ssd) (local_ops archive) (local_content archive) (four_state faults)"
  by (simp add: mm_inv_def four_state_def four_manager_def ec_new_inv) (simp add: ec_new_def)

lemma expert_one_file: "local_content ssd (ssd_disk faults) (expert_path 1) = Some (expert_to_bytes expert_one)"
proof -
  have n: "show_nat 1 = ''1''" by code_simp
  have "resolve ssd ''expert_1.bin'' = Inr [''ssd'', ''expert_1.bin'']"
    by (simp add: resolve_iff ssd_def is_absolute_def)
  then show ?thesis using n by (simp add: local_content_def expert_path_def ssd_disk_def)
qed

lemma expert_one_meaning:
  "meaning F (local_content ssd) (local_content archive) (four_state faults) 1 = Some expert_one"
proof -
  have "expert_wf 1 four_dims expert_one"
    by (simp add: expert_wf_def expert_one_def four_dims_def is_finite_def)
  from expert_to_bytes_back [OF this] show ?thesis
    by (simp add: meaning_def truth_def four_state_def four_manager_def expert_one_file)
qed



text \<open>One load: a success leaves the expert in memory, within the cache's invariant, and adds one to
  exactly one of the four tier counters; a failure adds to none. An id past the model's experts
  is refused with nothing changed.\<close>

theorem mm_load_outcome:
  assumes "mm_load F s i = (s', r)"
    and "mm_inv F (local_ops b2) (local_content b2) (local_ops b3) (local_content b3) s"
    and "synth_finite F (mm_dims (fst s))"
  shows "(case r of
      Inr ex \<Rightarrow> mm_is_resident s' i \<and> mm_loads (fst s') = Suc (mm_loads (fst s))
    | Inl e \<Rightarrow> mm_loads (fst s') = mm_loads (fst s)) \<and>
     (mm_inv F (local_ops b2) (local_content b2) (local_ops b3) (local_content b3) s') \<and>
     (unat i \<ge> n_experts (mm_dims (fst s)) \<longrightarrow> s' = s \<and> (\<exists>msg. r = Inl (Model msg)))"
proof (rule conj3I)
  note k = local_tiers.mm_load_keeps [OF assms]
  show "case r of
      Inr ex \<Rightarrow> mm_is_resident s' i \<and> mm_loads (fst s') = Suc (mm_loads (fst s))
    | Inl e \<Rightarrow> mm_loads (fst s') = mm_loads (fst s)"
    using k by (cases r) (simp_all add: mm_is_resident_def ec_contains_def)
  show "mm_inv F (local_ops b2) (local_content b2) (local_ops b3) (local_content b3) s'" using k by blast
  show "unat i \<ge> n_experts (mm_dims (fst s)) \<longrightarrow> s' = s \<and> (\<exists>msg. r = Inl (Model msg))"
    using assms(1) by (cases s) (auto simp: mm_load_def)
qed

lemma mm_load_outcome_witness:
  "fst (mm_load zero_ops (four_state []) 4) = four_state []"
proof -
  obtain s' r where run: "mm_load zero_ops (four_state []) 4 = (s', r)" by fastforce
  have "unat (4 :: expert_id) \<ge> n_experts (mm_dims (fst (four_state [])))"
    by (simp add: four_state_def four_manager_def four_dims_def)
  with mm_load_outcome [OF run four_inv zero_ops_finite, THEN conjunct2, THEN conjunct2] show ?thesis by (simp add: run)
qed

lemma local_read_no_fault:
  "fs_faults f = [] \<Longrightarrow> local_content b f p = Some bs \<Longrightarrow> local_read b f p = (f, Inr bs)"
  by (auto simp: local_content_def local_read_def fs_call_def split: sum.splits)

text \<open>C38 Availability: with disks that answer, an existing expert whose file (if it has one) is well
  formed always loads, and loads what it stands for.\<close>

theorem mm_load_available:
  assumes "mm_inv F (local_ops b2) (local_content b2) (local_ops b3) (local_content b3) s"
    and "synth_finite F (mm_dims (fst s))"
    and "fs_faults (fst (snd s)) = []" and "fs_faults (snd (snd s)) = []"
    and "unat i < n_experts (mm_dims (fst s))"
    and "meaning F (local_content b2) (local_content b3) s i = Some ex"
  shows "snd (mm_load F s i) = Inr ex"
proof -
  obtain m d2 d3 where s: "s = (m, d2, d3)" by (cases s)
  have m: "l2 m = local_ops b2" "l3 m = None \<or> l3 m = Some (local_ops b3)" "ec_inv (l1 m)"
    using assms(1) by (auto simp: mm_inv_def s)
  have f: "fs_faults d2 = []" "fs_faults d3 = []" using assms(3,4) by (simp_all add: s)
  have good: "local_exists b d (expert_path i) = (local_content b d (expert_path i) \<noteq> None)" for b d
    using local.exists_iff [OF expert_path_good] by (simp add: local_ops_def)
  have unc: "\<exists>ex'. snd (load_uncached F (m\<lparr>l1 := c\<rparr>, d2, d3) i) = Inr ex'" for c
    using assms(6) m f
    by (auto simp: load_uncached_def s meaning_def truth_def files3_of_def local_ops_def good load_l2_def
        load_l3_def load_synthesised_def Let_def local_read_no_fault split: option.splits sum.splits if_splits)
  have "\<exists>ex'. snd (load_locked F (m\<lparr>l1 := c\<rparr>, d2, d3) i) = Inr ex'" for c
  proof -
    obtain c' o' where g: "ec_get c i = (c', o')" by fastforce
    obtain s1 ex1 where "load_uncached F (m\<lparr>l1 := c'\<rparr>, d2, d3) i = (s1, Inr ex1)"
      using unc [of c'] by (metis surjective_pairing)
    then show ?thesis using g by (cases s1) (auto simp: load_locked_def split: option.split)
  qed
  then obtain s' ex' where run: "mm_load F s i = (s', Inr ex')"
    using assms(5) s by (cases "mm_load F s i") (auto simp: mm_load_def split: prod.splits option.splits, metis snd_conv)
  then have "meaning F (local_content b2) (local_content b3) s i = Some ex'"
    using local_tiers.mm_load_keeps [OF run assms(1,2)] by blast
  with assms(6) run show ?thesis by simp
qed

lemma mm_load_available_witness: "snd (mm_load zero_ops (four_state []) 1) = Inr expert_one"
  by (rule mm_load_available [OF four_inv zero_ops_finite])
    (simp_all add: expert_one_meaning, simp_all add: four_state_def four_manager_def four_dims_def
      ssd_disk_def archive_disk_def)

end
