(* ===== verification/Predictor.thy ===== *)
theory Predictor
  imports Core "HOL-Library.Product_Lexorder"
begin

text \<open>
  \<open>garuda/src/predictor/mod.rs\<close>: the first-order Markov model over expert usage. A
  transition count is a saturating \<open>u32\<close>; a score, a sum of such counts in a \<open>u64\<close>,
  is a natural number (a step fires far fewer than \<open>2 ^ 32\<close> experts). The ranking sort is
  the stable sort by descending score, then ascending id.
\<close>

record predict_stats =
  correct :: nat
  wasted :: nat
  missed :: nat

record expert_predictor =
  ep_n :: nat
  counts :: "u32 list"
  ep_stats :: predict_stats

definition ep_new :: "nat \<Rightarrow> expert_predictor" where
  "ep_new n_exp =
     (let n = max n_exp 1
      in \<lparr>ep_n = n, counts = replicate (n * n) 0, ep_stats = \<lparr>correct = 0, wasted = 0, missed = 0\<rparr>\<rparr>)"

definition saturating_inc :: "u32 \<Rightarrow> u32" where
  "saturating_inc c = (if c = 0xFFFFFFFF then c else c + 1)"

fun observe_pairs :: "nat \<Rightarrow> expert_id \<Rightarrow> expert_id list \<Rightarrow> u32 list \<Rightarrow> u32 list" where
  "observe_pairs n p [] cs = cs"
| "observe_pairs n p (q # qs) cs =
     observe_pairs n p qs
       (if unat p < n \<and> unat q < n
        then cs[unat p * n + unat q := saturating_inc (cs ! (unat p * n + unat q))]
        else cs)"

fun observe_all :: "nat \<Rightarrow> expert_id list \<Rightarrow> expert_id list \<Rightarrow> u32 list \<Rightarrow> u32 list" where
  "observe_all n [] next_ids cs = cs"
| "observe_all n (p # ps) next_ids cs = observe_all n ps next_ids (observe_pairs n p next_ids cs)"

definition observe :: "expert_predictor \<Rightarrow> expert_id list \<Rightarrow> expert_id list \<Rightarrow> expert_predictor" where
  "observe ep prev next_ids = ep\<lparr>counts := observe_all (ep_n ep) prev next_ids (counts ep)\<rparr>"

definition score_of :: "expert_predictor \<Rightarrow> expert_id list \<Rightarrow> nat \<Rightarrow> nat" where
  "score_of ep current q =
     sum_list (map (\<lambda>p. if unat p \<ge> ep_n ep then 0 else unat (counts ep ! (unat p * ep_n ep + q))) current)"

definition rank_key :: "expert_id \<times> nat \<Rightarrow> int \<times> nat" where
  "rank_key e = (- int (snd e), unat (fst e))"

definition ranked :: "expert_predictor \<Rightarrow> expert_id list \<Rightarrow> (expert_id \<times> nat) list" where
  "ranked ep current =
     sort_key rank_key
       (map (\<lambda>(q, s). (of_nat q, s))
         (filter (\<lambda>(q, s). s > 0) (map (\<lambda>q. (q, score_of ep current q)) [0..<ep_n ep])))"

definition predict :: "expert_predictor \<Rightarrow> expert_id list \<Rightarrow> nat \<Rightarrow> expert_id list" where
  "predict ep current k =
     (if current = [] \<or> k = 0 then [] else map fst (take k (ranked ep current)))"

fun score_predicted :: "expert_id list \<Rightarrow> expert_id list \<Rightarrow> predict_stats \<Rightarrow> predict_stats" where
  "score_predicted actual [] s = s"
| "score_predicted actual (p # ps) s =
     score_predicted actual ps
       (if p \<in> set actual then s\<lparr>correct := Suc (correct s)\<rparr> else s\<lparr>wasted := Suc (wasted s)\<rparr>)"

fun score_actual :: "expert_id list \<Rightarrow> expert_id list \<Rightarrow> predict_stats \<Rightarrow> predict_stats" where
  "score_actual predicted [] s = s"
| "score_actual predicted (a # as) s =
     score_actual predicted as (if a \<in> set predicted then s else s\<lparr>missed := Suc (missed s)\<rparr>)"

definition score :: "expert_predictor \<Rightarrow> expert_id list \<Rightarrow> expert_id list \<Rightarrow> expert_predictor" where
  "score ep predicted actual =
     ep\<lparr>ep_stats := score_actual predicted actual (score_predicted actual predicted (ep_stats ep))\<rparr>"


section \<open>Counts\<close>

definition ep_inv :: "expert_predictor \<Rightarrow> bool" where
  "ep_inv ep \<longleftrightarrow> 0 < ep_n ep \<and> ep_n ep < 2 ^ 32 \<and> length (counts ep) = ep_n ep * ep_n ep"

lemma length_observe_pairs [simp]: "length (observe_pairs n p qs cs) = length cs"
  by (induction n p qs cs rule: observe_pairs.induct) auto

lemma length_observe_all [simp]: "length (observe_all n ps qs cs) = length cs"
  by (induction n ps qs cs rule: observe_all.induct) auto

lemma ep_inv_ops:
  "n < 2 ^ 32 \<Longrightarrow> ep_inv (ep_new n)" "ep_inv (observe ep ps qs) = ep_inv ep" "ep_inv (score ep ps as) = ep_inv ep"
  by (simp_all add: ep_inv_def ep_new_def observe_def score_def Let_def)

lemma saturating_inc_unat: "unat (saturating_inc c) = min (unat c + 1) (2 ^ 32 - 1)"
proof (cases "c = 0xFFFFFFFF")
  case False
  then have "unat c \<noteq> unat (0xFFFFFFFF :: u32)" by (metis word_unat_eq_iff)
  then have ne: "unat c \<noteq> 4294967295" by simp
  have "unat c < 2 ^ LENGTH(32)" by (rule unsigned_less)
  with ne have lt: "unat c < 4294967295" by simp
  then have "unat (c + 1) = unat c + 1" by (simp add: unat_word_ariths)
  then show ?thesis using False lt by (simp add: saturating_inc_def)
qed (simp add: saturating_inc_def)

lemma index_unique:
  assumes "q < n" "q' < n"
  shows "(p * n + q = p' * n + q') \<longleftrightarrow> p = p' \<and> q = (q' :: nat)"
proof
  assume eq: "p * n + q = p' * n + q'"
  have "(p * n + q) div n = p" "(p' * n + q') div n = p'" using assms by simp_all
  with eq have "p = p'" by metis
  with eq show "p = p' \<and> q = q'" by simp
qed simp

lemma index_bound: "p < n \<Longrightarrow> q < n \<Longrightarrow> p * n + q < n * (n :: nat)"
  using index_unique by (metis add.commute add_less_cancel_left less_le_trans mult.commute mult_Suc_right mult_le_mono2 Suc_leI)

lemma observe_pairs_nth:
  assumes "p' < n" "q' < n" "length cs = n * n"
  shows "unat (observe_pairs n p qs cs ! (p' * n + q')) =
    min (unat (cs ! (p' * n + q')) + (if unat p = p' then count_list (map unat qs) q' else 0)) (2 ^ 32 - 1)"
  using assms
proof (induction n p qs cs rule: observe_pairs.induct)
  case (1 n p cs)
  have "unat (cs ! (p' * n + q')) < 2 ^ LENGTH(32)" by (rule unsigned_less)
  then show ?case by simp
next
  case (2 n p q qs cs)
  let ?cs = "if unat p < n \<and> unat q < n
        then cs[unat p * n + unat q := saturating_inc (cs ! (unat p * n + unat q))] else cs"
  have at: "?cs ! (p' * n + q') =
      (if unat p = p' \<and> unat q = q' then saturating_inc (cs ! (p' * n + q')) else cs ! (p' * n + q'))"
  proof (cases "unat p < n \<and> unat q < n")
    case True
    then have "unat p * n + unat q < length cs" using index_bound "2.prems"(3) by simp
    moreover have "unat p * n + unat q = p' * n + q' \<longleftrightarrow> unat p = p' \<and> unat q = q'"
      by (rule index_unique) (use True "2.prems"(2) in auto)
    ultimately show ?thesis using True by (auto simp: nth_list_update)
  next
    case False
    then show ?thesis using "2.prems"(1,2) by auto
  qed
  have "length ?cs = n * n" using "2.prems"(3) by simp
  note ih = "2.IH" [OF "2.prems"(1,2) this]
  show ?case
  proof (cases "unat p = p' \<and> unat q = q'")
    case True
    then show ?thesis using ih at by (simp add: saturating_inc_unat min_def)
  next
    case False
    then show ?thesis using ih at by auto
  qed
qed


lemma observe_all_nth:
  assumes "p' < n" "q' < n" "length cs = n * n"
  shows "unat (observe_all n ps qs cs ! (p' * n + q')) =
    min (unat (cs ! (p' * n + q')) + count_list (map unat ps) p' * count_list (map unat qs) q') (2 ^ 32 - 1)"
  using assms
proof (induction n ps qs cs rule: observe_all.induct)
  case (1 n qs cs)
  have "unat (cs ! (p' * n + q')) < 2 ^ LENGTH(32)" by (rule unsigned_less)
  then show ?case by simp
next
  case (2 n p ps qs cs)
  define x where "x = unat (cs ! (p' * n + q'))"
  define c where "c = count_list (map unat qs) q'"
  define k where "k = count_list (map unat ps) p'"
  have a: "unat (observe_pairs n p qs cs ! (p' * n + q')) =
      min (x + (if unat p = p' then c else 0)) (2 ^ 32 - 1)"
    unfolding x_def c_def by (rule observe_pairs_nth [OF "2.prems"])
  have "length (observe_pairs n p qs cs) = n * n" using "2.prems"(3) by simp
  note ih = "2.IH" [OF "2.prems"(1,2) this, folded c_def k_def, unfolded a]
  show ?case unfolding observe_all.simps ih x_def [symmetric] c_def [symmetric] k_def [symmetric]
    by (simp add: k_def [symmetric] min_def algebra_simps)
qed


section \<open>Ranking\<close>

lemma rank_key_inject: "rank_key e = rank_key e' \<longleftrightarrow> e = e'"
  by (cases e; cases e') (auto simp: rank_key_def word_unat_eq_iff)

lemma set_ranked:
  assumes "ep_inv ep"
  shows "set (ranked ep cur) =
    {(i, s). unat i < ep_n ep \<and> s = score_of ep cur (unat i) \<and> 0 < s}" (is "?L = ?R")
proof
  have n: "unat (of_nat q :: u32) = q" if "q < ep_n ep" for q
    using that assms by (simp add: ep_inv_def unat_of_nat)
  show "?L \<subseteq> ?R" using n by (auto simp: ranked_def)
  show "?R \<subseteq> ?L"
  proof
    fix e assume "e \<in> ?R"
    then obtain i where i: "unat i < ep_n ep" "e = (i, score_of ep cur (unat i))" "0 < score_of ep cur (unat i)"
      by auto
    have "e = (of_nat (unat i), score_of ep cur (unat i))" using i by simp
    with i show "e \<in> ?L" unfolding ranked_def set_sort by force
  qed
qed

lemma ranked_order:
  assumes "ep_inv ep"
  shows "sorted_wrt (\<lambda>a b. rank_key a < rank_key b) (ranked ep cur)"
proof -
  have sorted: "sorted (map rank_key (ranked ep cur))" by (simp add: ranked_def)
  have n: "unat (of_nat q :: u32) = q" if "q < ep_n ep" for q
    using that assms by (simp add: ep_inv_def unat_of_nat)
  have "distinct (map fst (map (\<lambda>(q, s). (of_nat q :: expert_id, s))
      (filter (\<lambda>(q, s). s > 0) (map (\<lambda>q. (q, score_of ep cur q)) [0..<ep_n ep]))))"
    by (auto simp: distinct_map inj_on_def filter_map comp_def split_def) (metis n)
  then have "distinct (ranked ep cur)" unfolding ranked_def distinct_sort by (simp only: distinct_map)
  then have "distinct (map rank_key (ranked ep cur))" by (simp add: distinct_map inj_on_def rank_key_inject)
  with sorted have "sorted_wrt (<) (map rank_key (ranked ep cur))" by (simp add: strict_sorted_iff)
  then show ?thesis by (simp add: sorted_wrt_map)
qed

section \<open>Properties\<close>

text \<open>Learning: observing that some experts fired after others adds, to every transition count, the
  number of times that transition occurred in the step, and a count that would pass the largest
  32-bit value stays there instead of wrapping. Ids past the table are ignored.\<close>

theorem observe_counts:
  assumes "ep_inv ep" and "p < ep_n ep" and "q < ep_n ep"
  shows "(ep_inv (observe ep prev next_ids)) \<and>
     (unat (counts (observe ep prev next_ids) ! (p * ep_n ep + q)) =
      min (unat (counts ep ! (p * ep_n ep + q)) +
           count_list (map unat prev) p * count_list (map unat next_ids) q) (2 ^ 32 - 1))"
  using assms observe_all_nth [of p "ep_n ep" q "counts ep" prev next_ids]
  by (auto simp: ep_inv_ops observe_def ep_inv_def)

definition trained :: expert_predictor where
  "trained = observe (observe (ep_new 3) [0] [1, 2]) [0, 1] [2]"

lemma observe_counts_witness:
  "unat (counts (observe \<lparr>ep_n = 1, counts = [0xFFFFFFFE], ep_stats = \<lparr>correct = 0, wasted = 0, missed = 0\<rparr>\<rparr>
      [0, 0, 5] [0, 0]) ! 0) = 2 ^ 32 - 1"
  using observe_counts [of "\<lparr>ep_n = 1, counts = [0xFFFFFFFE],
      ep_stats = \<lparr>correct = 0, wasted = 0, missed = 0\<rparr>\<rparr>" 0 0 "[0, 0, 5]" "[0, 0]", THEN conjunct2]
  by (simp add: ep_inv_def)

definition before_in_rank :: "expert_predictor \<Rightarrow> expert_id list \<Rightarrow> expert_id \<Rightarrow> expert_id \<Rightarrow> bool" where
  "before_in_rank ep cur i j \<longleftrightarrow>
     score_of ep cur (unat j) < score_of ep cur (unat i) \<or>
     score_of ep cur (unat j) = score_of ep cur (unat i) \<and> i < j"

definition candidates :: "expert_predictor \<Rightarrow> expert_id list \<Rightarrow> expert_id set" where
  "candidates ep cur = {i. unat i < ep_n ep \<and> 0 < score_of ep cur (unat i)}"

lemma ranked_ids:
  assumes "ep_inv ep"
  shows "set (map fst (ranked ep cur)) = candidates ep cur"
    and "sorted_wrt (before_in_rank ep cur) (map fst (ranked ep cur))"
proof -
  show "set (map fst (ranked ep cur)) = candidates ep cur"
    by (auto simp: set_ranked [OF assms] candidates_def image_iff)
  have score: "snd e = score_of ep cur (unat (fst e))" if "e \<in> set (ranked ep cur)" for e
    using that set_ranked [OF assms, of cur] by auto
  have "sorted_wrt (\<lambda>a b. before_in_rank ep cur (fst a) (fst b)) (ranked ep cur)"
    by (rule sorted_wrt_mono_rel [OF _ ranked_order [OF assms]])
      (auto simp: before_in_rank_def rank_key_def less_prod_def score word_less_nat_alt)
  then show "sorted_wrt (before_in_rank ep cur) (map fst (ranked ep cur))"
    by (simp add: sorted_wrt_map)
qed

lemma sorted_wrt_distinct: "sorted_wrt R xs \<Longrightarrow> (\<And>x. \<not> R x x) \<Longrightarrow> distinct xs"
  by (induction xs) auto

text \<open>Prediction: the ids predicted are distinct experts of the model with a positive score, in
  descending order of score with ties in ascending order of id; there are as many as asked for, or
  all the candidates when there are fewer, and a candidate left out never ranks before one
  predicted. A predictor that has seen nothing predicts nothing.\<close>

theorem predict_top_k:
  assumes "ep_inv ep" and "cur \<noteq> []"
  shows "(set (predict ep cur k) \<subseteq> candidates ep cur) \<and>
     (distinct (predict ep cur k)) \<and>
     (length (predict ep cur k) = min k (card (candidates ep cur))) \<and>
     (sorted_wrt (before_in_rank ep cur) (predict ep cur k)) \<and>
     (i \<in> set (predict ep cur k) \<and> j \<in> candidates ep cur - set (predict ep cur k) \<longrightarrow>
           before_in_rank ep cur i j) \<and>
     (predict (ep_new n) cur k = [])"
proof (rule conj6I)
  define xs where "xs = map fst (ranked ep cur)"
  note r = ranked_ids [OF assms(1), of cur, folded xs_def]
  have p: "predict ep cur k = take k xs"
    using assms(2) by (simp add: predict_def xs_def take_map)
  have dist: "distinct xs" using r(2) by (rule sorted_wrt_distinct) (simp add: before_in_rank_def)
  have len: "length xs = card (candidates ep cur)" using distinct_card [OF dist] r(1) by simp
  have split: "sorted_wrt (before_in_rank ep cur) (take k xs @ drop k xs)" using r(2) by simp
  show "set (predict ep cur k) \<subseteq> candidates ep cur" using r(1) p by (auto dest: in_set_takeD)
  show "distinct (predict ep cur k)" using dist p by simp
  show "length (predict ep cur k) = min k (card (candidates ep cur))" using len p by (simp add: min.commute)
  show "sorted_wrt (before_in_rank ep cur) (predict ep cur k)"
    using split unfolding p sorted_wrt_append by blast
  show "i \<in> set (predict ep cur k) \<and> j \<in> candidates ep cur - set (predict ep cur k) \<longrightarrow> before_in_rank ep cur i j"
  proof
    assume ij: "i \<in> set (predict ep cur k) \<and> j \<in> candidates ep cur - set (predict ep cur k)"
    then have "j \<in> set (take k xs @ drop k xs)" using r(1) by simp
    then have "j \<in> set (drop k xs)" using ij p by (simp only: set_append) auto
    with ij split show "before_in_rank ep cur i j" unfolding p sorted_wrt_append by blast
  qed
  have zero: "counts (ep_new n) ! (unat p * ep_n (ep_new n) + q) = 0"
    if "q < ep_n (ep_new n)" "unat p < ep_n (ep_new n)" for p :: expert_id and q
    using index_bound [OF that(2,1)] by (simp add: ep_new_def Let_def)
  have "score_of (ep_new n) cur q = 0" if q: "q < ep_n (ep_new n)" for q
    unfolding score_of_def sum_list_eq_0_iff by (auto simp: zero [OF q])
  then have "filter (\<lambda>(q, s). s > 0) (map (\<lambda>q. (q, score_of (ep_new n) cur q)) [0..<ep_n (ep_new n)]) = []"
    unfolding filter_empty_conv by auto
  then have "ranked (ep_new n) cur = []" unfolding ranked_def by simp
  then show "predict (ep_new n) cur k = []" by (simp add: predict_def)
qed

lemma predict_top_k_witness:
  "length (predict trained [0] 5) = min 5 (card (candidates trained [0])) \<and>
   sorted_wrt (before_in_rank trained [0]) (predict trained [0] 5)"
proof -
  have "ep_inv trained" by (simp add: trained_def ep_inv_ops)
  then show ?thesis
    using predict_top_k [of trained "[0]" 5] by simp_all
qed

end
