(* ===== verification/PrefetchEngine.thy ===== *)
theory PrefetchEngine
  imports MemoryManager Predictor
begin

text \<open>
  \<open>garuda/src/prefetch/mod.rs\<close>: after each decode step the engine asks the predictor what
  comes next and starts background loads. A started load is a worker with two steps of its
  own: the load, and the release of its claim; workers, decode steps and the forward pass's own
  loads interleave in any order (\<open>pe_step\<close>). The loader is a parameter, used through the
  laws of \<open>expert_loader\<close>.
\<close>

datatype worker_stage = Loading | Releasing

record 's prefetch_engine =
  pe_loader :: 's
  pe_predictor :: expert_predictor
  enabled :: bool
  depth :: nat
  inflight :: "expert_id set"
  workers :: "(expert_id \<times> worker_stage) list"
  launched :: nat
  skipped :: nat
  answers :: "(expert_id \<times> expert res) list"

definition pe_new :: "'s \<Rightarrow> expert_predictor \<Rightarrow> bool \<Rightarrow> nat \<Rightarrow> 's prefetch_engine" where
  "pe_new loader ep on k =
     \<lparr>pe_loader = loader, pe_predictor = ep, enabled = on, depth = k, inflight = {}, workers = [],
      launched = 0, skipped = 0, answers = []\<rparr>"

definition warm :: "('s \<Rightarrow> expert_id \<Rightarrow> bool) \<Rightarrow> expert_id \<Rightarrow> 's prefetch_engine \<Rightarrow> 's prefetch_engine" where
  "warm resident i s =
     (if resident (pe_loader s) i then s\<lparr>skipped := Suc (skipped s)\<rparr>
      else if i \<in> inflight s then s\<lparr>skipped := Suc (skipped s)\<rparr>
      else s\<lparr>inflight := insert i (inflight s), launched := Suc (launched s),
             workers := workers s @ [(i, Loading)]\<rparr>)"

definition observe_step :: "('s \<Rightarrow> expert_id \<Rightarrow> bool) \<Rightarrow> expert_id list \<Rightarrow> expert_id list \<Rightarrow> expert_id list \<Rightarrow>
    's prefetch_engine \<Rightarrow> 's prefetch_engine \<times> expert_id list" where
  "observe_step resident previous used predicted_last s =
     (if \<not> enabled s then (s, [])
      else
        let ep1 = (if predicted_last \<noteq> [] then score (pe_predictor s) predicted_last used else pe_predictor s);
            ep2 = (if previous \<noteq> [] then observe ep1 previous used else ep1);
            predicted = predict ep2 used (depth s)
        in (fold (warm resident) predicted (s\<lparr>pe_predictor := ep2\<rparr>), predicted))"

text \<open>A worker's steps; the result of the load is dropped.\<close>

definition worker_load :: "('s \<Rightarrow> expert_id \<Rightarrow> 's \<times> unit res) \<Rightarrow> nat \<Rightarrow> 's prefetch_engine \<Rightarrow> 's prefetch_engine" where
  "worker_load prefetch n s =
     s\<lparr>pe_loader := fst (prefetch (pe_loader s) (fst (workers s ! n))),
       workers := (workers s)[n := (fst (workers s ! n), Releasing)]\<rparr>"

definition worker_release :: "nat \<Rightarrow> 's prefetch_engine \<Rightarrow> 's prefetch_engine" where
  "worker_release n s =
     s\<lparr>inflight := inflight s - {fst (workers s ! n)},
       workers := take n (workers s) @ drop (Suc n) (workers s)\<rparr>"

text \<open>The forward pass loads what it needs.\<close>

definition forward_load :: "('s \<Rightarrow> expert_id \<Rightarrow> 's \<times> expert res) \<Rightarrow> expert_id \<Rightarrow> 's prefetch_engine \<Rightarrow> 's prefetch_engine" where
  "forward_load load i s =
     (case load (pe_loader s) i of (l, r) \<Rightarrow> s\<lparr>pe_loader := l, answers := answers s @ [(i, r)]\<rparr>)"

inductive pe_step :: "('s \<Rightarrow> expert_id \<Rightarrow> bool) \<Rightarrow> ('s \<Rightarrow> expert_id \<Rightarrow> 's \<times> unit res) \<Rightarrow>
    ('s \<Rightarrow> expert_id \<Rightarrow> 's \<times> expert res) \<Rightarrow> 's prefetch_engine \<Rightarrow> 's prefetch_engine \<Rightarrow> bool"
  for resident prefetch load where
  decode: "pe_step resident prefetch load s (fst (observe_step resident previous used predicted_last s))"
| work: "n < length (workers s) \<Longrightarrow> snd (workers s ! n) = Loading \<Longrightarrow>
    pe_step resident prefetch load s (worker_load prefetch n s)"
| release: "n < length (workers s) \<Longrightarrow> snd (workers s ! n) = Releasing \<Longrightarrow>
    pe_step resident prefetch load s (worker_release n s)"
| forward: "pe_step resident prefetch load s (forward_load load i s)"

inductive_simps pe_step_iff: "pe_step resident prefetch load s s'"

text \<open>One claim per worker: no expert is being fetched twice at a time.\<close>

definition pe_inv :: "'s prefetch_engine \<Rightarrow> bool" where
  "pe_inv s \<longleftrightarrow> inflight s = set (map fst (workers s)) \<and> distinct (map fst (workers s)) \<and>
     length (workers s) \<le> launched s \<and> (\<not> enabled s \<longrightarrow> workers s = [])"

lemma warm_keeps:
  "pe_inv s \<Longrightarrow> enabled s \<Longrightarrow>
     pe_inv (warm resident i s) \<and> pe_loader (warm resident i s) = pe_loader s \<and>
     answers (warm resident i s) = answers s \<and> enabled (warm resident i s)"
  by (auto simp: warm_def pe_inv_def)

lemma fold_warm_keeps:
  "pe_inv s \<Longrightarrow> enabled s \<Longrightarrow>
     pe_inv (fold (warm resident) is s) \<and> pe_loader (fold (warm resident) is s) = pe_loader s \<and>
     answers (fold (warm resident) is s) = answers s \<and> enabled (fold (warm resident) is s)"
proof (induction "is" arbitrary: s)
  case (Cons i "is")
  then show ?case using warm_keeps [of s resident i] by auto
qed simp

lemma observe_step_keeps:
  assumes "pe_inv s"
  shows "pe_inv (fst (observe_step resident previous used pl s)) \<and>
    pe_loader (fst (observe_step resident previous used pl s)) = pe_loader s \<and>
    answers (fst (observe_step resident previous used pl s)) = answers s"
proof (cases "enabled s")
  case True
  have "pe_inv (s\<lparr>pe_predictor := ep\<rparr>)" for ep using assms by (simp add: pe_inv_def)
  then show ?thesis using True fold_warm_keeps [of "s\<lparr>pe_predictor := _\<rparr>" resident]
    by (simp add: observe_step_def Let_def)
qed (simp add: observe_step_def assms)

lemma worker_keeps:
  assumes "pe_inv s" and "n < length (workers s)"
  shows "pe_inv (worker_load prefetch n s)" and "pe_inv (worker_release n s)"
proof -
  have map: "map fst ((workers s)[n := (fst (workers s ! n), Releasing)]) = map fst (workers s)"
    using assms(2) by (simp add: map_update list_update_same_conv)
  then show "pe_inv (worker_load prefetch n s)"
    using assms by (auto simp: pe_inv_def worker_load_def simp del: map_update)
  have split: "map fst (workers s) = take n (map fst (workers s)) @ fst (workers s ! n) # drop (Suc n) (map fst (workers s))"
    using assms(2) by (metis id_take_nth_drop length_map nth_map)
  have d: "distinct (take n (map fst (workers s)) @ fst (workers s ! n) # drop (Suc n) (map fst (workers s)))"
    using assms(1) split by (simp add: pe_inv_def)
  have "inflight s = set (take n (map fst (workers s)) @ fst (workers s ! n) # drop (Suc n) (map fst (workers s)))"
    using assms(1) split by (simp add: pe_inv_def)
  then show "pe_inv (worker_release n s)"
    using d assms by (auto simp: pe_inv_def worker_release_def take_map drop_map)
qed

context expert_loader
begin

definition "answers_ok s0 s \<longleftrightarrow>
  ok (pe_loader s) \<and> stands_for (pe_loader s) = stands_for (pe_loader s0) \<and>
  (\<forall>i ex. (i, Inr ex) \<in> set (answers s) \<longrightarrow> stands_for (pe_loader s0) i = Some ex)"

lemma pe_step_keeps:
  assumes "pe_step resident prefetch load s s'" and "pe_inv s" and "answers_ok s0 s"
  shows "pe_inv s' \<and> answers_ok s0 s'"
  using assms(1)
proof cases
  case (decode previous used predicted_last)
  then show ?thesis using observe_step_keeps [OF assms(2)] assms(3) by (simp add: answers_ok_def)
next
  case (work n)
  obtain l r where p: "prefetch (pe_loader s) (fst (workers s ! n)) = (l, r)" by fastforce
  have "pe_inv s'" using work worker_keeps(1) [OF assms(2)] by simp
  moreover have "answers_ok s0 s'" using work assms(3) prefetch_ok [OF _ p]
    by (simp add: answers_ok_def worker_load_def p)
  ultimately show ?thesis by blast
next
  case (release n)
  then show ?thesis using worker_keeps(2) [OF assms(2)] assms(3)
    by (simp add: answers_ok_def worker_release_def)
next
  case (forward i)
  obtain l r where p: "load (pe_loader s) i = (l, r)" by fastforce
  then show ?thesis using forward assms(2,3) load_ok [OF _ p]
    by (auto simp: answers_ok_def forward_load_def pe_inv_def)
qed

lemma pe_reachable:
  assumes "(pe_step resident prefetch load)\<^sup>*\<^sup>* (pe_new l ep on k) s" and "ok l"
  shows "pe_inv s \<and> answers_ok (pe_new l ep on k) s"
  using assms(1)
proof (induction rule: rtranclp_induct)
  case base
  then show ?case using assms(2) by (simp add: pe_inv_def answers_ok_def pe_new_def)
next
  case (step s s')
  then show ?case using pe_step_keeps by blast
qed

end

section \<open>Properties\<close>


text \<open>A run: a decode step that starts a fetch of expert 1, the fetch, then the forward pass's load.\<close>

definition fetching :: "(fs, fs) mm_state prefetch_engine" where
  "fetching = fst (observe_step mm_is_resident [0] [1] []
     (pe_new (four_state [Some 0]) (observe (ep_new 2) [1] [1]) True 1))"

lemma predicts_one: "predict (observe (observe (ep_new 2) [1] [1]) [0] [1]) [1] 1 = [1]"
  by code_simp


end
