(* ===== verification/Simd.thy ===== *)
theory Simd
  imports Sampling
begin

text \<open>
  \<open>garuda/src/simd/mod.rs\<close>: the dense kernels. A float is a value of the type \<open>'f\<close> with
  the operations of \<open>math\<close>, which extends the sampler's by the transcendental functions; no law
  of arithmetic is assumed of them. The integer dot product is on machine words, in its scalar
  form and in the vectorised one. \<open>None\<close> is a panic (an assertion on the lengths, or chunks of
  size zero). Large matrices are split over threads by rows, each row computed as below.
\<close>

record 'f math = "'f fops" +
  fneg :: "'f \<Rightarrow> 'f"
  fexp :: "'f \<Rightarrow> 'f"
  fsqrt :: "'f \<Rightarrow> 'f"
  fpowf :: "'f \<Rightarrow> 'f \<Rightarrow> 'f"
  fsin :: "'f \<Rightarrow> 'f"
  fcos :: "'f \<Rightarrow> 'f"
  f_nat :: "nat \<Rightarrow> 'f"

section \<open>Products\<close>

definition dot :: "('f, 'z) fops_scheme \<Rightarrow> 'f list \<Rightarrow> 'f list \<Rightarrow> 'f" where
  "dot F a b = foldl (fadd F) (fzero F) (map2 (fmul F) a b)"

definition matvec :: "('f, 'z) fops_scheme \<Rightarrow> 'f list \<Rightarrow> nat \<Rightarrow> nat \<Rightarrow> 'f list \<Rightarrow> 'f list option" where
  "matvec F m rows cols x =
     (if length m \<noteq> rows * cols \<or> length x \<noteq> cols \<or> cols = 0 then None
      else Some (map (\<lambda>row. dot F row x) (chunks_exact cols m)))"

text \<open>Every row of the matrix against every vector; the results land row by row.\<close>

definition by_row :: "('f, 'z) fops_scheme \<Rightarrow> 'f list \<Rightarrow> nat \<Rightarrow> 'f list \<Rightarrow> nat \<Rightarrow> 'f list" where
  "by_row F m cols xs n =
     concat (map (\<lambda>row. map (\<lambda>b. dot F row (take cols (drop (b * cols) xs))) [0..<n]) (chunks_exact cols m))"

text \<open>And are then flipped: \<open>out[b * rows + r]\<close> is the \<open>b\<close>th of row \<open>r\<close>.\<close>

definition scatter_row :: "nat \<Rightarrow> 'f list \<Rightarrow> nat \<times> 'f list \<Rightarrow> 'f list" where
  "scatter_row rows out rd = (case rd of (r, dst) \<Rightarrow>
     foldl (\<lambda>out (b, v). out[b * rows + r := v]) out (enumerate 0 dst))"

definition matmul :: "('f, 'z) fops_scheme \<Rightarrow> 'f list \<Rightarrow> nat \<Rightarrow> nat \<Rightarrow> 'f list \<Rightarrow> nat \<Rightarrow> 'f list \<Rightarrow> 'f list option" where
  "matmul F m rows cols xs n out =
     (if length m \<noteq> rows * cols \<or> length xs \<noteq> n * cols \<or> length out \<noteq> n * rows then None
      else if n = 1 then matvec F m rows cols xs
      else if n = 0 \<or> cols = 0 then None
      else Some (foldl (scatter_row rows) out (enumerate 0 (chunks_exact n (by_row F m cols xs n)))))"


section \<open>Elementwise\<close>

definition softmax_in :: "('f, 'z) math_scheme \<Rightarrow> 'f list \<Rightarrow> 'f list" where
  "softmax_in F x =
     (let mx = foldl (fmax F) (neg_infinity F) x; uniform = fdiv F (fone F) (f_nat F (length x)) in
      if \<not> ffinite F mx then map (\<lambda>_. uniform) x
      else
        let es = map (\<lambda>v. fexp F (fsub F v mx)) x; s = foldl (fadd F) (fzero F) es in
        if ffinite F s \<and> flt F (fzero F) s
        then map (\<lambda>v. fmul F v (fdiv F (fone F) s)) es
        else map (\<lambda>_. uniform) x)"

definition silu :: "('f, 'z) math_scheme \<Rightarrow> 'f list \<Rightarrow> 'f list" where
  "silu F x = map (\<lambda>v. fdiv F v (fadd F (fone F) (fexp F (fneg F v)))) x"

definition rmsnorm :: "('f, 'z) math_scheme \<Rightarrow> 'f list \<Rightarrow> 'f \<Rightarrow> 'f list" where
  "rmsnorm F x eps =
     (if x = [] then []
      else let mean_sq = fdiv F (foldl (fadd F) (fzero F) (map (\<lambda>v. fmul F v v) x)) (f_nat F (length x));
               scale = fdiv F (fone F) (fsqrt F (fadd F mean_sq eps))
           in map (\<lambda>v. fmul F v scale) x)"

text \<open>In place over the first: where it is longer than the second, its tail stays.\<close>

definition add_assign :: "('f, 'z) fops_scheme \<Rightarrow> 'f list \<Rightarrow> 'f list \<Rightarrow> 'f list" where
  "add_assign F a b = map2 (fadd F) a b @ drop (length b) a"

definition add_scaled :: "('f, 'z) fops_scheme \<Rightarrow> 'f list \<Rightarrow> 'f list \<Rightarrow> 'f \<Rightarrow> 'f list" where
  "add_scaled F a b k = map2 (\<lambda>x y. fadd F x (fmul F y k)) a b @ drop (length b) a"

definition mul_assign :: "('f, 'z) fops_scheme \<Rightarrow> 'f list \<Rightarrow> 'f list \<Rightarrow> 'f list" where
  "mul_assign F a b = map2 (fmul F) a b @ drop (length b) a"

definition rope :: "('f, 'z) math_scheme \<Rightarrow> 'f list \<Rightarrow> nat \<Rightarrow> 'f \<Rightarrow> 'f list" where
  "rope F v pos theta =
     foldl (\<lambda>v i.
       let freq = fdiv F (fone F) (fpowf F theta
                    (fdiv F (fmul F (f_nat F 2) (f_nat F i)) (f_nat F (length v))));
           angle = fmul F (f_nat F pos) freq;
           a = v ! (2 * i); b = v ! (2 * i + 1)
       in v[2 * i := fsub F (fmul F a (fcos F angle)) (fmul F b (fsin F angle)),
            2 * i + 1 := fadd F (fmul F a (fsin F angle)) (fmul F b (fcos F angle))])
       v [0..<length v div 2]"


section \<open>Integer dot products\<close>

definition dot_i8_scalar :: "8 word list \<Rightarrow> 8 word list \<Rightarrow> 32 word" where
  "dot_i8_scalar a b = foldl (+) 0 (map2 (\<lambda>x y. scast x * scast y) a b)"

text \<open>
  The vector instructions it uses, on lists of lanes: the widening product of two halves of a
  register, and the pairwise sum of adjacent lanes added to an accumulator.
\<close>

definition vmull_s8 :: "8 word list \<Rightarrow> 8 word list \<Rightarrow> 16 word list" where
  "vmull_s8 a b = map2 (\<lambda>x y. scast x * scast y) a b"

fun pair_sums :: "16 word list \<Rightarrow> 32 word list" where
  "pair_sums (x # y # zs) = (scast x + scast y) # pair_sums zs"
| "pair_sums _ = []"

definition vpadalq_s16 :: "32 word list \<Rightarrow> 16 word list \<Rightarrow> 32 word list" where
  "vpadalq_s16 acc z = map2 (+) acc (pair_sums z)"

definition neon_chunk :: "32 word list \<Rightarrow> 8 word list \<times> 8 word list \<Rightarrow> 32 word list" where
  "neon_chunk acc ab = (case ab of (va, vb) \<Rightarrow>
     vpadalq_s16 (vpadalq_s16 acc (vmull_s8 (take 8 va) (take 8 vb))) (vmull_s8 (drop 8 va) (drop 8 vb)))"

definition dot_i8_neon :: "8 word list \<Rightarrow> 8 word list \<Rightarrow> 32 word" where
  "dot_i8_neon a b =
     (let chunks = length a div 16;
          acc = foldl neon_chunk [0, 0, 0, 0] (zip (chunks_exact 16 a) (chunks_exact 16 b));
          s = foldl (+) 0 acc
      in foldl (\<lambda>s j. s + scast (a ! j) * scast (b ! j)) s [chunks * 16..<length a])"

section \<open>Chunks\<close>

lemma chunks_exact_concat:
  assumes "0 < n" and "\<forall>l \<in> set ls. length l = n"
  shows "chunks_exact n (concat ls) = ls"
  using assms(2) by (induction ls) (simp_all add: chunks_exact_append [OF assms(1)])

lemma chunks_exact_rows:
  "0 < n \<Longrightarrow> length xs = k * n \<Longrightarrow>
     length (chunks_exact n xs) = k \<and> (\<forall>c \<in> set (chunks_exact n xs). length c = n) \<and> concat (chunks_exact n xs) = xs"
proof (induction k arbitrary: xs)
  case (Suc k)
  have "chunks_exact n xs = take n xs # chunks_exact n (drop n xs)"
    using Suc.prems by (simp add: chunks_exact.simps [of n xs])
  moreover have "length (drop n xs) = k * n" using Suc.prems by simp
  ultimately show ?case using Suc.IH [of "drop n xs"] Suc.prems by simp
qed simp

lemma nth_concat_same:
  assumes "\<forall>l \<in> set ls. length l = k" and "b < length ls" and "q < k"
  shows "concat ls ! (b * k + q) = ls ! b ! q"
  using assms
proof (induction ls arbitrary: b)
  case (Cons l ls)
  show ?case
  proof (cases b)
    case 0
    then show ?thesis using Cons.prems by (simp add: nth_append)
  next
    case (Suc b')
    then have "concat (l # ls) ! (b * k + q) = concat ls ! (b' * k + q)"
      using Cons.prems(1) by (simp add: nth_append add.assoc)
    then show ?thesis using Cons Suc by simp
  qed
qed simp

lemma index_split:
  fixes i :: nat
  assumes "i < n * rows"
  shows "i div rows < n" and "i mod rows < rows" and "i = (i div rows) * rows + i mod rows"
  using assms by (auto simp: less_mult_imp_div_less) (metis mult_0_right not_less0 mod_less_divisor neq0_conv)

lemma row_index_inject:
  fixes b q b' q' rows :: nat
  assumes "q < rows" and "q' < rows"
  shows "b * rows + q = b' * rows + q' \<longleftrightarrow> b = b' \<and> q = q'"
  using assms by (metis add.commute div_mult_self3 div_less mod_mult_self3 mod_less add_0_right less_nat_zero_code)

section \<open>A batch of vectors\<close>

lemma scatter_fold:
  assumes "r < rows" and "q < rows"
  shows "length (foldl (\<lambda>out (b, v). out[b * rows + r := v]) out (enumerate k dst)) = length out \<and>
    (b * rows + q < length out \<longrightarrow>
     foldl (\<lambda>out (b, v). out[b * rows + r := v]) out (enumerate k dst) ! (b * rows + q) =
       (if q = r \<and> k \<le> b \<and> b < k + length dst then dst ! (b - k) else out ! (b * rows + q)))"
proof (induction dst arbitrary: k out)
  case (Cons v dst)
  let ?out = "out[k * rows + r := v]"
  have "b * rows + q < length out \<Longrightarrow>
      ?out ! (b * rows + q) = (if q = r \<and> b = k then v else out ! (b * rows + q))"
    using row_index_inject [OF assms(1,2), of k b] by (auto simp: nth_list_update)
  then show ?case
    using Cons.IH [where k = "Suc k" and out = ?out]
    by (auto simp: nth_Cons' Suc_diff_le not_less_eq_eq)
qed auto

lemma scatter_rows_fold:
  assumes "q < rows"
  shows "k + length ds \<le> rows \<Longrightarrow> length (foldl (scatter_row rows) out (enumerate k ds)) = length out \<and>
    (b * rows + q < length out \<longrightarrow> (\<forall>d \<in> set ds. b < length d) \<longrightarrow>
     foldl (scatter_row rows) out (enumerate k ds) ! (b * rows + q) =
       (if k \<le> q \<and> q < k + length ds then ds ! (q - k) ! b else out ! (b * rows + q)))"
proof (induction ds arbitrary: k out)
  case (Cons d ds)
  have kr: "k < rows" using Cons.prems by simp
  let ?out = "scatter_row rows out (k, d)"
  have one: "length ?out = length out \<and> (b * rows + q < length out \<longrightarrow>
      ?out ! (b * rows + q) = (if q = k \<and> b < length d then d ! b else out ! (b * rows + q)))"
    using scatter_fold [OF kr assms, of out 0 d b] by (simp add: scatter_row_def)
  show ?case using Cons.IH [of "Suc k" ?out] Cons.prems one
    by (auto simp: nth_Cons' Suc_diff_le not_less_eq_eq)
qed auto

lemma scatter_by_row:
  assumes "0 < n" and "length ch = rows" and "length out = n * rows"
  shows "foldl (scatter_row rows) out (enumerate 0 (map (\<lambda>row. map (\<lambda>b. f row b) [0..<n]) ch)) =
    concat (map (\<lambda>b. map (\<lambda>row. f row b) ch) [0..<n])"
proof (rule nth_equalityI)
  let ?ds = "map (\<lambda>row. map (\<lambda>b. f row b) [0..<n]) ch"
  let ?res = "foldl (scatter_row rows) out (enumerate 0 ?ds)" and ?ref = "concat (map (\<lambda>b. map (\<lambda>row. f row b) ch) [0..<n])"
  have lenref: "length ?ref = n * rows" by (simp add: length_concat assms(2) o_def sum_list_triv)
  show len: "length ?res = length ?ref"
  proof (cases rows)
    case 0
    then show ?thesis using assms lenref by simp
  next
    case (Suc r)
    then show ?thesis using scatter_rows_fold [of 0 rows 0 ?ds out 0] assms lenref by simp
  qed
  fix i assume "i < length ?res"
  then have i: "i < n * rows" using len lenref by simp
  note sp = index_split [OF i]
  have "?res ! i = ?ds ! (i mod rows) ! (i div rows)"
    using scatter_rows_fold [OF sp(2), of 0 ?ds out "i div rows"] sp assms i by simp
  also have "\<dots> = f (ch ! (i mod rows)) (i div rows)" using sp assms(2) by simp
  also have "\<dots> = ?ref ! ((i div rows) * rows + i mod rows)"
    using sp assms(2) by (subst nth_concat_same [where k = rows]) simp_all
  finally show "?res ! i = ?ref ! i" using sp(3) by simp
qed

text \<open>C32 One pass over the matrix for a batch of vectors gives exactly what a pass for each vector gives:
  the same sums of the same products in the same order, vector by vector, whatever the output
  buffer held before.\<close>

theorem matmul_is_matvecs:
  assumes "length m = rows * cols" and "length xs = n * cols" and "length out = n * rows" and "0 < n" and "0 < cols"
  shows "matmul F m rows cols xs n out =
    Some (concat (map (\<lambda>b. the (matvec F m rows cols (take cols (drop (b * cols) xs)))) [0..<n]))"
proof -
  define ch where "ch = chunks_exact cols m"
  define x where "x = (\<lambda>b. take cols (drop (b * cols) xs))"
  have ch: "length ch = rows" using chunks_exact_rows [OF assms(5,1)] by (simp add: ch_def)
  have mv: "matvec F m rows cols (x b) = Some (map (\<lambda>row. dot F row (x b)) ch)" if "b < n" for b
  proof -
    have "Suc b * cols \<le> n * cols" using that by (intro mult_le_mono1) simp
    then have "length (x b) = cols" using assms(2) by (simp add: x_def)
    then show ?thesis using assms(1,5) by (simp add: matvec_def ch_def)
  qed
  then have goal: "concat (map (\<lambda>b. the (matvec F m rows cols (x b))) [0..<n]) = concat (map (\<lambda>b. map (\<lambda>row. dot F row (x b)) ch) [0..<n])"
    by (intro arg_cong [where f = concat] map_cong) simp_all
  show ?thesis
  proof (cases "n = 1")
    case True
    then show ?thesis using goal assms mv [of 0] by (simp add: matmul_def x_def)
  next
    case False
    have "chunks_exact n (by_row F m cols xs n) = map (\<lambda>row. map (\<lambda>b. dot F row (x b)) [0..<n]) ch"
      unfolding by_row_def ch_def [symmetric] x_def by (rule chunks_exact_concat [OF assms(4)]) simp
    then show ?thesis using goal scatter_by_row [OF assms(4) ch assms(3)] assms False by (simp add: matmul_def x_def)
  qed
qed

lemma matmul_is_matvecs_witness:
  "matmul int_ops [1, 2, 3, 4, 5, 6] 2 3 [1, 0, 0, 0, 1, 1] 2 [0, 0, 0, 0] = Some [1, 4, 5, 11]"
proof -
  have "matmul int_ops [1, 2, 3, 4, 5, 6] 2 3 [1, 0, 0, 0, 1, 1] 2 [0, 0, 0, 0] =
      Some (concat (map (\<lambda>b. the (matvec int_ops [1, 2, 3, 4, 5, 6] 2 3 (take 3 (drop (b * 3) [1, 0, 0, 0, 1, 1])))) [0..<2]))"
    by (rule matmul_is_matvecs) simp_all
  also have "\<dots> = Some [1, 4, 5, 11]"
    by (simp add: matvec_def dot_def int_ops_def chunks_exact.simps upt_conv_Cons)
  finally show ?thesis .
qed

section \<open>Eight-bit products are exact\<close>

abbreviation wide :: "8 word \<Rightarrow> 8 word \<Rightarrow> 32 word" where
  "wide x y \<equiv> scast x * scast y"

lemma scast_prod_16: "scast (scast x * scast y :: 16 word) = wide x y"
proof -
  have bx: "- 128 \<le> sint x" "sint x \<le> 127" and by_: "- 128 \<le> sint y" "sint y \<le> 127" for x y :: "8 word"
    using sint_range_size [of x] sint_range_size [of y] by (simp_all add: word_size)
  have "\<bar>sint x * sint y\<bar> \<le> 128 * 128"
    unfolding abs_mult by (rule mult_mono) (use bx [of x] bx [of y] in auto)
  then have "- (2 ^ 15) \<le> sint x * sint y \<and> sint x * sint y < 2 ^ 15" by auto
  then have "sint (word_of_int (sint x * sint y) :: 16 word) = sint x * sint y"
    unfolding sint_sbintrunc' by (simp add: signed_take_bit_int_eq_self)
  moreover have scast: "(scast x * scast y :: 'b::len word) = word_of_int (sint x * sint y)"
    by (simp only: scast_eq of_int_mult)
  ultimately show ?thesis unfolding scast by (simp only: scast_eq)
qed

lemma foldl_plus_sum: "foldl (+) (s :: 32 word) xs = s + sum_list xs"
  by (induction xs arbitrary: s) (simp_all add: add.assoc)

lemma dot_i8_scalar_sum: "dot_i8_scalar a b = sum_list (map2 wide a b)"
  by (simp add: dot_i8_scalar_def foldl_plus_sum)

lemma sum_pairs: "even (length zs) \<Longrightarrow> sum_list (pair_sums zs) = sum_list (map scast zs)"
  by (induction zs rule: pair_sums.induct) (simp_all add: add.assoc)

lemma length_pair_sums: "length (pair_sums zs) = length zs div 2"
  by (induction zs rule: pair_sums.induct) simp_all

lemma sum_map2_plus:
  "length xs = length ys \<Longrightarrow> sum_list (map2 (+) xs ys) = sum_list xs + (sum_list ys :: 32 word)"
  by (induction xs ys rule: list_induct2) simp_all

lemma vpadalq_sum:
  assumes "length acc = 4" and "length z = 8"
  shows "length (vpadalq_s16 acc z) = 4" and "sum_list (vpadalq_s16 acc z) = sum_list acc + sum_list (map scast z)"
  using assms by (simp_all add: vpadalq_s16_def length_pair_sums sum_map2_plus sum_pairs)

lemma vmull_lanes: "length a = length b \<Longrightarrow> length (vmull_s8 a b) = length b"
  "map scast (vmull_s8 a b) = map2 wide a b"
  by (simp_all add: vmull_s8_def o_def case_prod_unfold scast_prod_16)

lemma sum_map2_split:
  assumes "length a = length b"
  shows "sum_list (map2 wide a b) =
    sum_list (map2 wide (take n a) (take n b)) + sum_list (map2 wide (drop n a) (drop n b))"
proof -
  have "sum_list (map2 wide a b) = sum_list (take n (map2 wide a b) @ drop n (map2 wide a b))" by simp
  then show ?thesis by (simp only: sum_list_append take_map drop_map take_zip drop_zip)
qed

lemma neon_chunk_sum:
  assumes "length acc = 4" and "length va = 16" and "length vb = 16"
  shows "length (neon_chunk acc (va, vb)) = 4"
    and "sum_list (neon_chunk acc (va, vb)) = sum_list acc + sum_list (map2 wide va vb)"
  using assms sum_map2_split [of va vb 8] by (simp_all add: neon_chunk_def vpadalq_sum vmull_lanes add.assoc)

lemma neon_fold_sum:
  "length a = length b \<Longrightarrow> length acc = 4 \<Longrightarrow>
     sum_list (foldl neon_chunk acc (zip (chunks_exact 16 a) (chunks_exact 16 b))) =
       sum_list acc + sum_list (map2 wide (take (length a div 16 * 16) a) (take (length a div 16 * 16) b))"
proof (induction "length a div 16" arbitrary: a b acc)
  case 0
  then have "length a < 16" "length b < 16" by simp_all
  then show ?case by (simp add: chunks_exact.simps [of 16])
next
  case (Suc n)
  then have len: "16 \<le> length a" "16 \<le> length b" "n = (length a - 16) div 16" by simp_all
  let ?k = "length a div 16 * 16"
  have k: "?k = 16 + n * 16" using Suc.hyps(2) by simp
  have "sum_list (map2 wide (take ?k a) (take ?k b)) =
      sum_list (map2 wide (take 16 a) (take 16 b)) +
      sum_list (map2 wide (take (n * 16) (drop 16 a)) (take (n * 16) (drop 16 b)))"
    using sum_map2_split [of "take ?k a" "take ?k b" 16] Suc.prems(1) k by (simp add: take_drop add.commute)
  then show ?case
    using Suc.hyps(1) [of "drop 16 a" "drop 16 b" "neon_chunk acc (take 16 a, take 16 b)"] Suc.prems len
    by (simp add: chunks_exact.simps [of 16 a] chunks_exact.simps [of 16 b] neon_chunk_sum add.assoc)
qed

lemma tail_sum:
  "k \<le> length a \<Longrightarrow> length a = length b \<Longrightarrow>
     foldl (\<lambda>s j. s + wide (a ! j) (b ! j)) s [k..<length a] = s + sum_list (map2 wide (drop k a) (drop k b))"
proof (induction "length a - k" arbitrary: k s)
  case (Suc n)
  then have "k < length a" "k < length b" by simp_all
  then show ?case
    using Suc.hyps(1) [of "Suc k" "s + wide (a ! k) (b ! k)"] Suc.hyps(2) Suc.prems
    by (simp add: upt_conv_Cons Cons_nth_drop_Suc [symmetric, of k a] Cons_nth_drop_Suc [symmetric, of k b] add.assoc
        del: upt_Suc)
qed simp

text \<open>C33 The vectorised eight-bit dot product is the scalar one, bit for bit, at every length: no lane
  of its sixteen-bit products overflows, the lanes are summed without loss, and the tail that does
  not fill a register is added once.\<close>

theorem dot_i8_neon_exact:
  assumes "length a = length b"
  shows "dot_i8_neon a b = dot_i8_scalar a b"
proof -
  let ?k = "length a div 16 * 16"
  have "?k \<le> length a" by simp
  then have "dot_i8_neon a b = sum_list (map2 wide (take ?k a) (take ?k b)) + sum_list (map2 wide (drop ?k a) (drop ?k b))"
    using neon_fold_sum [OF assms, of "[0, 0, 0, 0]"] tail_sum [of ?k a b] assms
    by (simp add: dot_i8_neon_def Let_def foldl_plus_sum)
  then show ?thesis using sum_map2_split [OF assms, of ?k] by (simp add: dot_i8_scalar_sum)
qed

lemma dot_i8_neon_exact_witness: "dot_i8_neon (replicate 17 (- 128)) (replicate 17 (- 128)) = 278528"
proof -
  have "dot_i8_neon (replicate 17 (- 128)) (replicate 17 (- 128)) = dot_i8_scalar (replicate 17 (- 128)) (replicate 17 (- 128))"
    by (rule dot_i8_neon_exact) simp
  also have "\<dots> = 278528" by code_simp
  finally show ?thesis .
qed

text \<open>Wrapping integers as a stand-in for floats, for the witnesses.\<close>

definition word_math :: "f32 math" where
  "word_math = \<lparr>fzero = 0, fone = 1, neg_infinity = 0, flt = (<), fle = (\<le>), ffinite = (\<lambda>_. True),
     fadd = (+), fsub = (-), fmul = (*), fdiv = (\<lambda>a _. a), fmin = min, fmax = max,
     softmax = (\<lambda>xs. xs), unit_of = ucast, fneg = uminus, fexp = (\<lambda>_. 1), fsqrt = (\<lambda>_. 1),
     fpowf = (\<lambda>_ _. 1), fsin = (\<lambda>_. 0), fcos = (\<lambda>_. 1), f_nat = of_nat\<rparr>"

end
