(* ===== verification/Router.thy ===== *)
theory Router
  imports Simd
begin

text \<open>
  \<open>garuda/src/router/mod.rs\<close>: which experts a hidden state goes to, and with what weights. The
  three families differ in where the softmax sits. \<open>None\<close> is a panic of the matrix product.
\<close>

datatype router_type = Mixtral | DeepSeek | QwenMoe

definition parse_router :: "string \<Rightarrow> router_type res" where
  "parse_router s =
     (let t = filter (\<lambda>c. c \<noteq> CHR ''-'' \<and> c \<noteq> CHR ''_'') (ascii_lower s) in
      if t = ''mixtral'' then Inr Mixtral
      else if t = ''deepseek'' then Inr DeepSeek
      else if t = ''qwen'' \<or> t = ''qwenmoe'' then Inr QwenMoe
      else Inl (Config ''unknown router '{other}' (expected mixtral, deepseek or qwen)''))"

record router =
  router_kind :: router_type
  router_dims :: model_dims

definition router_new :: "router_type \<Rightarrow> model_dims \<Rightarrow> router res" where
  "router_new rt dims = (case validate_dims dims of
     Inl e \<Rightarrow> Inl e | Inr _ \<Rightarrow> Inr \<lparr>router_kind = rt, router_dims = dims\<rparr>)"

definition gate_weights :: "(f32, 'z) math_scheme \<Rightarrow> router_type \<Rightarrow> nat \<Rightarrow> f32 list \<Rightarrow> f32 list" where
  "gate_weights F rt k picked = (case rt of
     Mixtral \<Rightarrow> softmax_in F picked
   | DeepSeek \<Rightarrow> picked
   | QwenMoe \<Rightarrow>
       (let s = foldl (fadd F) (fzero F) picked in
        if flt F (fzero F) s then map (\<lambda>v. fdiv F v s) picked
        else map (\<lambda>_. fdiv F (fone F) (f_nat F k)) picked))"

definition route :: "(f32, 'z) math_scheme \<Rightarrow> router \<Rightarrow> model_weights \<Rightarrow> f32 list \<Rightarrow>
    (expert_id \<times> f32) list res option" where
  "route F rtr w hidden =
     (let d = d_model (router_dims rtr); n = n_experts (router_dims rtr); k = dims_top_k (router_dims rtr) in
      if length hidden \<noteq> d
      then Some (Inl (Inference ''router expects a {d}-dim input, got {}''))
      else case matvec F (model_weights.router w) n d hidden of
        None \<Rightarrow> None
      | Some raw \<Rightarrow>
          (let scores = (if router_kind rtr = Mixtral then raw else softmax_in F raw);
               all = map (\<lambda>(i, v). (of_nat i, v)) (enumerate 0 scores);
               ranked = take k (sort_by (by_likelihood F) all)
           in Some (Inr (zip (map fst ranked) (gate_weights F (router_kind rtr) k (map snd ranked))))))"

section \<open>Shapes\<close>

lemma length_softmax_in [simp]: "length (softmax_in F x) = length x"
  by (simp add: softmax_in_def Let_def)

lemma length_gate_weights [simp]: "length (gate_weights F rt k picked) = length picked"
  by (cases rt) (simp_all add: gate_weights_def Let_def)

lemma distinct_insert_by: "distinct (map fst (insert_by le x ys)) \<longleftrightarrow> distinct (map fst (x # ys))"
  by (induction ys) auto

lemma distinct_sort_by: "distinct (map fst (sort_by le xs)) \<longleftrightarrow> distinct (map fst xs)"
proof (induction xs)
  case (Cons x xs)
  then show ?case by (auto simp: distinct_insert_by)
qed simp


definition gate_dims :: model_dims where
  "gate_dims = \<lparr>d_model = 2, n_heads = 1, head_dim = 2, d_ff = 1, n_experts = 3, dims_top_k = 2,
     vocab_size = 4, dims_block_size = 1, rope_theta = 0\<rparr>"

definition gate_router :: router where
  "gate_router = \<lparr>router_kind = QwenMoe, router_dims = gate_dims\<rparr>"

definition gate_model :: model_weights where
  "gate_model = \<lparr>mw_dims = gate_dims, embedding = [], wq = [], wk = [], wv = [], wo = [],
     model_weights.router = [1, 2, 3, 4, 5, 6]\<rparr>"


end
