(* ===== verification/Attention.thy ===== *)
theory Attention
  imports Simd KvCache
begin

text \<open>
  \<open>garuda/src/attention/mod.rs\<close>: multi-head attention of one token over the paged cache. The
  disk and the cache are passed along; \<open>None\<close> is a panic (a matrix of the wrong size).
  The reference is attention over a plain list of the rows appended so far
  (\<open>attend_rows\<close>): whatever the paging does in between, the result is the same.
\<close>

section \<open>The code\<close>

definition attention_new :: "model_dims \<Rightarrow> model_dims res" where
  "attention_new dims = (case validate_dims dims of
     Inl e \<Rightarrow> Inl e
   | Inr _ \<Rightarrow>
       if n_heads dims * head_dim dims \<noteq> d_model dims
       then Inl (Config ''this attention needs n_heads * head_dim ({} * {}) to equal d_model ({})'')
       else Inr dims)"

definition head_slice :: "model_dims \<Rightarrow> nat \<Rightarrow> 'f list \<Rightarrow> 'f list" where
  "head_slice dims h v = take (head_dim dims) (drop (h * head_dim dims) v)"

definition rope_heads :: "(f32, 'z) math_scheme \<Rightarrow> model_dims \<Rightarrow> nat \<Rightarrow> f32 list \<Rightarrow> f32 list" where
  "rope_heads F dims pos v =
     concat (map (\<lambda>h. rope F (head_slice dims h v) pos (rope_theta dims)) [0..<n_heads dims])"

text \<open>One read for each position, in order, up to the first that is missing.\<close>

fun gather :: "(nat \<Rightarrow> f32 list option) \<Rightarrow> string \<Rightarrow> nat list \<Rightarrow> f32 list list res" where
  "gather get msg [] = Inr []"
| "gather get msg (j # js) = (case get j of
     None \<Rightarrow> Inl (Cache msg)
   | Some v \<Rightarrow> (case gather get msg js of Inl e \<Rightarrow> Inl e | Inr vs \<Rightarrow> Inr (v # vs)))"

definition head_scores :: "(f32, 'z) math_scheme \<Rightarrow> model_dims \<Rightarrow> f32 list \<Rightarrow> nat \<Rightarrow> f32 list list \<Rightarrow> f32 list" where
  "head_scores F dims q h keys =
     (let scale = fdiv F (fone F) (fsqrt F (f_nat F (head_dim dims))) in
      softmax_in F (map (\<lambda>key. fmul F (dot F (head_slice dims h q) (head_slice dims h key)) scale) keys))"

definition mix_values :: "(f32, 'z) math_scheme \<Rightarrow> model_dims \<Rightarrow> nat \<Rightarrow> f32 list list \<Rightarrow> f32 list \<Rightarrow> f32 list" where
  "mix_values F dims h vals scores =
     foldl (\<lambda>out (v, p). add_scaled F out (head_slice dims h v) p)
       (replicate (head_dim dims) (fzero F)) (zip vals scores)"

definition head_context :: "(f32, 'z) math_scheme \<Rightarrow> model_dims \<Rightarrow> 's kv_state \<Rightarrow> nat list \<Rightarrow> f32 list \<Rightarrow> nat \<Rightarrow> f32 list res" where
  "head_context F dims kv js q h =
     (case gather (key_at kv) ''key at position {j} is missing from the kv cache'' js of
        Inl e \<Rightarrow> Inl e
      | Inr keys \<Rightarrow>
          (case gather (value_at kv) ''value at position {j} is missing from the kv cache'' js of
             Inl e \<Rightarrow> Inl e
           | Inr vals \<Rightarrow> Inr (mix_values F dims h vals (head_scores F dims q h keys))))"

fun all_heads :: "(nat \<Rightarrow> f32 list res) \<Rightarrow> nat list \<Rightarrow> f32 list res" where
  "all_heads f [] = Inr []"
| "all_heads f (h # hs) = (case f h of
     Inl e \<Rightarrow> Inl e
   | Inr c \<Rightarrow> (case all_heads f hs of Inl e \<Rightarrow> Inl e | Inr cs \<Rightarrow> Inr (c @ cs)))"

definition attend_cached :: "(f32, 'z) math_scheme \<Rightarrow> model_dims \<Rightarrow> model_weights \<Rightarrow> f32 list \<Rightarrow>
    's \<Rightarrow> 's kv_state \<Rightarrow> 's \<times> 's kv_state \<times> f32 list res option" where
  "attend_cached F dims w q st kv =
     (let start = attention_start kv; stop = kv_len kv in
      case ensure_resident st kv start stop of
        (st', kv', Inl e) \<Rightarrow> (st', kv', Some (Inl e))
      | (st', kv', Inr _) \<Rightarrow>
          (case all_heads (head_context F dims kv' [start..<stop] q) [0..<n_heads dims] of
             Inl e \<Rightarrow> (st', kv', Some (Inl e))
           | Inr ctx \<Rightarrow>
               (st', kv', map_option Inr (matvec F (wo w) (d_model dims) (d_model dims) ctx))))"

definition attention_forward :: "(f32, 'z) math_scheme \<Rightarrow> model_dims \<Rightarrow> model_weights \<Rightarrow> f32 list \<Rightarrow>
    's \<Rightarrow> 's kv_state \<Rightarrow> 's \<times> 's kv_state \<times> f32 list res option" where
  "attention_forward F dims w x st kv =
     (let d = d_model dims in
      if length x \<noteq> d
      then (st, kv, Some (Inl (Inference ''attention expects a {d}-dim input, got {}'')))
      else case (matvec F (wq w) d d x, matvec F (wk w) d d x, matvec F (wv w) d d x) of
        (Some q, Some k, Some v) \<Rightarrow>
          (case kv_append st kv (rope_heads F dims (kv_len kv) k) v of
             (st1, kv1, Inl e) \<Rightarrow> (st1, kv1, Some (Inl e))
           | (st1, kv1, Inr _) \<Rightarrow> attend_cached F dims w (rope_heads F dims (kv_len kv) q) st1 kv1)
      | _ \<Rightarrow> (st, kv, None))"


section \<open>The reference\<close>

text \<open>Attention over a list of rows: no blocks, no disk, no errors.\<close>

definition attend_rows :: "(f32, 'z) math_scheme \<Rightarrow> model_dims \<Rightarrow> f32 list \<Rightarrow> (f32 list \<times> f32 list) list \<Rightarrow> f32 list" where
  "attend_rows F dims q rows =
     concat (map (\<lambda>h. mix_values F dims h (map snd rows) (head_scores F dims q h (map fst rows))) [0..<n_heads dims])"

text \<open>The rows a token sees: all of them, or the last of them under a sliding window.\<close>

definition visible :: "nat option \<Rightarrow> 'a list \<Rightarrow> 'a list" where
  "visible win rows = (case win of None \<Rightarrow> rows | Some n \<Rightarrow> drop (length rows - n) rows)"

definition token_row :: "(f32, 'z) math_scheme \<Rightarrow> model_dims \<Rightarrow> model_weights \<Rightarrow> f32 list \<Rightarrow> nat \<Rightarrow> f32 list \<times> f32 list" where
  "token_row F dims w x pos =
     (let d = d_model dims in
      (rope_heads F dims pos (the (matvec F (wk w) d d x)), the (matvec F (wv w) d d x)))"

definition attention_ref :: "(f32, 'z) math_scheme \<Rightarrow> model_dims \<Rightarrow> model_weights \<Rightarrow> nat option \<Rightarrow>
    (f32 list \<times> f32 list) list \<Rightarrow> f32 list \<Rightarrow> f32 list" where
  "attention_ref F dims w win rows x =
     (let d = d_model dims;
          q = rope_heads F dims (length rows) (the (matvec F (wq w) d d x));
          seen = visible win (rows @ [token_row F dims w x (length rows)])
      in the (matvec F (wo w) d d (attend_rows F dims q seen)))"

section \<open>Shapes\<close>

lemma length_add_scaled [simp]: "length (add_scaled F a b k) = length a"
  by (simp add: add_scaled_def)

lemma length_mix_values: "length (mix_values F dims h vals scores) = head_dim dims"
proof -
  have "length (foldl (\<lambda>out (v, p). add_scaled F out (head_slice dims h v) p) out vs) = length out" for out vs
    by (induction vs arbitrary: out) auto
  then show ?thesis by (simp add: mix_values_def)
qed

lemma length_attend_rows: "length (attend_rows F dims q rows) = n_heads dims * head_dim dims"
  by (simp add: attend_rows_def length_concat o_def length_mix_values sum_list_triv)

lemma length_foldl: "(\<And>v j. length (f v j) = length v) \<Longrightarrow> length (foldl f v js) = length v"
  by (induction js arbitrary: v) simp_all

lemma length_rope [simp]: "length (rope F v pos theta) = length v"
  by (simp add: rope_def Let_def length_foldl)

lemma length_rope_heads:
  assumes "length v = n_heads dims * head_dim dims"
  shows "length (rope_heads F dims pos v) = length v"
proof -
  have "length (head_slice dims h v) = head_dim dims" if "h < n_heads dims" for h
  proof -
    have "Suc h * head_dim dims \<le> n_heads dims * head_dim dims" using that by (intro mult_le_mono1) simp
    then show ?thesis using assms by (simp add: head_slice_def)
  qed
  then have "map (length \<circ> (\<lambda>h. rope F (head_slice dims h v) pos (rope_theta dims))) [0..<n_heads dims] =
      map (\<lambda>_. head_dim dims) [0..<n_heads dims]"
    by (intro map_cong) simp_all
  then show ?thesis using assms by (simp add: rope_heads_def length_concat sum_list_triv del: map_eq_conv)
qed

lemma matvec_square:
  assumes "length m = d * d" and "length x = d" and "0 < d"
  obtains y where "matvec F m d d x = Some y" and "length y = d"
  using assms chunks_exact_rows [OF assms(3,1)] by (simp add: matvec_def)

lemma gather_ok: "\<forall>j \<in> set js. get j = Some (f j) \<Longrightarrow> gather get msg js = Inr (map f js)"
  by (induction js) auto

lemma all_heads_ok: "\<forall>h \<in> set hs. f h = Inr (g h) \<Longrightarrow> all_heads f hs = Inr (concat (map g hs))"
  by (induction hs) auto

lemma visible_drop: "length rows = kv_len kv \<Longrightarrow> visible (sliding_window kv) rows = drop (attention_start kv) rows"
  by (simp add: visible_def attention_start_def split: option.split)

lemma map_nth_drop: "map (\<lambda>j. f (rows ! j)) [n..<length rows] = map f (drop n rows)"
  by (rule nth_equalityI) simp_all

section \<open>The cache behaves as the list of its rows\<close>

definition attention_shape :: "model_dims \<Rightarrow> model_weights \<Rightarrow> bool" where
  "attention_shape dims w \<longleftrightarrow>
     attention_new dims = Inr dims \<and> length (wq w) = d_model dims * d_model dims \<and>
     length (wk w) = d_model dims * d_model dims \<and> length (wv w) = d_model dims * d_model dims \<and>
     length (wo w) = d_model dims * d_model dims"

lemma attention_shapeD:
  assumes "attention_shape dims w"
  shows "0 < d_model dims" "n_heads dims * head_dim dims = d_model dims"
proof -
  have "0 < n_heads dims" "0 < head_dim dims" and eq: "n_heads dims * head_dim dims = d_model dims"
    using assms by (auto simp: attention_shape_def attention_new_def validate_dims_def split: if_splits)
  then show "0 < d_model dims" by (metis mult_pos_pos)
  show "n_heads dims * head_dim dims = d_model dims" by (rule eq)
qed

context kv_backend
begin

lemma attend_cached_rows:
  fixes kv :: "'s kv_state"
  assumes run: "attend_cached F dims w q st kv = (st', kv', r)"
    and inv: "kv_inv (content st) kv" and sto: "kv_storage kv \<in> {None, Some ops}"
    and rows: "kv_contents (content st) kv = map Some rows" and shape: "attention_shape dims w"
  shows "kv_inv (content st') kv' \<and> kv_frame kv kv' \<and> kv_contents (content st') kv' = map Some rows \<and>
    r \<noteq> None \<and> (\<forall>out. r = Some (Inr out) \<longrightarrow>
      out = the (matvec F (wo w) (d_model dims) (d_model dims)
        (attend_rows F dims q (visible (sliding_window kv) rows))))"
proof -
  let ?start = "attention_start kv"
  obtain st1 kv1 r1 where ens: "ensure_resident st kv ?start (kv_len kv) = (st1, kv1, r1)" by (metis prod_cases3)
  note keep = ensure_resident_keeps [OF ens inv sto]
  note fr = kv_frame_simps [OF keep(2)]
  have len: "length rows = kv_len kv" using arg_cong [OF rows, of length] by simp
  show ?thesis
  proof (cases r1)
    case (Inl e)
    then show ?thesis using run ens keep rows by (auto simp: attend_cached_def)
  next
    case (Inr u)
    have read: "key_at kv1 j = Some (fst (rows ! j)) \<and> value_at kv1 j = Some (snd (rows ! j))"
      if "j \<in> set [?start..<kv_len kv]" for j
    proof -
      have j: "?start \<le> j" "j < kv_len kv" using that by auto
      obtain blk where blk: "map_of (resident kv1) (j div block_size kv1) = Some blk"
        using keep(5) [OF _ j j(2)] Inr fr by auto
      have j': "j < kv_len kv1" using j fr by simp
      have "kv_row (content st1) kv1 j = Some (rows ! j)"
        using keep(3) rows j len j' by (metis kv_contents_def kv_contents_length length_map add_0 nth_map nth_upt diff_zero length_upt)
      then show ?thesis using kv_row_resident [OF keep(1) j' blk] by auto
    qed
    let ?seen = "visible (sliding_window kv) rows"
    have seen: "?seen = drop ?start rows" using visible_drop [OF len] by simp
    have "head_context F dims kv1 [?start..<kv_len kv] q h =
        Inr (mix_values F dims h (map snd ?seen) (head_scores F dims q h (map fst ?seen)))" for h
      using gather_ok [of "[?start..<kv_len kv]" "key_at kv1" "\<lambda>j. fst (rows ! j)"]
        gather_ok [of "[?start..<kv_len kv]" "value_at kv1" "\<lambda>j. snd (rows ! j)"] read
      unfolding len [symmetric] seen by (simp add: head_context_def map_nth_drop)
    then have ctx: "all_heads (head_context F dims kv1 [?start..<kv_len kv] q) [0..<n_heads dims] = Inr (attend_rows F dims q ?seen)"
      unfolding attend_rows_def by (intro all_heads_ok) simp
    obtain y where y: "matvec F (wo w) (d_model dims) (d_model dims) (attend_rows F dims q ?seen) = Some y"
      using matvec_square [of "wo w" "d_model dims" "attend_rows F dims q ?seen" F] attention_shapeD [OF shape] shape
      by (auto simp: length_attend_rows attention_shape_def)
    have "st' = st1 \<and> kv' = kv1 \<and> r = Some (Inr y)"
      using run ens Inr ctx y by (simp add: attend_cached_def Let_def)
    then show ?thesis using keep rows y by simp
  qed
qed

lemma attention_forward_rows:
  fixes kv :: "'s kv_state"
  assumes run: "attention_forward F dims w x st kv = (st', kv', r)"
    and inv: "kv_inv (content st) kv" and sto: "kv_storage kv \<in> {None, Some ops}"
    and rows: "kv_contents (content st) kv = map Some rows" and shape: "attention_shape dims w"
    and wd: "kv_dim kv = d_model dims"
  shows "kv_inv (content st') kv' \<and> kv_storage kv' = kv_storage kv \<and> kv_dim kv' = kv_dim kv \<and>
      sliding_window kv' = sliding_window kv \<and> r \<noteq> None \<and>
    (kv_contents (content st') kv' = map Some rows \<and> (\<forall>out. r \<noteq> Some (Inr out)) \<or>
     kv_contents (content st') kv' = map Some (rows @ [token_row F dims w x (length rows)]) \<and>
     (\<forall>out. r = Some (Inr out) \<longrightarrow> out = attention_ref F dims w (sliding_window kv) rows x))"
proof (cases "length x = d_model dims")
  case False
  then show ?thesis using run inv rows by (auto simp: attention_forward_def)
next
  case True
  let ?d = "d_model dims"
  note sh = attention_shapeD [OF shape]
  have len: "length rows = kv_len kv" using arg_cong [OF rows, of length] by simp
  obtain q where q: "matvec F (wq w) ?d ?d x = Some q" "length q = ?d"
    using matvec_square [of "wq w" ?d x F] True sh shape by (auto simp: attention_shape_def)
  obtain k where k: "matvec F (wk w) ?d ?d x = Some k" "length k = ?d"
    using matvec_square [of "wk w" ?d x F] True sh shape by (auto simp: attention_shape_def)
  obtain v where v: "matvec F (wv w) ?d ?d x = Some v" "length v = ?d"
    using matvec_square [of "wv w" ?d x F] True sh shape by (auto simp: attention_shape_def)
  let ?k = "rope_heads F dims (kv_len kv) k"
  have lk: "length ?k = kv_dim kv" using length_rope_heads [of k dims] k(2) sh(2) wd by simp
  have lv: "length v = kv_dim kv" using v wd by simp
  have row: "token_row F dims w x (length rows) = (?k, v)" by (simp add: token_row_def k v len Let_def)
  obtain st1 kv1 r1 where app: "kv_append st kv ?k v = (st1, kv1, r1)" by (metis prod_cases3)
  show ?thesis
  proof (cases "kv_len kv < max_positions kv")
    case full: False
    then have "st1 = st \<and> kv1 = kv \<and> (\<exists>e. r1 = Inl e)" using app lk lv by (auto simp: kv_append_def)
    then show ?thesis using run inv rows True q k v app by (auto simp: attention_forward_def)
  next
    case room: True
    note a = kv_append_keeps [OF app inv sto lk lv room]
    have fr: "kv_storage kv1 = kv_storage kv" "kv_dim kv1 = kv_dim kv" "sliding_window kv1 = sliding_window kv"
      using kv_frame_simps [OF a(3)] by (simp_all add: push_row_def Let_def)
    have rows1: "kv_contents (content st1) kv1 = map Some (rows @ [token_row F dims w x (length rows)])"
      using a(2) rows row by simp
    show ?thesis
    proof (cases r1)
      case (Inl e)
      then have "st' = st1 \<and> kv' = kv1 \<and> r = Some (Inl e)"
        using run True q k v app by (simp add: attention_forward_def)
      then show ?thesis using a(1) rows1 fr by simp
    next
      case (Inr u)
      then have run': "attend_cached F dims w (rope_heads F dims (kv_len kv) q) st1 kv1 = (st', kv', r)"
        using run True q k v app by (simp add: attention_forward_def)
      have sto1: "kv_storage kv1 \<in> {None, Some ops}" using fr sto by simp
      note c = attend_cached_rows [OF run' a(1) sto1 rows1 shape]
      have fr': "kv_storage kv' = kv_storage kv" "kv_dim kv' = kv_dim kv" "sliding_window kv' = sliding_window kv"
        using c kv_frame_simps [of kv1 kv'] fr by simp_all
      show ?thesis using c fr' fr by (auto simp: attention_ref_def Let_def q len)
    qed
  qed
qed

end

end
