(* ===== verification/Moe.thy ===== *)
theory Moe
  imports Router Attention SeqState PrefetchEngine
begin

text \<open>
  \<open>garuda/src/moe/mod.rs\<close>: the synthetic mixture-of-experts model. One token goes through
  norm, attention, norm, the experts it routes to, and the engine runs the tokens the sequence
  has not absorbed. \<open>'w\<close> is the state of the loader and the prefetcher (trait objects, so
  functions here), \<open>'s\<close> the disk the cache spills to; \<open>None\<close> is a panic (a matrix of
  the wrong size).
\<close>

record 'w moe_engine =
  me_dims :: model_dims
  me_weights :: model_weights
  me_router :: router
  me_load :: "'w \<Rightarrow> expert_id \<Rightarrow> 'w \<times> expert res"
  me_observe :: "('w \<Rightarrow> expert_id list \<Rightarrow> expert_id list \<Rightarrow> expert_id list \<Rightarrow> 'w \<times> expert_id list) option"

definition moe_new :: "model_dims \<Rightarrow> model_weights \<Rightarrow> router \<Rightarrow> ('w \<Rightarrow> expert_id \<Rightarrow> 'w \<times> expert res) \<Rightarrow>
    ('w \<Rightarrow> expert_id list \<Rightarrow> expert_id list \<Rightarrow> expert_id list \<Rightarrow> 'w \<times> expert_id list) option \<Rightarrow> 'w moe_engine res" where
  "moe_new dims w rtr load obs = (case validate_dims dims of
     Inl e \<Rightarrow> Inl e
   | Inr _ \<Rightarrow> (case attention_new dims of
       Inl e \<Rightarrow> Inl e
     | Inr _ \<Rightarrow> Inr \<lparr>me_dims = dims, me_weights = w, me_router = rtr, me_load = load, me_observe = obs\<rparr>))"

text \<open>\<open>1e-5\<close>, by its bits.\<close>

definition norm_eps :: f32 where
  "norm_eps = 0x3727C5AC"

definition expert_ffn :: "(f32, 'z) math_scheme \<Rightarrow> 'w moe_engine \<Rightarrow> expert \<Rightarrow> f32 list \<Rightarrow> f32 list res option" where
  "expert_ffn F eng ex h =
     (let d = d_model (me_dims eng); f = d_ff (me_dims eng) in
      if length (gate ex) \<noteq> f * d \<or> length (up ex) \<noteq> f * d \<or> length (down ex) \<noteq> d * f
      then Some (Inl (Model ''expert {} has tensors of size ({}, {}, {}) but dims require ({}, {}, {})''))
      else case (matvec F (gate ex) f d h, matvec F (up ex) f d h) of
        (Some g, Some u) \<Rightarrow> map_option Inr (matvec F (down ex) d f (mul_assign F (silu F g) u))
      | _ \<Rightarrow> None)"

fun run_experts :: "(f32, 'z) math_scheme \<Rightarrow> 'w moe_engine \<Rightarrow> f32 list \<Rightarrow> (expert_id \<times> f32) list \<Rightarrow>
    'w \<Rightarrow> f32 list \<Rightarrow> expert_id list \<Rightarrow> 'w \<times> (f32 list \<times> expert_id list) res option" where
  "run_experts F eng h [] w out used = (w, Some (Inr (out, used)))"
| "run_experts F eng h ((i, weight) # sel) w out used =
     (case me_load eng w i of
        (w', Inl e) \<Rightarrow> (w', Some (Inl e))
      | (w', Inr ex) \<Rightarrow>
          (case expert_ffn F eng ex h of
             None \<Rightarrow> (w', None)
           | Some (Inl e) \<Rightarrow> (w', Some (Inl e))
           | Some (Inr y) \<Rightarrow> run_experts F eng h sel w' (add_scaled F out y weight) (used @ [i])))"

definition moe_ffn :: "(f32, 'z) math_scheme \<Rightarrow> 'w moe_engine \<Rightarrow> f32 list \<Rightarrow> 'w \<Rightarrow>
    'w \<times> (f32 list \<times> expert_id list) res option" where
  "moe_ffn F eng h w =
     (case route F (me_router eng) (me_weights eng) h of
        None \<Rightarrow> (w, None)
      | Some (Inl e) \<Rightarrow> (w, Some (Inl e))
      | Some (Inr sel) \<Rightarrow> run_experts F eng h sel w (replicate (d_model (me_dims eng)) (fzero F)) [])"

text \<open>The model has one layer: the sequence's first cache.\<close>

definition seq_kv :: "'s seq_state \<Rightarrow> 's kv_state" where
  "seq_kv s = hd (kvs s)"

definition set_kv :: "'s seq_state \<Rightarrow> 's kv_state \<Rightarrow> 's seq_state" where
  "set_kv s kv = s\<lparr>kvs := (kvs s)[0 := kv]\<rparr>"

text \<open>The experts that fired are recorded, and the prefetcher is told.\<close>

definition learn :: "'w moe_engine \<Rightarrow> expert_id list \<Rightarrow> 'w \<Rightarrow> 's kv_state \<Rightarrow> 'w \<times> 's kv_state" where
  "learn eng used w kv =
     (case me_observe eng of
        None \<Rightarrow> (w, kv\<lparr>last_experts := used\<rparr>)
      | Some obs \<Rightarrow>
          (case obs w (last_experts kv) used (last_predicted kv) of
             (w', predicted) \<Rightarrow> (w', kv\<lparr>last_predicted := predicted, last_experts := used\<rparr>)))"

type_synonym ('w, 's) moe_state = "'w \<times> 's \<times> 's seq_state"

definition moe_step :: "(f32, 'z) math_scheme \<Rightarrow> 'w moe_engine \<Rightarrow> token \<Rightarrow> ('w, 's) moe_state \<Rightarrow>
    ('w, 's) moe_state \<times> f32 list res option" where
  "moe_step F eng t ws = (case ws of (w, st, s) \<Rightarrow>
     (case embed (me_weights eng) t of
        Inl e \<Rightarrow> (ws, Some (Inl e))
      | Inr x \<Rightarrow>
          (case attention_forward F (me_dims eng) (me_weights eng) (rmsnorm F x norm_eps) st (seq_kv s) of
             (st1, kv1, None) \<Rightarrow> ((w, st1, set_kv s kv1), None)
           | (st1, kv1, Some (Inl e)) \<Rightarrow> ((w, st1, set_kv s kv1), Some (Inl e))
           | (st1, kv1, Some (Inr attn)) \<Rightarrow>
               (let x1 = add_assign F x attn in
                case moe_ffn F eng (rmsnorm F x1 norm_eps) w of
                  (w1, None) \<Rightarrow> ((w1, st1, set_kv s kv1), None)
                | (w1, Some (Inl e)) \<Rightarrow> ((w1, st1, set_kv s kv1), Some (Inl e))
                | (w1, Some (Inr (ffn, used))) \<Rightarrow>
                    (case learn eng used w1 kv1 of
                       (w2, kv2) \<Rightarrow> ((w2, st1, set_kv s kv2), Some (Inr (add_assign F x1 ffn))))))))"

text \<open>The tokens the sequence has not seen, one after the other; the last one's output.\<close>

fun moe_steps :: "(f32, 'z) math_scheme \<Rightarrow> 'w moe_engine \<Rightarrow> token list \<Rightarrow> f32 list option \<Rightarrow> ('w, 's) moe_state \<Rightarrow>
    ('w, 's) moe_state \<times> f32 list option res option" where
  "moe_steps F eng [] lst ws = (ws, Some (Inr lst))"
| "moe_steps F eng (t # ts) lst ws =
     (case moe_step F eng t ws of
        (ws', None) \<Rightarrow> (ws', None)
      | (ws', Some (Inl e)) \<Rightarrow> (ws', Some (Inl e))
      | (ws', Some (Inr x)) \<Rightarrow> moe_steps F eng ts (Some x) ws')"

definition moe_hidden :: "(f32, 'z) math_scheme \<Rightarrow> 'w moe_engine \<Rightarrow> token list \<Rightarrow> ('w, 's) moe_state \<Rightarrow>
    ('w, 's) moe_state \<times> f32 tensor res option" where
  "moe_hidden F eng ctx ws =
     (let already = seq_len (snd (snd ws)) in
      if ctx = [] then (ws, Some (Inl (Inference ''empty context'')))
      else if already > length ctx
      then (ws, Some (Inl (Inference ''sequence state holds {already} positions but the context is only {} long'')))
      else case moe_steps F eng (drop already ctx) None ws of
        (ws', None) \<Rightarrow> (ws', None)
      | (ws', Some (Inl e)) \<Rightarrow> (ws', Some (Inl e))
      | (ws', Some (Inr None)) \<Rightarrow> (ws', Some (Inl (Inference ''no new tokens to process for this context'')))
      | (ws', Some (Inr (Some x))) \<Rightarrow>
          (ws', Some (tensor_new [d_model (me_dims eng)] (rmsnorm F x norm_eps))))"

definition moe_logits :: "(f32, 'z) math_scheme \<Rightarrow> 'w moe_engine \<Rightarrow> token list \<Rightarrow> ('w, 's) moe_state \<Rightarrow>
    ('w, 's) moe_state \<times> f32 tensor res option" where
  "moe_logits F eng ctx ws =
     (case moe_hidden F eng ctx ws of
        (ws', None) \<Rightarrow> (ws', None)
      | (ws', Some (Inl e)) \<Rightarrow> (ws', Some (Inl e))
      | (ws', Some (Inr x)) \<Rightarrow>
          (let v = vocab_size (me_dims eng); d = d_model (me_dims eng) in
           case matvec F (embedding (me_weights eng)) v d (tdata x) of
             None \<Rightarrow> (ws', None)
           | Some l \<Rightarrow> (ws', Some (tensor_new [v] l))))"


section \<open>The reference: a function of the context\<close>

text \<open>
  No cache, no disk, no loader: an expert is what its id stands for, and the keys and values of
  the earlier tokens are computed afresh.
\<close>

definition the_row :: "(f32, 'z) math_scheme \<Rightarrow> 'w moe_engine \<Rightarrow> nat \<Rightarrow> token \<Rightarrow> f32 list \<times> f32 list" where
  "the_row F eng pos t =
     (case embed (me_weights eng) t of
        Inl _ \<Rightarrow> ([], [])
      | Inr x \<Rightarrow> token_row F (me_dims eng) (me_weights eng) (rmsnorm F x norm_eps) pos)"

definition context_rows :: "(f32, 'z) math_scheme \<Rightarrow> 'w moe_engine \<Rightarrow> token list \<Rightarrow> (f32 list \<times> f32 list) list" where
  "context_rows F eng ctx = map (\<lambda>(pos, t). the_row F eng pos t) (enumerate 0 ctx)"

fun ref_experts :: "(f32, 'z) math_scheme \<Rightarrow> 'w moe_engine \<Rightarrow> (expert_id \<rightharpoonup> expert) \<Rightarrow> f32 list \<Rightarrow>
    (expert_id \<times> f32) list \<Rightarrow> f32 list \<Rightarrow> f32 list option" where
  "ref_experts F eng E h [] out = Some out"
| "ref_experts F eng E h ((i, weight) # sel) out =
     (case E i of
        None \<Rightarrow> None
      | Some ex \<Rightarrow>
          (case expert_ffn F eng ex h of
             Some (Inr y) \<Rightarrow> ref_experts F eng E h sel (add_scaled F out y weight)
           | _ \<Rightarrow> None))"

definition ref_ffn :: "(f32, 'z) math_scheme \<Rightarrow> 'w moe_engine \<Rightarrow> (expert_id \<rightharpoonup> expert) \<Rightarrow> f32 list \<Rightarrow> f32 list option" where
  "ref_ffn F eng E h =
     (case route F (me_router eng) (me_weights eng) h of
        Some (Inr sel) \<Rightarrow> ref_experts F eng E h sel (replicate (d_model (me_dims eng)) (fzero F))
      | _ \<Rightarrow> None)"

definition ref_block :: "(f32, 'z) math_scheme \<Rightarrow> 'w moe_engine \<Rightarrow> (expert_id \<rightharpoonup> expert) \<Rightarrow> nat option \<Rightarrow>
    token list \<Rightarrow> token \<Rightarrow> f32 list option" where
  "ref_block F eng E win earlier t =
     (case embed (me_weights eng) t of
        Inl _ \<Rightarrow> None
      | Inr x \<Rightarrow>
          (let attn = attention_ref F (me_dims eng) (me_weights eng) win (context_rows F eng earlier) (rmsnorm F x norm_eps);
               x1 = add_assign F x attn
           in map_option (add_assign F x1) (ref_ffn F eng E (rmsnorm F x1 norm_eps))))"

definition ref_hidden :: "(f32, 'z) math_scheme \<Rightarrow> 'w moe_engine \<Rightarrow> (expert_id \<rightharpoonup> expert) \<Rightarrow> nat option \<Rightarrow>
    token list \<Rightarrow> f32 list option" where
  "ref_hidden F eng E win ctx =
     map_option (\<lambda>x. rmsnorm F x norm_eps) (ref_block F eng E win (butlast ctx) (last ctx))"

section \<open>What the cache of a sequence holds\<close>

lemma last_fields [simp]:
  "kv_inv files (kv\<lparr>last_experts := a\<rparr>) = kv_inv files kv"
  "kv_inv files (kv\<lparr>last_predicted := b\<rparr>) = kv_inv files kv"
  "kv_contents files (kv\<lparr>last_experts := a\<rparr>) = kv_contents files kv"
  "kv_contents files (kv\<lparr>last_predicted := b\<rparr>) = kv_contents files kv"
  by (simp_all add: kv_inv_def kv_contents_def kv_row_def block_at_def spill_path_def cong: option.case_cong)

definition kv_holds :: "(f32, 'z) math_scheme \<Rightarrow> 'w moe_engine \<Rightarrow> (path \<rightharpoonup> u8 list) \<Rightarrow>
    's storage_ops \<Rightarrow> nat option \<Rightarrow> 's seq_state \<Rightarrow> token list \<Rightarrow> bool" where
  "kv_holds F eng files ops win s ctx \<longleftrightarrow> kvs s \<noteq> [] \<and>
     kv_inv files (seq_kv s) \<and> kv_storage (seq_kv s) \<in> {None, Some ops} \<and>
     kv_dim (seq_kv s) = d_model (me_dims eng) \<and> sliding_window (seq_kv s) = win \<and>
     kv_contents files (seq_kv s) = map Some (context_rows F eng ctx)"

lemma length_context_rows [simp]: "length (context_rows F eng ctx) = length ctx"
  by (simp add: context_rows_def)

lemma context_rows_snoc:
  "context_rows F eng (ctx @ [t]) = context_rows F eng ctx @ [the_row F eng (length ctx) t]"
  by (simp add: context_rows_def enumerate_append_eq)

lemma seq_kv_set [simp]: "kvs s \<noteq> [] \<Longrightarrow> seq_kv (set_kv s kv) = kv" "kvs (set_kv s kv) = [] \<longleftrightarrow> kvs s = []"
  by (cases "kvs s"; simp add: seq_kv_def set_kv_def)+

lemma kv_holds_len: "kv_holds F eng files ops win s ctx \<Longrightarrow> seq_len s = length ctx"
  unfolding kv_holds_def seq_len_def seq_kv_def by (metis kv_contents_length length_context_rows length_map)

section \<open>The contract with the loader and the prefetcher\<close>

text \<open>
  Calls may fail, but none changes what an id stands for; a load that succeeds answers with it.
  Advice about the next step changes nothing either.
\<close>

locale moe_world = kv_backend ops content good
  for ops :: "'s storage_ops" and content :: "'s \<Rightarrow> path \<rightharpoonup> u8 list" and good :: "path \<Rightarrow> bool" +
  fixes load :: "'w \<Rightarrow> expert_id \<Rightarrow> 'w \<times> expert res"
    and advise :: "'w \<Rightarrow> expert_id list \<Rightarrow> expert_id list \<Rightarrow> expert_id list \<Rightarrow> 'w \<times> expert_id list"
    and stands_for :: "'w \<Rightarrow> expert_id \<rightharpoonup> expert"
    and ok :: "'w \<Rightarrow> bool"
  assumes load_keeps: "ok w \<Longrightarrow> load w i = (w', r) \<Longrightarrow>
      ok w' \<and> stands_for w' = stands_for w \<and> (\<forall>ex. r = Inr ex \<longrightarrow> stands_for w i = Some ex)"
    and advise_keeps: "ok w \<Longrightarrow> advise w previous used predicted = (w', ids) \<Longrightarrow>
      ok w' \<and> stands_for w' = stands_for w"
begin

lemma run_experts_ref:
  assumes "me_load eng = load"
  shows "run_experts F eng h sel w out used = (w', r) \<Longrightarrow> ok w \<Longrightarrow>
    ok w' \<and> stands_for w' = stands_for w \<and>
    (\<forall>y u. r = Some (Inr (y, u)) \<longrightarrow> ref_experts F eng (stands_for w) h sel out = Some y)"
proof (induction sel arbitrary: w out used)
  case Nil
  then show ?case by auto
next
  case (Cons iw sel)
  obtain i weight where iw: "iw = (i, weight)" by fastforce
  obtain w1 r1 where ld: "load w i = (w1, r1)" by fastforce
  note k = load_keeps [OF Cons.prems(2) ld]
  show ?case
  proof (cases r1)
    case (Inl e)
    then show ?thesis using Cons.prems ld k assms by (auto simp: iw)
  next
    case (Inr ex)
    then have means: "stands_for w i = Some ex" using k by blast
    show ?thesis
    proof (cases "expert_ffn F eng ex h")
      case None
      then show ?thesis using Cons.prems ld k Inr assms by (auto simp: iw)
    next
      case (Some y)
      show ?thesis
      proof (cases y)
        case (Inl e)
        then show ?thesis using Cons.prems ld k Inr Some assms by (auto simp: iw)
      next
        case y: (Inr v)
        then have "run_experts F eng h sel w1 (add_scaled F out v weight) (used @ [i]) = (w', r)"
          using Cons.prems ld Inr Some assms by (simp add: iw)
        from Cons.IH [OF this] k show ?thesis using Some y means by (simp add: iw)
      qed
    qed
  qed
qed

lemma moe_ffn_ref:
  assumes "me_load eng = load" and "moe_ffn F eng h w = (w', r)" and "ok w"
  shows "ok w' \<and> stands_for w' = stands_for w \<and>
    (\<forall>y u. r = Some (Inr (y, u)) \<longrightarrow> ref_ffn F eng (stands_for w) h = Some y)"
  using assms(2,3) run_experts_ref [OF assms(1), of F h _ w]
  by (auto simp: moe_ffn_def ref_ffn_def split: option.splits sum.splits)

lemma learn_keeps:
  assumes "learn eng used w kv = (w', kv')" and "ok w" and "me_observe eng \<in> {None, Some advise}"
  shows "ok w' \<and> stands_for w' = stands_for w \<and>
    (\<exists>p. kv' = kv\<lparr>last_experts := used\<rparr> \<or> kv' = kv\<lparr>last_predicted := p, last_experts := used\<rparr>)"
  using assms advise_keeps [OF assms(2)]
  by (auto simp: learn_def split: option.splits prod.splits)

lemma moe_step_ref:
  assumes run: "moe_step F eng t (w, st, s) = ((w', st', s'), r)"
    and eng: "me_load eng = load" "me_observe eng \<in> {None, Some advise}"
    and shape: "attention_shape (me_dims eng) (me_weights eng)"
    and ok: "ok w" and holds: "kv_holds F eng (content st) ops win s ctx"
  shows "ok w' \<and> stands_for w' = stands_for w \<and>
    (kv_holds F eng (content st') ops win s' ctx \<and> (\<forall>x. r \<noteq> Some (Inr x)) \<or>
     kv_holds F eng (content st') ops win s' (ctx @ [t]) \<and>
     (\<forall>x. r = Some (Inr x) \<longrightarrow> ref_block F eng (stands_for w) win ctx t = Some x))"
proof (cases "embed (me_weights eng) t")
  case (Inl e)
  then show ?thesis using run ok holds by (auto simp: moe_step_def)
next
  case (Inr x)
  let ?h = "rmsnorm F x norm_eps" and ?rows = "context_rows F eng ctx"
  note hd = holds [unfolded kv_holds_def]
  obtain st1 kv1 ra where att: "attention_forward F (me_dims eng) (me_weights eng) ?h st (seq_kv s) = (st1, kv1, ra)"
    by (metis prod_cases3)
  have rows: "kv_contents (content st) (seq_kv s) = map Some ?rows" using hd by blast
  have a: "kv_inv (content st1) kv1 \<and> kv_storage kv1 = kv_storage (seq_kv s) \<and> kv_dim kv1 = kv_dim (seq_kv s) \<and>
      sliding_window kv1 = sliding_window (seq_kv s) \<and> ra \<noteq> None \<and>
    (kv_contents (content st1) kv1 = map Some ?rows \<and> (\<forall>out. ra \<noteq> Some (Inr out)) \<or>
     kv_contents (content st1) kv1 = map Some (?rows @ [token_row F (me_dims eng) (me_weights eng) ?h (length ?rows)]) \<and>
     (\<forall>out. ra = Some (Inr out) \<longrightarrow>
       out = attention_ref F (me_dims eng) (me_weights eng) (sliding_window (seq_kv s)) ?rows ?h))"
    by (rule attention_forward_rows [OF att _ _ rows shape]) (use hd in auto)
  have row: "?rows @ [token_row F (me_dims eng) (me_weights eng) ?h (length ?rows)] = context_rows F eng (ctx @ [t])"
    by (simp add: context_rows_snoc the_row_def Inr)
  have keep: "kv_holds F eng (content st1) ops win (set_kv s kv2) c"
    if "kv_contents (content st1) kv1 = map Some (context_rows F eng c)"
      "kv2 = kv1 \<or> (\<exists>u p. kv2 = kv1\<lparr>last_experts := u\<rparr> \<or> kv2 = kv1\<lparr>last_predicted := p, last_experts := u\<rparr>)" for kv2 c
    using that a hd by (auto simp: kv_holds_def)
  show ?thesis
  proof (cases "\<exists>out. ra = Some (Inr out)")
    case False
    then obtain e where "ra = Some (Inl e)" using a by (metis option.exhaust sum.exhaust)
    then have "w' = w \<and> st' = st1 \<and> s' = set_kv s kv1 \<and> r = Some (Inl e)"
      using run Inr att by (simp add: moe_step_def)
    moreover have "kv_contents (content st1) kv1 = map Some ?rows \<or>
        kv_contents (content st1) kv1 = map Some (context_rows F eng (ctx @ [t]))"
      using a [unfolded row] by blast
    ultimately show ?thesis using keep ok by auto
  next
    case True
    then obtain out where out: "ra = Some (Inr out)" by blast
    then have ref: "out = attention_ref F (me_dims eng) (me_weights eng) win ?rows ?h"
      and rows1: "kv_contents (content st1) kv1 = map Some (context_rows F eng (ctx @ [t]))"
      using a [unfolded row] hd by auto
    let ?x1 = "add_assign F x out"
    obtain w1 rm where ffn: "moe_ffn F eng (rmsnorm F ?x1 norm_eps) w = (w1, rm)" by fastforce
    note m = moe_ffn_ref [OF eng(1) ffn ok]
    show ?thesis
    proof (cases "\<exists>y u. rm = Some (Inr (y, u))")
      case False
      then consider "rm = None" | e where "rm = Some (Inl e)" by (metis option.exhaust sum.exhaust surj_pair)
      then have "w' = w1 \<and> st' = st1 \<and> s' = set_kv s kv1 \<and> (\<forall>x. r \<noteq> Some (Inr x))"
        using run Inr att out ffn by cases (auto simp: moe_step_def Let_def)
      then show ?thesis using keep [OF rows1] m by auto
    next
      case True
      then obtain y u where rm: "rm = Some (Inr (y, u))" by blast
      obtain w2 kv2 where lrn: "learn eng u w1 kv1 = (w2, kv2)" by fastforce
      have "w' = w2 \<and> st' = st1 \<and> s' = set_kv s kv2 \<and> r = Some (Inr (add_assign F ?x1 y))"
        using run Inr att out ffn rm lrn by (simp add: moe_step_def Let_def)
      moreover have "ref_block F eng (stands_for w) win ctx t = Some (add_assign F ?x1 y)"
        using m rm ref Inr by (simp add: ref_block_def Let_def)
      moreover note learn_keeps [OF lrn _ eng(2)]
      ultimately show ?thesis using keep [OF rows1, of kv2] m by auto
    qed
  qed
qed

lemma moe_steps_ref:
  assumes eng: "me_load eng = load" "me_observe eng \<in> {None, Some advise}"
    and shape: "attention_shape (me_dims eng) (me_weights eng)"
  shows "moe_steps F eng ts lst (w, st, s) = ((w', st', s'), r) \<Longrightarrow> ok w \<Longrightarrow>
    kv_holds F eng (content st) ops win s ctx \<Longrightarrow>
    ok w' \<and> stands_for w' = stands_for w \<and>
    (\<exists>n \<le> length ts. kv_holds F eng (content st') ops win s' (ctx @ take n ts)) \<and>
    (\<forall>x. r = Some (Inr x) \<longrightarrow> kv_holds F eng (content st') ops win s' (ctx @ ts) \<and>
       (if ts = [] then x = lst
        else \<exists>y. x = Some y \<and> ref_block F eng (stands_for w) win (ctx @ butlast ts) (last ts) = Some y))"
proof (induction ts arbitrary: lst w st s ctx)
  case Nil
  then show ?case by auto
next
  case (Cons t ts)
  obtain w1 st1 s1 r1 where one: "moe_step F eng t (w, st, s) = ((w1, st1, s1), r1)" by (metis surj_pair)
  note k = moe_step_ref [OF one eng shape Cons.prems(2,3)]
  show ?case
  proof (cases "\<exists>x. r1 = Some (Inr x)")
    case False
    then consider "r1 = None" | e where "r1 = Some (Inl e)" by (metis option.exhaust sum.exhaust)
    then have "w' = w1 \<and> st' = st1 \<and> s' = s1 \<and> (\<forall>x. r \<noteq> Some (Inr x))"
      using Cons.prems(1) one by cases auto
    moreover have "\<exists>n \<le> length (t # ts). kv_holds F eng (content st1) ops win s1 (ctx @ take n (t # ts))"
      using k by (elim conjE disjE) (auto intro: exI [of _ 0] exI [of _ "Suc 0"])
    ultimately show ?thesis using k by auto
  next
    case True
    then obtain x where x: "r1 = Some (Inr x)" by blast
    then have run': "moe_steps F eng ts (Some x) (w1, st1, s1) = ((w', st', s'), r)"
      using Cons.prems(1) one by simp
    have h1: "kv_holds F eng (content st1) ops win s1 (ctx @ [t])" using k x by blast
    have k1: "ok w1" "stands_for w1 = stands_for w" using k by blast+
    note ih = Cons.IH [OF run' k1(1) h1]
    then obtain n where "n \<le> length ts" "kv_holds F eng (content st') ops win s' (ctx @ t # take n ts)" by auto
    then have pre: "\<exists>n \<le> length (t # ts). kv_holds F eng (content st') ops win s' (ctx @ take n (t # ts))"
      by (intro exI [of _ "Suc n"]) simp
    have "kv_holds F eng (content st') ops win s' (ctx @ t # ts) \<and>
       (\<exists>y. z = Some y \<and> ref_block F eng (stands_for w) win (ctx @ butlast (t # ts)) (last (t # ts)) = Some y)"
      if z: "r = Some (Inr z)" for z
    proof (cases ts)
      case Nil
      then show ?thesis using ih z k k1 x by auto
    next
      case (Cons a as)
      then show ?thesis using ih z k1 by auto
    qed
    then show ?thesis using ih k1 pre by auto
  qed
qed

lemma moe_hidden_ref:
  assumes run: "moe_hidden F eng ctx (w, st, s) = ((w', st', s'), r)"
    and eng: "me_load eng = load" "me_observe eng \<in> {None, Some advise}"
    and shape: "attention_shape (me_dims eng) (me_weights eng)"
    and ok: "ok w" and holds: "kv_holds F eng (content st) ops win s (take n ctx)" and n: "n \<le> length ctx"
  shows "ok w' \<and> stands_for w' = stands_for w \<and>
    (\<exists>m \<le> length ctx. n \<le> m \<and> kv_holds F eng (content st') ops win s' (take m ctx)) \<and>
    (\<forall>x. r = Some (Inr x) \<longrightarrow> kv_holds F eng (content st') ops win s' ctx \<and>
       ref_hidden F eng (stands_for w) win ctx = Some (tdata x))"
proof -
  have len: "seq_len s = n" using kv_holds_len [OF holds] n by simp
  have same: ?thesis if "w' = w" "st' = st" "s' = s" "\<forall>x. r \<noteq> Some (Inr x)"
    using that ok holds n by auto
  show ?thesis
  proof (cases "ctx = []")
    case True
    then show ?thesis using run by (intro same) (auto simp: moe_hidden_def)
  next
    case False
    obtain w1 st1 s1 r1 where st: "moe_steps F eng (drop n ctx) None (w, st, s) = ((w1, st1, s1), r1)"
      by (metis surj_pair)
    note k = moe_steps_ref [OF eng shape st ok holds]
    have fin: "w' = w1 \<and> st' = st1 \<and> s' = s1" and
      res: "r = Some (Inr x) \<Longrightarrow> \<exists>y. r1 = Some (Inr (Some y)) \<and> tdata x = rmsnorm F y norm_eps" for x
      using run False st len n
      by (auto simp: moe_hidden_def Let_def tensor_new_def split: option.splits sum.splits if_splits)
    from k obtain j where j: "j \<le> length (drop n ctx)"
      "kv_holds F eng (content st1) ops win s1 (take n ctx @ take j (drop n ctx))" by blast
    then have "\<exists>m \<le> length ctx. n \<le> m \<and> kv_holds F eng (content st1) ops win s1 (take m ctx)"
      using n by (intro exI [of _ "n + j"]) (simp add: take_add)
    moreover have "kv_holds F eng (content st1) ops win s1 ctx \<and>
       ref_hidden F eng (stands_for w) win ctx = Some (tdata x)" if x: "r = Some (Inr x)" for x
    proof -
      obtain y where y: "r1 = Some (Inr (Some y))" "tdata x = rmsnorm F y norm_eps" using res [OF x] by blast
      have "drop n ctx \<noteq> []" using k y by auto
      then have "last (drop n ctx) = last ctx" "take n ctx @ butlast (drop n ctx) = butlast ctx"
        by (simp_all, metis append_take_drop_id butlast_append drop_eq_Nil not_le)
      then show ?thesis using k y \<open>drop n ctx \<noteq> []\<close> by (auto simp: ref_hidden_def)
    qed
    ultimately show ?thesis using k fin by auto
  qed
qed

end

section \<open>On the memory manager and the prefetcher\<close>

definition pe_load :: "('s \<Rightarrow> expert_id \<Rightarrow> 's \<times> expert res) \<Rightarrow> 's prefetch_engine \<Rightarrow> expert_id \<Rightarrow>
    's prefetch_engine \<times> expert res" where
  "pe_load load s i = (case load (pe_loader s) i of (l, r) \<Rightarrow> (s\<lparr>pe_loader := l\<rparr>, r))"

definition pe_observe :: "('s \<Rightarrow> expert_id \<Rightarrow> bool) \<Rightarrow> 's prefetch_engine \<Rightarrow> expert_id list \<Rightarrow> expert_id list \<Rightarrow>
    expert_id list \<Rightarrow> 's prefetch_engine \<times> expert_id list" where
  "pe_observe present s previous used predicted = observe_step present previous used predicted s"

interpretation streamed: moe_world "local_ops d" "local_content d" good_path
  "pe_load (mm_load G)" "pe_observe mm_is_resident"
  "\<lambda>w. meaning G (local_content b2) (local_content b3) (pe_loader w)"
  "\<lambda>w. pe_inv w \<and> mm_inv G (local_ops b2) (local_content b2) (local_ops b3) (local_content b3) (pe_loader w) \<and>
       synth_finite G (mm_dims (fst (pe_loader w)))"
proof (unfold_locales, goal_cases)
  case (1 w i w' r)
  obtain l r1 where ld: "mm_load G (pe_loader w) i = (l, r1)" by fastforce
  then have w: "w' = w\<lparr>pe_loader := l\<rparr>" "r = r1" using 1(2) by (simp_all add: pe_load_def)
  have "pe_inv w' = pe_inv w" by (simp add: w pe_inv_def)
  then show ?case using local_loader.load_ok [OF _ ld, of b2 b3] 1(1) w by auto
next
  case (2 w previous used predicted w' ids)
  then show ?case using observe_step_keeps [of w mm_is_resident previous used predicted]
    by (simp add: pe_observe_def)
qed

section \<open>Properties\<close>


text \<open>A model of width one over wrapping integers, with one resident block of one position, and a cache
  that has seen nothing.\<close>

definition narrow_dims :: model_dims where
  "narrow_dims = four_dims\<lparr>vocab_size := 4, dims_block_size := 1, n_heads := 1\<rparr>"

definition narrow_engine :: "(fs, fs) mm_state prefetch_engine moe_engine" where
  "narrow_engine = \<lparr>me_dims = narrow_dims,
     me_weights = \<lparr>mw_dims = narrow_dims, embedding = [3, 5, 7, 11], wq = [1], wk = [2], wv = [3], wo = [1],
                   model_weights.router = [0, 1, 0, 0]\<rparr>,
     me_router = \<lparr>router_kind = Mixtral, router_dims = narrow_dims\<rparr>,
     me_load = pe_load (mm_load zero_ops), me_observe = Some (pe_observe mm_is_resident)\<rparr>"

definition narrow_world :: "(fs, fs) mm_state prefetch_engine" where
  "narrow_world = pe_new (four_state []) (ep_new 2) True 1"

definition narrow_seq :: "fs seq_state" where
  "narrow_seq = seq_new (mha_config narrow_dims 8 1 None (Some (local_ops disk_root))) 7"

definition empty_disk :: fs where
  "empty_disk = \<lparr>fs_files = Map.empty, fs_faults = []\<rparr>"

text \<open>The same sequence with token 1 absorbed.\<close>

definition narrow_held :: "fs seq_state" where
  "narrow_held = (case the_row word_math narrow_engine 0 1 of
     (k, v) \<Rightarrow> set_kv narrow_seq (push_row (seq_kv narrow_seq) k v))"

lemma narrow_row: "the_row word_math narrow_engine 0 1 = ([10], [15])"
  by code_simp

lemma narrow_shape: "attention_shape (me_dims narrow_engine) (me_weights narrow_engine)"
  by (simp add: attention_shape_def narrow_engine_def attention_new_def validate_dims_def narrow_dims_def four_dims_def)

lemma narrow_holds:
  "kv_holds word_math narrow_engine (local_content disk_root empty_disk) (local_ops disk_root) None narrow_held (take 1 [1, 2])"
proof -
  let ?cfg = "mha_config narrow_dims 8 1 None (Some (local_ops disk_root)) :: fs kv_config"
  let ?kv = "for_layer ?cfg 7 0"
  have seq: "kvs narrow_seq = [?kv]" by (simp add: narrow_seq_def seq_new_def mha_config_def)
  have fields: "kv_dim ?kv = 1" "kv_len ?kv = 0" "max_positions ?kv = 8" "sliding_window ?kv = None"
    "kv_storage ?kv = Some (local_ops disk_root)"
    by (simp_all add: for_layer_def layer_width_def mha_config_def narrow_dims_def four_dims_def)
  have inv: "kv_inv (local_content disk_root empty_disk) ?kv"
    by (rule kv_new_inv) (simp add: mha_config_def narrow_dims_def four_dims_def)
  have none: "kv_contents (local_content disk_root empty_disk) ?kv = []"
    using fields by (simp add: kv_contents_def)
  note push = push_row_inv [OF inv, of "[10]" "[15]"]
  define kv where "kv = push_row ?kv [10] [15]"
  have new: "kv_inv (local_content disk_root empty_disk) kv"
    "kv_contents (local_content disk_root empty_disk) kv = [Some ([10], [15])]"
    unfolding kv_def using push fields none by simp_all
  have same: "kv_dim kv = 1" "kv_storage kv = Some (local_ops disk_root)" "sliding_window kv = None"
    unfolding kv_def using fields by (simp_all only: push_row_simps) (simp add: push_row_def Let_def)
  have held: "narrow_held = set_kv narrow_seq kv"
    using seq by (simp add: narrow_held_def narrow_row seq_kv_def kv_def)
  have rows: "context_rows word_math narrow_engine (take 1 [1, 2]) = [([10], [15])]"
    by (simp add: context_rows_def narrow_row)
  have dims: "d_model (me_dims narrow_engine) = 1"
    by (simp add: narrow_engine_def narrow_dims_def four_dims_def)
  have "kvs narrow_seq \<noteq> []" using seq by simp
  then show ?thesis unfolding kv_holds_def rows dims unfolding held using new same by simp
qed


end
