(* ===== verification/Utf8.thy ===== *)
theory Utf8
  imports Core
begin

text \<open>
  Rust strings, as the tokenizers and the file reader use them: a string is the list of its
  code points, its bytes are their UTF-8 encoding (\<open>str_bytes\<close>). \<open>next_char\<close> is one step
  of the standard library's validation, with its error lengths; \<open>valid_prefix\<close> is what
  \<open>from_utf8\<close> reports through \<open>valid_up_to\<close>, \<open>lossy\<close> is \<open>from_utf8_lossy\<close>.
\<close>

type_synonym uchar = nat
type_synonym ustring = "uchar list"

definition scalar :: "uchar \<Rightarrow> bool" where
  "scalar c \<longleftrightarrow> c < 0xD800 \<or> 0xDFFF < c \<and> c < 0x110000"

abbreviation valid_str :: "ustring \<Rightarrow> bool" where
  "valid_str s \<equiv> list_all scalar s"

definition ascii :: "string \<Rightarrow> ustring" where
  "ascii s = map of_char s"

section \<open>Encoding\<close>

definition utf8_nats :: "uchar \<Rightarrow> nat list" where
  "utf8_nats c =
     (if c < 0x80 then [c]
      else if c < 0x800 then [0xC0 + c div 64, 0x80 + c mod 64]
      else if c < 0x10000 then [0xE0 + c div 4096, 0x80 + c div 64 mod 64, 0x80 + c mod 64]
      else [0xF0 + c div 262144, 0x80 + c div 4096 mod 64, 0x80 + c div 64 mod 64, 0x80 + c mod 64])"

definition utf8 :: "uchar \<Rightarrow> u8 list" where
  "utf8 c = map of_nat (utf8_nats c)"

definition str_bytes :: "ustring \<Rightarrow> u8 list" where
  "str_bytes s = concat (map utf8 s)"

section \<open>Decoding\<close>

datatype decoded = Done | Char uchar nat | Bad nat | Cut

definition char_width :: "nat \<Rightarrow> nat" where
  "char_width a =
     (if a < 0x80 then 1 else if 0xC2 \<le> a \<and> a \<le> 0xDF then 2
      else if 0xE0 \<le> a \<and> a \<le> 0xEF then 3 else if 0xF0 \<le> a \<and> a \<le> 0xF4 then 4 else 0)"

definition continues :: "nat \<Rightarrow> bool" where
  "continues b \<longleftrightarrow> 0x80 \<le> b \<and> b \<le> 0xBF"

text \<open>The second byte's range excludes overlong forms, surrogates and what lies past the last plane.\<close>

definition second_ok :: "nat \<Rightarrow> nat \<Rightarrow> bool" where
  "second_ok a b \<longleftrightarrow> continues b \<and> (a = 0xE0 \<longrightarrow> 0xA0 \<le> b) \<and> (a = 0xED \<longrightarrow> b \<le> 0x9F) \<and>
     (a = 0xF0 \<longrightarrow> 0x90 \<le> b) \<and> (a = 0xF4 \<longrightarrow> b \<le> 0x8F)"

definition next_char :: "u8 list \<Rightarrow> decoded" where
  "next_char bs = (case map unat bs of
     [] \<Rightarrow> Done
   | a # r \<Rightarrow>
       if char_width a = 1 then Char a 1
       else if char_width a = 2 then
         (case r of [] \<Rightarrow> Cut
          | b # _ \<Rightarrow> if continues b then Char ((a - 0xC0) * 64 + (b - 0x80)) 2 else Bad 1)
       else if char_width a = 3 then
         (case r of [] \<Rightarrow> Cut
          | b # r1 \<Rightarrow> if \<not> second_ok a b then Bad 1 else
            (case r1 of [] \<Rightarrow> Cut
             | c # _ \<Rightarrow> if continues c then Char ((a - 0xE0) * 4096 + (b - 0x80) * 64 + (c - 0x80)) 3 else Bad 2))
       else if char_width a = 4 then
         (case r of [] \<Rightarrow> Cut
          | b # r1 \<Rightarrow> if \<not> second_ok a b then Bad 1 else
            (case r1 of [] \<Rightarrow> Cut
             | c # r2 \<Rightarrow> if \<not> continues c then Bad 2 else
               (case r2 of [] \<Rightarrow> Cut
                | d # _ \<Rightarrow>
                    if continues d
                    then Char ((a - 0xF0) * 262144 + (b - 0x80) * 4096 + (c - 0x80) * 64 + (d - 0x80)) 4
                    else Bad 3)))
       else Bad 1)"

lemma next_char_length:
  "next_char bs = Char c n \<Longrightarrow> 0 < n \<and> n \<le> length bs"
  "next_char bs = Bad n \<Longrightarrow> 0 < n \<and> n \<le> length bs"
  by (auto simp: next_char_def split: list.splits if_splits)

lemma next_char_Nil [simp]: "next_char [] = Done"
  by (simp add: next_char_def)

lemma next_char_Done [simp]: "next_char bs = Done \<longleftrightarrow> bs = []"
  by (auto simp: next_char_def split: list.splits if_splits)

text \<open>More bytes after a verdict do not change it.\<close>

lemma four_heads:
  obtains "xs = []" | a where "xs = [a]" | a b where "xs = [a, b]" | a b c where "xs = [a, b, c]"
  | a b c d r where "xs = a # b # c # d # r"
  by (metis list.exhaust)

lemma next_char_append:
  "next_char bs = Char c n \<Longrightarrow> next_char (bs @ tl') = Char c n"
  "next_char bs = Bad n \<Longrightarrow> next_char (bs @ tl') = Bad n"
  by (cases bs rule: four_heads; simp add: next_char_def split: if_splits)+

definition replacement :: uchar where
  "replacement = 0xFFFD"

function lossy :: "u8 list \<Rightarrow> ustring" where
  "lossy bs = (case next_char bs of
     Done \<Rightarrow> []
   | Char c n \<Rightarrow> c # lossy (drop n bs)
   | Bad n \<Rightarrow> replacement # lossy (drop n bs)
   | Cut \<Rightarrow> [replacement])"
  by pat_completeness auto
termination
  by (relation "measure length") (auto dest: next_char_length)

declare lossy.simps [simp del]

function valid_prefix :: "u8 list \<Rightarrow> ustring \<times> u8 list" where
  "valid_prefix bs = (case next_char bs of
     Char c n \<Rightarrow> (case valid_prefix (drop n bs) of (cs, rest) \<Rightarrow> (c # cs, rest))
   | _ \<Rightarrow> ([], bs))"
  by pat_completeness auto
termination
  by (relation "measure length") (auto dest: next_char_length)

declare valid_prefix.simps [simp del]

text \<open>\<open>String::from_utf8\<close>.\<close>

definition from_utf8 :: "u8 list \<Rightarrow> ustring option" where
  "from_utf8 bs = (case valid_prefix bs of (cs, rest) \<Rightarrow> if rest = [] then Some cs else None)"

section \<open>What was encoded is decoded\<close>

text \<open>Three digits to base 64, by name.\<close>

lemma digits64:
  obtains p y z :: nat where "c div 4096 = p" "c div 64 mod 64 = y" "c mod 64 = z" "y < 64" "z < 64" "c = p * 4096 + y * 64 + z"
proof -
  have "c div 4096 = c div 64 div 64" by (simp add: div_mult2_eq [symmetric])
  then have "c div 64 = c div 4096 * 64 + c div 64 mod 64" by simp
  then have "c = (c div 4096 * 64 + c div 64 mod 64) * 64 + c mod 64" by (metis div_mult_mod_eq)
  then have "c = c div 4096 * 4096 + c div 64 mod 64 * 64 + c mod 64" by (simp add: algebra_simps)
  then show ?thesis by (intro that [OF refl refl refl]) simp_all
qed

lemma two_bytes: "0x80 \<le> c \<Longrightarrow> c < 0x800 \<Longrightarrow> 2 \<le> c div 64 \<and> c div 64 < 32 \<and> c div 64 * 64 + c mod 64 = (c :: nat) \<and> c mod 64 < 64"
  by (auto simp: less_mult_imp_div_less)

lemma three_bytes:
  fixes c :: nat
  assumes "0x800 \<le> c" and "c < 0x10000"
  shows "c div 4096 < 16" and "c div 4096 * 4096 + c div 64 mod 64 * 64 + c mod 64 = c"
    and "c div 4096 = 0 \<Longrightarrow> 32 \<le> c div 64 mod 64"
    and "c div 4096 = 13 \<Longrightarrow> c < 0xD800 \<or> 0xDFFF < c \<Longrightarrow> c div 64 mod 64 < 32"
    and "c div 64 mod 64 < 64" and "c mod 64 < 64"
  using assms by (cases c rule: digits64; simp; linarith)+

lemma four_bytes:
  fixes c :: nat
  assumes "0x10000 \<le> c" and "c < 0x110000"
  shows "c div 262144 \<le> 4"
    and "c div 262144 * 262144 + c div 4096 mod 64 * 4096 + c div 64 mod 64 * 64 + c mod 64 = c"
    and "c div 262144 = 0 \<Longrightarrow> 16 \<le> c div 4096 mod 64"
    and "c div 262144 = 4 \<Longrightarrow> c div 4096 mod 64 < 16"
    and "c div 4096 mod 64 < 64" "c div 64 mod 64 < 64" and "c mod 64 < 64"
proof -
  have "c div 262144 = c div 4096 div 64" by (simp add: div_mult2_eq [symmetric])
  then have q: "c div 4096 = c div 262144 * 64 + c div 4096 mod 64" by simp
  then show "c div 262144 * 262144 + c div 4096 mod 64 * 4096 + c div 64 mod 64 * 64 + c mod 64 = c"
    by (cases c rule: digits64) linarith
  have r: "c div 4096 mod 64 < 64" by simp
  show "c div 262144 \<le> 4" "c div 262144 = 0 \<Longrightarrow> 16 \<le> c div 4096 mod 64"
    "c div 262144 = 4 \<Longrightarrow> c div 4096 mod 64 < 16"
    using q r assms by (cases c rule: digits64; linarith)+
qed simp_all

lemma low_digit: "0x80 + c mod 64 < (256 :: nat)"
proof -
  have "c mod 64 < 64" by simp
  then show ?thesis by linarith
qed

lemma utf8_nats_bytes: "scalar c \<Longrightarrow> n \<in> set (utf8_nats c) \<Longrightarrow> n < 256"
  using low_digit [of c] low_digit [of "c div 64"] low_digit [of "c div 4096"] two_bytes [of c] three_bytes [of c] four_bytes [of c] by (auto simp: utf8_nats_def scalar_def split: if_splits)

lemma map_unat_utf8: "scalar c \<Longrightarrow> map unat (utf8 c) = utf8_nats c"
  using utf8_nats_bytes [of c] by (auto simp: utf8_def unat_of_nat intro!: map_idI)

lemma map_unat_utf8_append: "scalar c \<Longrightarrow> map unat (utf8 c @ bs) = utf8_nats c @ map unat bs"
  by (simp add: map_unat_utf8)

lemma length_utf8: "length (utf8 c) = length (utf8_nats c)"
  by (simp add: utf8_def)

lemma continues_low [simp]: "continues (0x80 + c mod 64)"
proof -
  have "c mod 64 < 64" by simp
  then show ?thesis unfolding continues_def by linarith
qed

lemma next_char_utf8:
  assumes "scalar c"
  shows "next_char (utf8 c @ bs) = Char c (length (utf8 c))"
proof -
  have lim: "c < 0x110000" using assms by (auto simp: scalar_def)
  consider "c < 0x80" | "0x80 \<le> c" "c < 0x800" | "0x800 \<le> c" "c < 0x10000" | "0x10000 \<le> c" by linarith
  then show ?thesis
  proof cases
    case 1
    then show ?thesis unfolding next_char_def map_unat_utf8_append [OF assms] length_utf8
      by (simp add: utf8_nats_def char_width_def)
  next
    case 2
    have n: "utf8_nats c = [0xC0 + c div 64, 0x80 + c mod 64]" using 2 by (simp add: utf8_nats_def)
    have "char_width (0xC0 + c div 64) = 2" using two_bytes [OF 2] by (simp add: char_width_def)
    then show ?thesis using two_bytes [OF 2] unfolding next_char_def map_unat_utf8_append [OF assms] length_utf8 n
      by simp
  next
    case 3
    have n: "utf8_nats c = [0xE0 + c div 4096, 0x80 + c div 64 mod 64, 0x80 + c mod 64]"
      using 3 by (simp add: utf8_nats_def)
    have "second_ok (0xE0 + c div 4096) (0x80 + c div 64 mod 64)"
      using three_bytes [OF 3] assms by (auto simp: second_ok_def scalar_def)
    moreover have "char_width (0xE0 + c div 4096) = 3" using three_bytes(1) [OF 3] by (simp add: char_width_def)
    ultimately show ?thesis using three_bytes(2) [OF 3]
      unfolding next_char_def map_unat_utf8_append [OF assms] length_utf8 n by simp
  next
    case 4
    have n: "utf8_nats c = [0xF0 + c div 262144, 0x80 + c div 4096 mod 64, 0x80 + c div 64 mod 64, 0x80 + c mod 64]"
      using 4 by (simp add: utf8_nats_def)
    have "second_ok (0xF0 + c div 262144) (0x80 + c div 4096 mod 64)"
      using four_bytes [OF 4 lim] by (auto simp: second_ok_def)
    moreover have "char_width (0xF0 + c div 262144) = 4" using four_bytes(1) [OF 4 lim] by (simp add: char_width_def)
    ultimately show ?thesis using four_bytes(2) [OF 4 lim]
      unfolding next_char_def map_unat_utf8_append [OF assms] length_utf8 n by simp
  qed
qed

lemma str_bytes_simps [simp]:
  "str_bytes [] = []" "str_bytes (c # s) = utf8 c @ str_bytes s" "str_bytes (s @ t) = str_bytes s @ str_bytes t"
  by (simp_all add: str_bytes_def)

lemma valid_prefix_str: "valid_str s \<Longrightarrow> valid_prefix (str_bytes s @ bs) = (case valid_prefix bs of (cs, rest) \<Rightarrow> (s @ cs, rest))"
proof (induction s)
  case (Cons c s)
  then show ?case by (subst valid_prefix.simps) (simp add: next_char_utf8 split: prod.splits)
qed (simp add: case_prod_beta)

lemma valid_prefix_Nil [simp]: "valid_prefix [] = ([], [])"
  by (simp add: valid_prefix.simps)

lemma from_utf8_str: "valid_str s \<Longrightarrow> from_utf8 (str_bytes s) = Some s"
  using valid_prefix_str [where s = s and bs = "[]"] by (simp add: from_utf8_def)

text \<open>The lossy decoding runs through the valid prefix and goes on behind it, whatever comes next.\<close>

lemma lossy_prefix: "valid_prefix bs = (cs, rest) \<Longrightarrow> lossy (bs @ tl') = cs @ lossy (rest @ tl')"
proof (induction bs arbitrary: cs rest rule: valid_prefix.induct)
  case (1 bs)
  show ?case
  proof (cases "next_char bs")
    case (Char c n)
    obtain cs' where v: "valid_prefix (drop n bs) = (cs', rest)" "cs = c # cs'"
      using 1(2) Char by (subst (asm) valid_prefix.simps) (auto split: prod.splits)
    have "n \<le> length bs" using next_char_length(1) [OF Char] by simp
    then have "lossy (bs @ tl') = c # lossy (drop n bs @ tl')"
      by (subst lossy.simps) (simp add: next_char_append(1) [OF Char])
    then show ?thesis using 1(1) [OF Char v(1)] v by simp
  qed (use 1(2) in \<open>subst (asm) valid_prefix.simps, simp\<close>)+
qed

lemma lossy_Nil [simp]: "lossy [] = []"
  by (simp add: lossy.simps)

lemma lossy_str:
  assumes "valid_str s"
  shows "lossy (str_bytes s) = s"
proof -
  have "valid_prefix (str_bytes s) = (s, [])" using valid_prefix_str [OF assms, of "[]"] by simp
  from lossy_prefix [OF this, of "[]"] show ?thesis by simp
qed

text \<open>The prefix is valid text, and the rest starts with no character.\<close>

lemma valid_prefix_rest: "valid_prefix bs = (cs, rest) \<Longrightarrow> \<nexists>c n. next_char rest = Char c n"
proof (induction bs arbitrary: cs rest rule: valid_prefix.induct)
  case (1 bs)
  show ?case
  proof (cases "next_char bs")
    case (Char c n)
    obtain cs' where "valid_prefix (drop n bs) = (cs', rest)"
      using 1(2) Char by (subst (asm) valid_prefix.simps) (auto split: prod.splits)
    then show ?thesis by (rule 1(1) [OF Char])
  qed (use 1(2) in \<open>subst (asm) valid_prefix.simps, auto\<close>)+
qed

end
