(* ===== verification/Tokenizer.thy ===== *)
theory Tokenizer
  imports Utf8
begin

text \<open>
  \<open>garuda/src/tokenizer/mod.rs\<close>: the contract of a tokenizer, as a locale with the trait's
  operations, and the byte-level tokenizer with its streaming decoder. A stream decoder is its
  buffer of pending bytes. The two ways the decoders flush that buffer are \<open>flush_strict\<close> (bytes,
  SentencePiece) and \<open>flush_lenient\<close> (byte-level BPE).
\<close>

section \<open>Flushing what is complete\<close>

definition flush_strict :: "u8 list \<Rightarrow> u8 list \<times> ustring" where
  "flush_strict p = (case valid_prefix p of (cs, rest) \<Rightarrow>
     if rest = [] then ([], cs)
     else if cs = [] then (case next_char p of Bad _ \<Rightarrow> ([], [replacement]) | _ \<Rightarrow> (p, []))
     else (rest, cs))"

definition flush_lenient :: "u8 list \<Rightarrow> u8 list \<times> ustring" where
  "flush_lenient p = (case valid_prefix p of (cs, rest) \<Rightarrow> (rest, cs))"

text \<open>A stream of chunks of bytes, flushed as each arrives and once at the end.\<close>

fun chunk_stream :: "(u8 list \<Rightarrow> u8 list \<times> ustring) \<Rightarrow> u8 list \<Rightarrow> u8 list list \<Rightarrow> ustring" where
  "chunk_stream flush p [] = lossy p"
| "chunk_stream flush p (bs # bss) = (case flush (p @ bs) of (p', s) \<Rightarrow> s @ chunk_stream flush p' bss)"

lemma chunk_stream_lenient: "chunk_stream flush_lenient p bss = lossy (p @ concat bss)"
proof (induction bss arbitrary: p)
  case (Cons bs bss)
  obtain cs rest where v: "valid_prefix (p @ bs) = (cs, rest)" by fastforce
  then show ?case using Cons.IH [of rest] lossy_prefix [OF v, of "concat bss"] by (simp add: flush_lenient_def)
qed simp

text \<open>Inside valid text a prefix ends with whole characters and at most a cut one.\<close>

lemma proper_prefix_cut:
  assumes "scalar c" and "utf8 c = p @ q" and "p \<noteq> []" and "q \<noteq> []"
  shows "next_char p = Cut"
proof -
  have all: "next_char (p @ q) = Char c (length p + length q)"
    using next_char_utf8 [OF assms(1), of "[]"] assms(2) by simp
  show ?thesis
  proof (cases "next_char p")
    case (Char c' n)
    then have "length p + length q = n" using next_char_append(1) [OF Char, of q] all by simp
    then have "length q = 0" using next_char_length(1) [OF Char] by linarith
    then show ?thesis using assms(4) by simp
  next
    case (Bad n)
    then show ?thesis using next_char_append(2) [OF Bad, of q] all by simp
  qed (use assms(3) in auto)
qed

lemma valid_text_prefix:
  "valid_str s \<Longrightarrow> p @ q = str_bytes s \<Longrightarrow>
     \<exists>s1 s2 r. s = s1 @ s2 \<and> valid_prefix p = (s1, r) \<and> r @ q = str_bytes s2 \<and> (r = [] \<or> next_char r = Cut)"
proof (induction s arbitrary: p)
  case Nil
  then show ?case by simp
next
  case (Cons c s)
  have c: "scalar c" using Cons.prems(1) by simp
  show ?case
  proof (cases "length (utf8 c) \<le> length p")
    case True
    define p' where "p' = drop (length (utf8 c)) p"
    have "take (length (utf8 c)) (p @ q) = utf8 c" using Cons.prems(2) by simp
    then have "take (length (utf8 c)) p = utf8 c" using True by simp
    then have p: "p = utf8 c @ p'" unfolding p'_def by (metis append_take_drop_id)
    then have "p' @ q = str_bytes s" using Cons.prems(2) by simp
    from Cons.IH [OF _ this] Cons.prems(1) obtain s1 s2 r where
      "s = s1 @ s2" "valid_prefix p' = (s1, r)" "r @ q = str_bytes s2" "r = [] \<or> next_char r = Cut" by auto
    moreover have "valid_prefix p = (case valid_prefix p' of (cs, rest) \<Rightarrow> (c # cs, rest))"
      using valid_prefix_str [of "[c]" p'] c by (simp add: p)
    ultimately show ?thesis by (intro exI [of _ "c # s1"] exI [of _ s2] exI [of _ r]) simp
  next
    case False
    define q' where "q' = drop (length p) (utf8 c)"
    have "take (length p) (p @ q) = take (length p) (utf8 c @ str_bytes s)" using Cons.prems(2) by simp
    then have "utf8 c = p @ q'" unfolding q'_def using False by (metis append_eq_conv_conj append_take_drop_id
        le_cases take_append diff_is_0_eq take0 append_Nil2)
    moreover have "q' \<noteq> []" unfolding q'_def using False by simp
    ultimately have "p = [] \<or> next_char p = Cut" using proper_prefix_cut [OF c] by blast
    then show ?thesis using Cons.prems(2)
      by (intro exI [of _ "[]"] exI [of _ "c # s"] exI [of _ p]) (auto simp: valid_prefix.simps [of p])
  qed
qed

lemma chunk_stream_strict:
  "valid_str s \<Longrightarrow> p @ concat bss = str_bytes s \<Longrightarrow> chunk_stream flush_strict p bss = s"
proof (induction bss arbitrary: p s)
  case Nil
  then show ?case using lossy_str by simp
next
  case (Cons bs bss)
  have "(p @ bs) @ concat bss = str_bytes s" using Cons.prems(2) by simp
  from valid_text_prefix [OF Cons.prems(1) this] obtain s1 s2 r where
    s: "s = s1 @ s2" "valid_prefix (p @ bs) = (s1, r)" "r @ concat bss = str_bytes s2" "r = [] \<or> next_char r = Cut" by blast
  have "flush_strict (p @ bs) = (r, s1)"
  proof (cases "s1 = []")
    case True
    then have "r = p @ bs" using s(2) by (subst (asm) valid_prefix.simps) (auto split: decoded.splits prod.splits)
    then show ?thesis using s(2,4) True by (auto simp: flush_strict_def)
  next
    case False
    then show ?thesis using s(2) by (simp add: flush_strict_def)
  qed
  then show ?case using Cons.IH [OF _ s(3)] Cons.prems(1) s(1) by simp
qed

section \<open>The contract\<close>

text \<open>Feeding a decoder token by token and then finishing it.\<close>

fun stream_all :: "('d \<Rightarrow> token \<Rightarrow> 'd \<times> ustring) \<Rightarrow> ('d \<Rightarrow> ustring) \<Rightarrow> 'd \<Rightarrow> token list \<Rightarrow> ustring" where
  "stream_all push finish d [] = finish d"
| "stream_all push finish d (t # ts) = (case push d t of (d', s) \<Rightarrow> s @ stream_all push finish d' ts)"

locale tokenize =
  fixes encode :: "ustring \<Rightarrow> token list"
    and decode :: "token list \<Rightarrow> ustring res"
    and push :: "'d \<Rightarrow> token \<Rightarrow> 'd \<times> ustring"
    and finish :: "'d \<Rightarrow> ustring"
    and fresh :: 'd
    and vocab :: nat
    and accepts :: "ustring \<Rightarrow> bool"
  assumes in_vocab: "accepts s \<Longrightarrow> t \<in> set (encode s) \<Longrightarrow> unat t < vocab"
    and round_trip: "accepts s \<Longrightarrow> decode (encode s) = Inr s"
    and stream_text: "accepts s \<Longrightarrow> stream_all push finish fresh (encode s) = s"
begin

lemma encode_inject: "accepts s \<Longrightarrow> accepts s' \<Longrightarrow> encode s = encode s' \<Longrightarrow> s = s'"
  using round_trip by (metis sum.inject(2))

lemma stream_agrees: "accepts s \<Longrightarrow> decode (encode s) = Inr (stream_all push finish fresh (encode s))"
  by (simp add: round_trip stream_text)

end

section \<open>The byte-level tokenizer\<close>

definition byte_vocab :: nat where
  "byte_vocab = 260"

definition is_special :: "token \<Rightarrow> bool" where
  "is_special t \<longleftrightarrow> t < 4"

definition byte_encode :: "ustring \<Rightarrow> token list" where
  "byte_encode s = map (\<lambda>b. 4 + ucast b) (str_bytes s)"

fun byte_values :: "token list \<Rightarrow> u8 list res" where
  "byte_values [] = Inr []"
| "byte_values (t # ts) =
     (if is_special t then byte_values ts
      else if t \<ge> of_nat byte_vocab then Inl (InvalidToken t)
      else bindE (byte_values ts) (\<lambda>bs. Inr (ucast (t - 4) # bs)))"

definition byte_decode :: "token list \<Rightarrow> ustring res" where
  "byte_decode ts = bindE (byte_values ts) (\<lambda>bs. Inr (lossy bs))"

definition byte_push :: "u8 list \<Rightarrow> token \<Rightarrow> u8 list \<times> ustring" where
  "byte_push p t = (if t < 4 \<or> t \<ge> of_nat byte_vocab then (p, []) else flush_strict (p @ [ucast (t - 4)]))"

definition byte_finish :: "u8 list \<Rightarrow> ustring" where
  "byte_finish p = (if p = [] then [] else lossy p)"

lemma ucast_back [simp]: "ucast (ucast b :: token) = (b :: u8)"
  by (rule bit_word_eqI) (auto simp: bit_ucast_iff dest: bit_imp_le_length)

lemma byte_token:
  fixes b :: u8
  shows "\<not> (4 + ucast b :: token) < 4" "\<not> 260 \<le> (4 + ucast b :: token)" "unat (4 + ucast b :: token) < 260"
proof -
  have b: "unat b < 256" using unsigned_less [of b] by simp
  have c: "unat (ucast b :: token) = unat b"
    using b by (simp add: unsigned_ucast_eq take_bit_nat_eq_self_iff)
  have u: "unat (4 + ucast b :: token) = 4 + unat b"
    using b by (simp add: unat_word_ariths c)
  show "\<not> (4 + ucast b :: token) < 4" "\<not> 260 \<le> (4 + ucast b :: token)" "unat (4 + ucast b :: token) < 260"
    using b by (simp_all add: word_less_nat_alt word_le_nat_alt u)
qed

lemma byte_values_encode: "byte_values (map (\<lambda>b. 4 + ucast b) bs) = Inr bs"
  by (induction bs) (simp_all add: is_special_def byte_vocab_def byte_token)

lemma byte_stream: "stream_all byte_push byte_finish p (map (\<lambda>b. 4 + ucast b) bs) = chunk_stream flush_strict p (map (\<lambda>b. [b]) bs)"
proof (induction bs arbitrary: p)
  case Nil
  then show ?case by (simp add: byte_finish_def)
next
  case (Cons b bs)
  then show ?case by (simp add: byte_push_def byte_vocab_def byte_token split: prod.split)
qed

interpretation bytes: tokenize byte_encode byte_decode byte_push byte_finish "[]" byte_vocab valid_str
proof
  fix s t
  assume s: "valid_str s"
  show "unat t < byte_vocab" if "t \<in> set (byte_encode s)"
    using that byte_token(3) by (auto simp: byte_encode_def byte_vocab_def)
  show "byte_decode (byte_encode s) = Inr s"
    by (simp add: byte_decode_def byte_encode_def byte_values_encode lossy_str [OF s])
  have "concat (map (\<lambda>b. [b]) (str_bytes s)) = str_bytes s" by simp
  then show "stream_all byte_push byte_finish [] (byte_encode s) = s"
    using chunk_stream_strict [OF s, of "[]"] by (simp add: byte_encode_def byte_stream)
qed

text \<open>The byte-level tokenizer loses nothing: any text, encoded, consists of ids of its vocabulary, is
  decoded to itself, and comes out of the streaming decoder as itself, piece by piece, with no
  character ever split.\<close>

theorem byte_tokenizer_lossless:
  assumes "valid_str s"
  shows "byte_decode (byte_encode s) = Inr s \<and> stream_all byte_push byte_finish [] (byte_encode s) = s \<and>
    (\<forall>t \<in> set (byte_encode s). unat t < byte_vocab)"
  using bytes.round_trip [OF assms] bytes.stream_text [OF assms] bytes.in_vocab [OF assms] by blast

lemma byte_tokenizer_lossless_witness:
  "byte_decode (byte_encode [0x1F426, 0x41]) = Inr [0x1F426, 0x41]"
  using byte_tokenizer_lossless [of "[0x1F426, 0x41]"] by (simp add: scalar_def)

text \<open>Streaming does not agree with batch decoding on every sequence of ids, as the contract asks: a byte
  that cannot continue the pending character is dropped together with it.\<close>

lemma byte_stream_drops:
  "byte_decode [4 + 0xE2, 4 + 0x41] = Inr [replacement, 0x41] \<and>
   stream_all byte_push byte_finish [] [4 + 0xE2, 4 + 0x41] = [replacement]"
proof -
  have n: "next_char [0xE2] = Cut" "next_char [0xE2, 0x41] = Bad 1" "next_char [0x41] = Char 0x41 1"
    by (simp_all add: next_char_def char_width_def second_ok_def continues_def)
  have "lossy [0xE2, 0x41] = [replacement, 0x41]"
    by (subst lossy.simps, subst (2) lossy.simps) (simp add: n)
  moreover have "flush_strict [0xE2] = ([0xE2], [])" "flush_strict [0xE2, 0x41] = ([], [replacement])"
    by (simp_all add: flush_strict_def valid_prefix.simps [of "[0xE2]"] valid_prefix.simps [of "[0xE2, 0x41]"] n)
  ultimately show ?thesis
    by (simp add: byte_decode_def is_special_def byte_vocab_def byte_push_def byte_finish_def)
qed

end
