(* ===== verification/Gguf.thy ===== *)
theory Gguf
  imports Utf8
begin

text \<open>
  \<open>garuda/src/gguf/mod.rs\<close>: the reader of model files. A cursor is the file and a position;
  every read is checked against the file's length. \<open>usize\<close> has 64 bits. Floats are their bit
  patterns; the conversions between float widths are the parameter \<open>conv\<close>. A metadata map is
  only looked up and inserted into, so it is a HOL map.
\<close>

datatype gguf_value =
    VU8 u8 | VI8 u8 | VU16 "16 word" | VI16 "16 word" | VU32 u32 | VI32 u32 | VF32 f32
  | VBool bool | VString ustring | VArray "gguf_value list" | VU64 u64 | VI64 u64 | VF64 u64

record conv =
  f64_as_f32 :: "u64 \<Rightarrow> f32"
  u64_as_f32 :: "u64 \<Rightarrow> f32"

definition as_u64 :: "gguf_value \<Rightarrow> u64 option" where
  "as_u64 v = (case v of
     VU8 x \<Rightarrow> Some (ucast x) | VU16 x \<Rightarrow> Some (ucast x) | VU32 x \<Rightarrow> Some (ucast x) | VU64 x \<Rightarrow> Some x
   | VI8 x \<Rightarrow> if 0 \<le> sint x then Some (ucast x) else None
   | VI16 x \<Rightarrow> if 0 \<le> sint x then Some (ucast x) else None
   | VI32 x \<Rightarrow> if 0 \<le> sint x then Some (ucast x) else None
   | VI64 x \<Rightarrow> if 0 \<le> sint x then Some x else None
   | _ \<Rightarrow> None)"

definition as_str :: "gguf_value \<Rightarrow> ustring option" where
  "as_str v = (case v of VString s \<Rightarrow> Some s | _ \<Rightarrow> None)"

definition as_f32 :: "conv \<Rightarrow> gguf_value \<Rightarrow> f32 option" where
  "as_f32 C v = (case v of VF32 x \<Rightarrow> Some x | VF64 x \<Rightarrow> Some (f64_as_f32 C x)
     | _ \<Rightarrow> map_option (u64_as_f32 C) (as_u64 v))"

definition as_array :: "gguf_value \<Rightarrow> gguf_value list option" where
  "as_array v = (case v of VArray a \<Rightarrow> Some a | _ \<Rightarrow> None)"

definition as_bool :: "gguf_value \<Rightarrow> bool option" where
  "as_bool v = (case v of VBool b \<Rightarrow> Some b | _ \<Rightarrow> map_option (\<lambda>u. u \<noteq> 0) (as_u64 v))"

record tensor_info =
  ti_name :: ustring
  ti_dims :: "u64 list"
  ggml_type :: u32
  ti_offset :: u64

text \<open>The product wraps, as it does in a release build.\<close>

definition n_elements :: "tensor_info \<Rightarrow> u64" where
  "n_elements t = prod_list (ti_dims t)"

record gguf =
  gversion :: u32
  metadata :: "ustring \<rightharpoonup> gguf_value"
  tensors :: "tensor_info list"
  data_offset :: nat

section \<open>The cursor\<close>

definition bad :: "string \<Rightarrow> garuda_error" where
  "bad msg = Model (''gguf: '' @ msg)"

definition c_take :: "u8 list \<Rightarrow> nat \<Rightarrow> nat \<Rightarrow> (nat \<times> u8 list) res" where
  "c_take buf n pos =
     (if pos + n \<ge> 2 ^ 64 then Inl (bad ''length overflow'')
      else if pos + n > length buf then Inl (bad ''truncated: wanted {n} bytes at offset {}'')
      else Inr (pos + n, take n (drop pos buf)))"

definition c_word :: "u8 list \<Rightarrow> nat \<Rightarrow> nat \<Rightarrow> (nat \<times> 'a::len word) res" where
  "c_word buf n pos = bindE (c_take buf n pos) (\<lambda>(pos, bs). Inr (pos, le_word bs))"

definition c_string :: "u8 list \<Rightarrow> nat \<Rightarrow> (nat \<times> ustring) res" where
  "c_string buf pos =
     bindE (c_word buf 8 pos) (\<lambda>(pos, n :: u64). let len = unat n in
       if len > length buf - min pos (length buf)
       then Inl (bad ''string of {len} bytes overruns the {}-byte file'')
       else bindE (c_take buf len pos) (\<lambda>(pos, bs). case from_utf8 bs of
         None \<Rightarrow> Inl (bad ''string is not valid UTF-8: {e}'') | Some s \<Rightarrow> Inr (pos, s)))"

definition min_value_bytes :: "u32 \<Rightarrow> nat" where
  "min_value_bytes t =
     (if t \<in> {0, 1, 7} then 1 else if t \<in> {2, 3} then 2 else if t \<in> {4, 5, 6} then 4
      else if t = 8 then 8 else if t = 9 then 12 else if t \<in> {10, 11, 12} then 8 else 1)"

definition reserve_for :: "nat \<Rightarrow> nat \<Rightarrow> nat \<Rightarrow> nat" where
  "reserve_for n remaining min_bytes = min n (remaining div max min_bytes 1)"

fun repeat_read :: "nat \<Rightarrow> (nat \<Rightarrow> (nat \<times> 'a) res) \<Rightarrow> nat \<Rightarrow> (nat \<times> 'a list) res" where
  "repeat_read 0 p pos = Inr (pos, [])"
| "repeat_read (Suc n) p pos =
     bindE (p pos) (\<lambda>(pos, x). bindE (repeat_read n p pos) (\<lambda>(pos, xs). Inr (pos, x # xs)))"

text \<open>The first argument counts down the nine levels of nesting a value may use.\<close>

primrec c_value :: "nat \<Rightarrow> u8 list \<Rightarrow> u32 \<Rightarrow> nat \<Rightarrow> (nat \<times> gguf_value) res" where
  "c_value 0 buf t pos = Inl (bad ''metadata nests too deeply'')"
| "c_value (Suc lvl) buf t pos =
     (if t = 0 then bindE (c_word buf 1 pos) (\<lambda>(pos, x). Inr (pos, VU8 x))
      else if t = 1 then bindE (c_word buf 1 pos) (\<lambda>(pos, x). Inr (pos, VI8 x))
      else if t = 2 then bindE (c_word buf 2 pos) (\<lambda>(pos, x). Inr (pos, VU16 x))
      else if t = 3 then bindE (c_word buf 2 pos) (\<lambda>(pos, x). Inr (pos, VI16 x))
      else if t = 4 then bindE (c_word buf 4 pos) (\<lambda>(pos, x). Inr (pos, VU32 x))
      else if t = 5 then bindE (c_word buf 4 pos) (\<lambda>(pos, x). Inr (pos, VI32 x))
      else if t = 6 then bindE (c_word buf 4 pos) (\<lambda>(pos, x). Inr (pos, VF32 x))
      else if t = 7 then bindE (c_word buf 1 pos) (\<lambda>(pos, x :: u8). Inr (pos, VBool (x \<noteq> 0)))
      else if t = 8 then bindE (c_string buf pos) (\<lambda>(pos, s). Inr (pos, VString s))
      else if t = 9 then
        bindE (c_word buf 4 pos) (\<lambda>(pos, et). bindE (c_word buf 8 pos) (\<lambda>(pos, n :: u64).
          if unat n > (length buf - pos) div max (min_value_bytes et) 1
          then Inl (bad ''array of {n} elements overruns the {}-byte file'')
          else bindE (repeat_read (unat n) (c_value lvl buf et) pos) (\<lambda>(pos, vs). Inr (pos, VArray vs))))
      else if t = 10 then bindE (c_word buf 8 pos) (\<lambda>(pos, x). Inr (pos, VU64 x))
      else if t = 11 then bindE (c_word buf 8 pos) (\<lambda>(pos, x). Inr (pos, VI64 x))
      else if t = 12 then bindE (c_word buf 8 pos) (\<lambda>(pos, x). Inr (pos, VF64 x))
      else Inl (bad ''unknown metadata value type {other}''))"

section \<open>The file\<close>

definition c_entry :: "u8 list \<Rightarrow> nat \<Rightarrow> (nat \<times> (ustring \<times> gguf_value)) res" where
  "c_entry buf pos =
     bindE (c_string buf pos) (\<lambda>(pos, key). bindE (c_word buf 4 pos) (\<lambda>(pos, t).
       bindE (c_value 9 buf t pos) (\<lambda>(pos, v). Inr (pos, (key, v)))))"

definition c_tensor :: "u8 list \<Rightarrow> nat \<Rightarrow> (nat \<times> tensor_info) res" where
  "c_tensor buf pos =
     bindE (c_string buf pos) (\<lambda>(pos, name). bindE (c_word buf 4 pos) (\<lambda>(pos, nd :: u32).
       if unat nd > 4 then Inl (bad ''tensor '{name}' claims {n_dims} dimensions'')
       else bindE (repeat_read (unat nd) (c_word buf 8) pos) (\<lambda>(pos, ds).
         bindE (c_word buf 4 pos) (\<lambda>(pos, ty). bindE (c_word buf 8 pos) (\<lambda>(pos, off).
           Inr (pos, \<lparr>ti_name = name, ti_dims = ds, ggml_type = ty, ti_offset = off\<rparr>))))))"

definition next_multiple_of :: "nat \<Rightarrow> nat \<Rightarrow> nat" where
  "next_multiple_of n a = (if n mod a = 0 then n else n + (a - n mod a))"

definition alignment_of :: "(ustring \<rightharpoonup> gguf_value) \<Rightarrow> u64" where
  "alignment_of m = (case Option.bind (m (ascii ''general.alignment'')) as_u64 of Some a \<Rightarrow> a | None \<Rightarrow> 32)"

definition gguf_parse :: "u8 list \<Rightarrow> gguf res" where
  "gguf_parse buf =
     bindE (c_take buf 4 0) (\<lambda>(pos, magic).
       if magic \<noteq> [0x47, 0x47, 0x55, 0x46] then Inl (bad ''bad magic {:02x?}, expected {:02x?}'')
       else bindE (c_word buf 4 pos) (\<lambda>(pos, version :: u32).
         if version < 2 \<or> 3 < version then Inl (bad ''unsupported version {version}'')
         else bindE (c_word buf 8 pos) (\<lambda>(pos, tensor_count :: u64). bindE (c_word buf 8 pos) (\<lambda>(pos, kv_count :: u64).
           let remaining = length buf - pos in
           if unat tensor_count > remaining div 24 \<or> unat kv_count > remaining div 13
           then Inl (bad ''header claims {tensor_count} tensors and {kv_count} metadata entries, more than the remaining {remaining} bytes can describe'')
           else bindE (repeat_read (unat kv_count) (c_entry buf) pos) (\<lambda>(pos, kvs).
             bindE (repeat_read (unat tensor_count) (c_tensor buf) pos) (\<lambda>(pos, ts).
               let m = fold (\<lambda>(k, v) m. m(k \<mapsto> v)) kvs Map.empty; a = alignment_of m in
               if a = 0 \<or> a AND (a - 1) \<noteq> 0 then Inl (bad ''alignment {alignment} is not a power of two'')
               else Inr \<lparr>gversion = version, metadata = m, tensors = ts,
                         data_offset = next_multiple_of pos (unat a)\<rparr>))))))"

definition gguf_get :: "gguf \<Rightarrow> ustring \<Rightarrow> gguf_value option" where
  "gguf_get g key = metadata g key"

definition gget :: "gguf \<Rightarrow> string \<Rightarrow> gguf_value option" where
  "gget g key = gguf_get g (ascii key)"

definition architecture :: "gguf \<Rightarrow> ustring option" where
  "architecture g = Option.bind (metadata g (ascii ''general.architecture'')) as_str"

definition arch_get :: "gguf \<Rightarrow> string \<Rightarrow> gguf_value option" where
  "arch_get g suffix = Option.bind (architecture g) (\<lambda>arch. metadata g (arch @ ascii (CHR ''.'' # suffix)))"

definition expert_count :: "gguf \<Rightarrow> u64 option" where
  "expert_count g = Option.bind (arch_get g ''expert_count'') as_u64"

definition expert_used_count :: "gguf \<Rightarrow> u64 option" where
  "expert_used_count g = Option.bind (arch_get g ''expert_used_count'') as_u64"

definition arch_u64 :: "gguf \<Rightarrow> string \<Rightarrow> u64 option" where
  "arch_u64 g suffix = Option.bind (arch_get g suffix) as_u64"

definition arch_f32 :: "conv \<Rightarrow> gguf \<Rightarrow> string \<Rightarrow> f32 option" where
  "arch_f32 C g suffix = Option.bind (arch_get g suffix) (as_f32 C)"

definition gguf_tensor :: "gguf \<Rightarrow> ustring \<Rightarrow> tensor_info option" where
  "gguf_tensor g name = find (\<lambda>t. ti_name t = name) (tensors g)"

section \<open>The format\<close>

text \<open>How the format lays a file out, for stating what the reader must understand.\<close>

fun type_id :: "gguf_value \<Rightarrow> u32" where
  "type_id (VU8 _) = 0" | "type_id (VI8 _) = 1" | "type_id (VU16 _) = 2" | "type_id (VI16 _) = 3"
| "type_id (VU32 _) = 4" | "type_id (VI32 _) = 5" | "type_id (VF32 _) = 6" | "type_id (VBool _) = 7"
| "type_id (VString _) = 8" | "type_id (VArray _) = 9" | "type_id (VU64 _) = 10" | "type_id (VI64 _) = 11"
| "type_id (VF64 _) = 12"

definition elem_type :: "gguf_value list \<Rightarrow> u32" where
  "elem_type vs = (case vs of [] \<Rightarrow> 0 | v # _ \<Rightarrow> type_id v)"

definition put_str :: "ustring \<Rightarrow> u8 list" where
  "put_str s = le_bytes 8 (of_nat (length (str_bytes s)) :: u64) @ str_bytes s"

fun put_value :: "gguf_value \<Rightarrow> u8 list" where
  "put_value (VU8 x) = le_bytes 1 x" | "put_value (VI8 x) = le_bytes 1 x"
| "put_value (VU16 x) = le_bytes 2 x" | "put_value (VI16 x) = le_bytes 2 x"
| "put_value (VU32 x) = le_bytes 4 x" | "put_value (VI32 x) = le_bytes 4 x" | "put_value (VF32 x) = le_bytes 4 x"
| "put_value (VBool b) = le_bytes 1 (if b then 1 else 0 :: u8)"
| "put_value (VString s) = put_str s"
| "put_value (VArray vs) =
     le_bytes 4 (elem_type vs) @ le_bytes 8 (of_nat (length vs) :: u64) @ concat (map put_value vs)"
| "put_value (VU64 x) = le_bytes 8 x" | "put_value (VI64 x) = le_bytes 8 x" | "put_value (VF64 x) = le_bytes 8 x"

text \<open>A value the format can hold: arrays of one type, no deeper than the levels left.\<close>

primrec value_ok :: "nat \<Rightarrow> gguf_value \<Rightarrow> bool" where
  "value_ok 0 v \<longleftrightarrow> False"
| "value_ok (Suc lvl) v \<longleftrightarrow> (case v of
     VString s \<Rightarrow> valid_str s
   | VArray vs \<Rightarrow> (\<forall>w \<in> set vs. type_id w = elem_type vs \<and> value_ok lvl w)
   | _ \<Rightarrow> True)"

lemma value_ok_numeral [simp]:
  "value_ok (numeral k) v \<longleftrightarrow> (case v of
     VString s \<Rightarrow> valid_str s
   | VArray vs \<Rightarrow> (\<forall>w \<in> set vs. type_id w = elem_type vs \<and> value_ok (pred_numeral k) w)
   | _ \<Rightarrow> True)"
  by (simp add: numeral_eq_Suc)

definition put_entry :: "ustring \<times> gguf_value \<Rightarrow> u8 list" where
  "put_entry kv = put_str (fst kv) @ le_bytes 4 (type_id (snd kv)) @ put_value (snd kv)"

definition put_tensor :: "tensor_info \<Rightarrow> u8 list" where
  "put_tensor t = put_str (ti_name t) @ le_bytes 4 (of_nat (length (ti_dims t)) :: u32) @
     concat (map (le_bytes 8) (ti_dims t)) @ le_bytes 4 (ggml_type t) @ le_bytes 8 (ti_offset t)"

definition put_gguf :: "u32 \<Rightarrow> (ustring \<times> gguf_value) list \<Rightarrow> tensor_info list \<Rightarrow> u8 list" where
  "put_gguf version kvs ts = [0x47, 0x47, 0x55, 0x46] @ le_bytes 4 version @
     le_bytes 8 (of_nat (length ts) :: u64) @ le_bytes 8 (of_nat (length kvs) :: u64) @
     concat (map put_entry kvs) @ concat (map put_tensor ts)"

definition metadata_of :: "(ustring \<times> gguf_value) list \<Rightarrow> ustring \<rightharpoonup> gguf_value" where
  "metadata_of kvs = fold (\<lambda>(k, v) m. m(k \<mapsto> v)) kvs Map.empty"

section \<open>Reading at a position\<close>

definition here :: "u8 list \<Rightarrow> nat \<Rightarrow> u8 list \<Rightarrow> bool" where
  "here buf pos bs \<longleftrightarrow> pos \<le> length buf \<and> drop pos buf = bs \<and> length buf < 2 ^ 63"

lemma here_append:
  assumes h: "here buf pos (bs @ r)"
  shows "here buf (pos + length bs) r"
proof -
  have p: "pos \<le> length buf" "drop pos buf = bs @ r" using h by (simp_all add: here_def)
  have "length buf - pos = length bs + length r" using p(2) by (metis length_append length_drop)
  then have "pos + length bs \<le> length buf" using p(1) by linarith
  moreover have "drop (pos + length bs) buf = drop (length bs) (drop pos buf)" by (simp add: add.commute)
  ultimately show ?thesis using h p(2) by (simp add: here_def)
qed

lemma here_after: "here buf pos (bs @ r) \<Longrightarrow> length bs = n \<Longrightarrow> here buf (pos + n) r"
  using here_append by blast

lemma here_room: "here buf pos bs \<Longrightarrow> length buf = pos + length bs"
  by (auto simp: here_def)

lemma c_take_here:
  assumes "here buf pos (bs @ r)" and "length bs = n"
  shows "c_take buf n pos = Inr (pos + n, bs)"
  using here_room [OF assms(1)] assms by (simp add: c_take_def here_def)

lemma c_word_here:
  assumes "here buf pos (le_bytes n w @ r)" and "LENGTH('a) \<le> 8 * n"
  shows "c_word buf n pos = Inr (pos + n, w :: 'a::len word)"
  using c_take_here [OF assms(1)] le_word_le_bytes [OF assms(2)] by (simp add: c_word_def)

lemma here_bytes: "here buf pos (le_bytes n w @ r) \<Longrightarrow> here buf (pos + n) r"
  using here_append by fastforce

lemma here_length_64:
  assumes "here buf pos bs" and "n \<le> length bs"
  shows "unat (of_nat n :: u64) = n"
proof -
  have "n \<le> length buf" using here_room [OF assms(1)] assms(2) by linarith
  moreover have "length buf < 2 ^ 63" using assms(1) by (simp add: here_def)
  ultimately have "n < 2 ^ 64" by simp
  then show ?thesis unfolding unat_of_nat by (intro mod_less) simp
qed

lemma c_string_here:
  assumes "here buf pos (put_str s @ r)" and "valid_str s"
  shows "c_string buf pos = Inr (pos + length (put_str s), s)"
proof -
  have h: "here buf pos (le_bytes 8 (of_nat (length (str_bytes s)) :: u64) @ str_bytes s @ r)"
    using assms(1) by (simp add: put_str_def)
  have n: "unat (of_nat (length (str_bytes s)) :: u64) = length (str_bytes s)"
    by (rule here_length_64 [OF h]) simp
  note h' = here_bytes [OF h]
  have "c_word buf 8 pos = Inr (pos + 8, of_nat (length (str_bytes s)) :: u64)" by (rule c_word_here [OF h]) simp
  moreover have "c_take buf (length (str_bytes s)) (pos + 8) = Inr (pos + 8 + length (str_bytes s), str_bytes s)"
    by (rule c_take_here [OF h']) simp
  ultimately show ?thesis using here_room [OF h'] n from_utf8_str [OF assms(2)]
    by (simp add: c_string_def put_str_def Let_def)
qed

lemma repeat_here:
  "(\<And>x pos r. x \<in> set xs \<Longrightarrow> here buf pos (enc x @ r) \<Longrightarrow> p pos = Inr (pos + length (enc x), x)) \<Longrightarrow>
   here buf pos (concat (map enc xs) @ r) \<Longrightarrow>
   repeat_read (length xs) p pos = Inr (pos + length (concat (map enc xs)), xs)"
proof (induction xs arbitrary: pos)
  case (Cons x xs)
  have h: "here buf pos (enc x @ concat (map enc xs) @ r)" using Cons.prems(2) by simp
  have "p pos = Inr (pos + length (enc x), x)" using Cons.prems(1) h by simp
  moreover have "repeat_read (length xs) p (pos + length (enc x)) =
      Inr (pos + length (enc x) + length (concat (map enc xs)), xs)"
    by (rule Cons.IH [OF _ here_append [OF h]]) (simp add: Cons.prems(1))
  ultimately show ?case by (simp add: add.assoc)
qed simp

lemma min_value_bytes_pos: "1 \<le> min_value_bytes t"
  by (simp add: min_value_bytes_def)

lemma power_of_two_word:
  assumes "k < 64"
  shows "(push_bit k 1 :: u64) \<noteq> 0" and "(push_bit k 1 :: u64) AND (push_bit k 1 - 1) = 0"
proof -
  have one: "bit (2 ^ k :: u64) i \<longleftrightarrow> i = k" for i
    using assms by (auto simp: bit_simps)
  then have "(2 ^ k :: u64) \<noteq> 0" by (metis bit_0_eq bot_apply bot_bool_def)
  then show "(push_bit k 1 :: u64) \<noteq> 0" by simp
  have m: "push_bit k 1 - 1 = (mask k :: u64)" by (simp add: mask_eq_exp_minus_1)
  show "(push_bit k 1 :: u64) AND (push_bit k 1 - 1) = 0"
    unfolding m by (rule bit_word_eqI) (auto simp: bit_and_iff bit_mask_iff one)
qed

lemma min_bytes_put: "min_value_bytes (type_id v) \<le> length (put_value v)"
  by (cases v) (simp_all add: min_value_bytes_def put_str_def)

lemma min_bytes_elems:
  assumes "\<forall>w \<in> set vs. type_id w = elem_type vs"
  shows "length vs * min_value_bytes (elem_type vs) \<le> length (concat (map put_value vs))"
proof -
  have "length ws * min_value_bytes (elem_type vs) \<le> length (concat (map put_value ws))"
    if "\<forall>w \<in> set ws. type_id w = elem_type vs" for ws
    using that
  proof (induction ws)
    case (Cons w ws)
    then show ?case using min_bytes_put [of w] by simp
  qed simp
  then show ?thesis using assms by blast
qed

lemma c_value_here:
  "value_ok lvl v \<Longrightarrow> here buf pos (put_value v @ r) \<Longrightarrow>
     c_value lvl buf (type_id v) pos = Inr (pos + length (put_value v), v)"
proof (induction lvl arbitrary: v pos r)
  case (Suc lvl)
  show ?case
  proof (cases v)
    case (VString s)
    then show ?thesis using Suc.prems c_string_here [of buf pos s r] by simp
  next
    case (VArray vs)
    have h1: "here buf pos (le_bytes 4 (elem_type vs) @ le_bytes 8 (of_nat (length vs) :: u64) @
        concat (map put_value vs) @ r)" using Suc.prems(2) VArray by simp
    note h2 = here_bytes [OF h1] and h3 = here_bytes [OF here_bytes [OF h1]]
    have ok: "\<forall>w \<in> set vs. type_id w = elem_type vs" "\<And>w. w \<in> set vs \<Longrightarrow> value_ok lvl w"
      using Suc.prems(1) VArray by simp_all
    note mb = min_bytes_elems [OF ok(1)]
    note pos_mb = min_value_bytes_pos
    have "length vs \<le> length vs * min_value_bytes (elem_type vs)" using pos_mb by simp
    then have n: "unat (of_nat (length vs) :: u64) = length vs"
      using mb by (intro here_length_64 [OF h3]) (simp only: length_append trans_le_add1 order_trans [of _ _ "length (concat (map put_value vs))"])
    have guard: "length vs \<le> (length buf - (pos + 4 + 8)) div max (min_value_bytes (elem_type vs)) 1"
    proof -
      have "length vs * min_value_bytes (elem_type vs) \<le> length buf - (pos + 4 + 8)"
        using mb here_room [OF h3] by simp
      then show ?thesis using pos_mb [of "elem_type vs"] by (simp add: less_eq_div_iff_mult_less_eq)
    qed
    have items: "repeat_read (length vs) (c_value lvl buf (elem_type vs)) (pos + 4 + 8) =
        Inr (pos + 4 + 8 + length (concat (map put_value vs)), vs)"
    proof (rule repeat_here [OF _ h3])
      fix w pos' r'
      assume w: "w \<in> set vs" and hw: "here buf pos' (put_value w @ r')"
      have "type_id w = elem_type vs" using ok(1) w by blast
      then show "c_value lvl buf (elem_type vs) pos' = Inr (pos' + length (put_value w), w)"
        using Suc.IH [OF ok(2) [OF w] hw] by simp
    qed
    have r1: "c_word buf 4 pos = Inr (pos + 4, elem_type vs)" by (rule c_word_here [OF h1]) simp
    have r2: "c_word buf 8 (pos + 4) = Inr (pos + 4 + 8, of_nat (length vs) :: u64)" by (rule c_word_here [OF h2]) simp
    show ?thesis using guard items r1 r2 n by (simp add: VArray add.assoc)
  next
    case (VBool b)
    then show ?thesis using Suc.prems(2) c_word_here [of buf pos 1 "if b then 1 else 0 :: u8" r] by simp
  qed (use Suc.prems(2) in \<open>simp add: c_word_here\<close>)+
qed simp

lemma c_entry_here:
  assumes "here buf pos (put_entry kv @ r)" and "valid_str (fst kv)" and "value_ok 9 (snd kv)"
  shows "c_entry buf pos = Inr (pos + length (put_entry kv), kv)"
proof -
  have h1: "here buf pos (put_str (fst kv) @ le_bytes 4 (type_id (snd kv)) @ put_value (snd kv) @ r)"
    using assms(1) by (simp add: put_entry_def)
  note h2 = here_append [OF h1] and h3 = here_bytes [OF here_append [OF h1]]
  have "c_word buf 4 (pos + length (put_str (fst kv))) = Inr (pos + length (put_str (fst kv)) + 4, type_id (snd kv))"
    by (rule c_word_here [OF h2]) simp
  then show ?thesis
    using c_string_here [OF h1 assms(2)] c_value_here [OF assms(3) h3]
    by (cases kv) (simp add: c_entry_def put_entry_def add.assoc)
qed

lemma c_tensor_here:
  assumes "here buf pos (put_tensor t @ r)" and "valid_str (ti_name t)" and "length (ti_dims t) \<le> 4"
  shows "c_tensor buf pos = Inr (pos + length (put_tensor t), t)"
proof -
  let ?p1 = "pos + length (put_str (ti_name t))"
  have h1: "here buf pos (put_str (ti_name t) @ le_bytes 4 (of_nat (length (ti_dims t)) :: u32) @
     concat (map (le_bytes 8) (ti_dims t)) @ le_bytes 4 (ggml_type t) @ le_bytes 8 (ti_offset t) @ r)"
    using assms(1) by (simp add: put_tensor_def)
  note h2 = here_append [OF h1]
  note h3 = here_bytes [OF h2]
  note h4 = here_append [OF h3]
  note h5 = here_bytes [OF h4]
  have n: "unat (of_nat (length (ti_dims t)) :: u32) = length (ti_dims t)" using assms(3) by (simp add: unat_of_nat)
  let ?p3 = "?p1 + 4 + length (concat (map (le_bytes 8) (ti_dims t)))"
  have "c_word buf 4 ?p1 = Inr (?p1 + 4, of_nat (length (ti_dims t)) :: u32)" by (rule c_word_here [OF h2]) simp
  moreover have "repeat_read (length (ti_dims t)) (c_word buf 8) (?p1 + 4) = Inr (?p3, ti_dims t)"
    by (rule repeat_here [OF _ h3]) (simp add: c_word_here)
  moreover have "c_word buf 4 ?p3 = Inr (?p3 + 4, ggml_type t)" by (rule c_word_here [OF h4]) simp
  moreover have "c_word buf 8 (?p3 + 4) = Inr (?p3 + 4 + 8, ti_offset t)" by (rule c_word_here [OF h5]) simp
  ultimately show ?thesis using c_string_here [OF h1 assms(2)] n assms(3)
    by (cases t) (simp add: c_tensor_def put_tensor_def add.assoc)
qed

text \<open>C29 The reader understands every file of the format: written out with any metadata (nested arrays up
  to the nine levels allowed, any valid text) and any tensor list, followed by any data, it is read
  back to exactly that metadata, later duplicates winning, those tensors, and the data offset of the
  alignment the metadata asks for. None of the guards against hostile counts and lengths refuses a
  well-formed file.\<close>

theorem gguf_reads_back:
  assumes "\<forall>kv \<in> set kvs. valid_str (fst kv) \<and> value_ok 9 (snd kv)"
    and "\<forall>t \<in> set ts. valid_str (ti_name t) \<and> length (ti_dims t) \<le> 4"
    and "version = 2 \<or> version = 3" and "length (put_gguf version kvs ts @ data) < 2 ^ 63"
    and "alignment_of (metadata_of kvs) = push_bit k 1" and "k < 64"
  shows "gguf_parse (put_gguf version kvs ts @ data) =
    Inr \<lparr>gversion = version, metadata = metadata_of kvs, tensors = ts,
         data_offset = next_multiple_of (length (put_gguf version kvs ts)) (unat (alignment_of (metadata_of kvs)))\<rparr>"
proof -
  let ?buf = "put_gguf version kvs ts @ data" and ?E = "concat (map put_entry kvs)" and ?T = "concat (map put_tensor ts)"
  have h0: "here ?buf 0 ([0x47, 0x47, 0x55, 0x46] @ le_bytes 4 version @ le_bytes 8 (of_nat (length ts) :: u64) @
      le_bytes 8 (of_nat (length kvs) :: u64) @ ?E @ ?T @ data)"
    using assms(4) by (simp add: here_def put_gguf_def)
  have "here ?buf (0 + 4) (le_bytes 4 version @ le_bytes 8 (of_nat (length ts) :: u64) @
      le_bytes 8 (of_nat (length kvs) :: u64) @ ?E @ ?T @ data)"
    by (rule here_after [OF h0]) simp
  then have h1: "here ?buf 4 (le_bytes 4 version @ le_bytes 8 (of_nat (length ts) :: u64) @
      le_bytes 8 (of_nat (length kvs) :: u64) @ ?E @ ?T @ data)" by simp
  note h2 = here_bytes [OF h1] note h3 = here_bytes [OF h2]
  note h4 = here_bytes [OF h3] note h5 = here_append [OF h4]
  have e: "13 * length kvs \<le> length ?E"
  proof (induction kvs)
    case (Cons kv kvs)
    have "1 \<le> length (put_value (snd kv))" using min_bytes_put [of "snd kv"]
      by (meson le_trans min_value_bytes_pos)
    then show ?case using Cons by (simp add: put_entry_def put_str_def)
  qed simp
  have t: "24 * length ts \<le> length ?T" by (induction ts) (simp_all add: put_tensor_def put_str_def)
  have room: "length ?buf = 24 + length ?E + length ?T + length data" using here_room [OF h4] by simp
  have ne: "unat (of_nat (length kvs) :: u64) = length kvs" by (rule here_length_64 [OF h4]) (use e in simp)
  have nt: "unat (of_nat (length ts) :: u64) = length ts" by (rule here_length_64 [OF h4]) (use t in simp)
  have "c_take ?buf 4 0 = Inr (0 + 4, [0x47, 0x47, 0x55, 0x46])" by (rule c_take_here [OF h0]) simp
  then have r0: "c_take ?buf 4 0 = Inr (4, [0x47, 0x47, 0x55, 0x46])" by simp
  have r1: "c_word ?buf 4 4 = Inr (8, version)" using c_word_here [OF h1] by simp
  have r2: "c_word ?buf 8 8 = Inr (16, of_nat (length ts) :: u64)" using c_word_here [OF h2] by simp
  have r3: "c_word ?buf 8 16 = Inr (24, of_nat (length kvs) :: u64)" using c_word_here [OF h3] by simp
  have h4': "here ?buf 24 (?E @ ?T @ data)" using h4 by simp
  have r4: "repeat_read (length kvs) (c_entry ?buf) 24 = Inr (24 + length ?E, kvs)"
    by (rule repeat_here [OF _ h4']) (use assms(1) c_entry_here in blast)
  have h5': "here ?buf (24 + length ?E) (?T @ data)" using h5 by simp
  have r5: "repeat_read (length ts) (c_tensor ?buf) (24 + length ?E) = Inr (24 + length ?E + length ?T, ts)"
    by (rule repeat_here [OF _ h5']) (use assms(2) c_tensor_here in blast)
  have guards: "length ts \<le> (length ?buf - 24) div 24" "length kvs \<le> (length ?buf - 24) div 13"
    using e t room by (simp_all add: less_eq_div_iff_mult_less_eq)
  have pow: "alignment_of (metadata_of kvs) \<noteq> 0"
    "alignment_of (metadata_of kvs) AND (alignment_of (metadata_of kvs) - 1) = 0"
    using power_of_two_word [OF assms(6)] assms(5) by simp_all
  have v: "\<not> (version < 2 \<or> 3 < version)" using assms(3) by auto
  have len: "length (put_gguf version kvs ts) = 24 + length ?E + length ?T" using room by simp
  show ?thesis
    unfolding gguf_parse_def r0 bindE_simps prod.case r1 r2 r3 Let_def ne nt r4 r5
    using guards pow v by (simp add: metadata_of_def len)
qed

definition small_kvs :: "(ustring \<times> gguf_value) list" where
  "small_kvs = [(ascii ''general.alignment'', VU32 64), (ascii ''k'', VArray [VArray [VU8 1, VU8 2], VArray []]),
     (ascii ''n'', VString [0x2581, 0x1F426])]"

definition small_tensor :: tensor_info where
  "small_tensor = \<lparr>ti_name = ascii ''t'', ti_dims = [2, 3], ggml_type = 0, ti_offset = 0\<rparr>"

lemma gguf_reads_back_witness:
  "map_sum (\<lambda>_. ()) (\<lambda>g. (tensors g, data_offset g, metadata g (ascii ''n'')))
     (gguf_parse (put_gguf 3 small_kvs [small_tensor] @ [7])) =
   Inr ([small_tensor], 192, Some (VString [0x2581, 0x1F426]))"
proof -
  have al: "alignment_of (metadata_of small_kvs) = push_bit 6 1"
    by (simp add: alignment_of_def metadata_of_def small_kvs_def ascii_def as_u64_def)
  have len: "length (put_gguf 3 small_kvs [small_tensor]) = 177"
    by (simp add: put_gguf_def small_kvs_def small_tensor_def put_entry_def put_tensor_def put_str_def ascii_def
        utf8_def utf8_nats_def)
  have "gguf_parse (put_gguf 3 small_kvs [small_tensor] @ [7]) =
    Inr \<lparr>gversion = 3, metadata = metadata_of small_kvs, tensors = [small_tensor],
         data_offset = next_multiple_of (length (put_gguf 3 small_kvs [small_tensor])) (unat (alignment_of (metadata_of small_kvs)))\<rparr>"
  proof (rule gguf_reads_back [OF _ _ _ _ al])
    show "\<forall>kv \<in> set small_kvs. valid_str (fst kv) \<and> value_ok 9 (snd kv)"
      by (simp add: small_kvs_def ascii_def scalar_def elem_type_def)
    show "\<forall>t \<in> set [small_tensor]. valid_str (ti_name t) \<and> length (ti_dims t) \<le> 4"
      by (simp add: small_tensor_def ascii_def scalar_def)
    show "length (put_gguf 3 small_kvs [small_tensor] @ [7]) < 2 ^ 63" by (simp add: len)
  qed simp_all
  moreover have "next_multiple_of (length (put_gguf 3 small_kvs [small_tensor])) (unat (push_bit 6 1 :: u64)) = 192"
    by (simp add: len next_multiple_of_def)
  moreover have "metadata_of small_kvs (ascii ''n'') = Some (VString [0x2581, 0x1F426])"
    by (simp add: metadata_of_def small_kvs_def ascii_def)
  ultimately show ?thesis by (simp add: al)
qed

end
