(* ===== verification/Bpe.thy ===== *)
theory Bpe
  imports Tokenizer Gguf
begin

text \<open>
  \<open>garuda/src/tokenizer/bpe.rs\<close>: the byte-level BPE tokenizer read from a model file. The
  Unicode classes of the standard library (\<open>is_alphabetic\<close>, \<open>is_numeric\<close>, \<open>is_whitespace\<close>) are
  the parameter \<open>ucd\<close>, of which nothing is assumed. The pre-tokenizer works on what is left of the text,
  and gives the pieces where the code gives their byte ranges.
\<close>

record ucd =
  alphabetic :: "uchar \<Rightarrow> bool"
  numeric :: "uchar \<Rightarrow> bool"
  whitespace :: "uchar \<Rightarrow> bool"

section \<open>The byte alphabet\<close>

definition printable :: "nat \<Rightarrow> bool" where
  "printable b \<longleftrightarrow> 0x21 \<le> b \<and> b < 0x7F \<or> 0xA1 \<le> b \<and> b < 0xAD \<or> 0xAE \<le> b \<and> b < 0x100"

fun byte_table :: "nat \<Rightarrow> nat list \<Rightarrow> uchar list" where
  "byte_table next [] = []"
| "byte_table next (b # bs) =
     (if printable b then b # byte_table next bs else (0x100 + next) # byte_table (Suc next) bs)"

definition byte_to_char :: "uchar list" where
  "byte_to_char = byte_table 0 [0..<256]"

definition char_to_byte :: "uchar \<rightharpoonup> u8" where
  "char_to_byte = map_of (zip byte_to_char (map of_nat [0..<256]))"

section \<open>The pre-tokenizer\<close>

definition is_mark :: "uchar \<Rightarrow> bool" where
  "is_mark c \<longleftrightarrow> 0x0300 \<le> c \<and> c \<le> 0x036F \<or> 0x0483 \<le> c \<and> c \<le> 0x0489 \<or> 0x0591 \<le> c \<and> c \<le> 0x05C7 \<or>
     0x0610 \<le> c \<and> c \<le> 0x061A \<or> 0x064B \<le> c \<and> c \<le> 0x065F \<or> c = 0x0670 \<or> 0x06D6 \<le> c \<and> c \<le> 0x06DC \<or>
     c = 0x0711 \<or> 0x0730 \<le> c \<and> c \<le> 0x074A \<or> 0x07EB \<le> c \<and> c \<le> 0x07F3 \<or> 0x0F71 \<le> c \<and> c \<le> 0x0F87 \<or>
     0x135D \<le> c \<and> c \<le> 0x135F \<or> 0x1AB0 \<le> c \<and> c \<le> 0x1AFF \<or> 0x1DC0 \<le> c \<and> c \<le> 0x1DFF \<or>
     0x20D0 \<le> c \<and> c \<le> 0x20F0 \<or> 0x2CEF \<le> c \<and> c \<le> 0x2CF1 \<or> 0x302A \<le> c \<and> c \<le> 0x302F \<or>
     0xFE00 \<le> c \<and> c \<le> 0xFE0F \<or> 0xFE20 \<le> c \<and> c \<le> 0xFE2F"

definition is_letter :: "ucd \<Rightarrow> uchar \<Rightarrow> bool" where
  "is_letter U c = alphabetic U c"

definition is_letter_or_mark :: "ucd \<Rightarrow> uchar \<Rightarrow> bool" where
  "is_letter_or_mark U c \<longleftrightarrow> alphabetic U c \<or> is_mark c"

definition is_break :: "uchar \<Rightarrow> bool" where
  "is_break c \<longleftrightarrow> c = 13 \<or> c = 10"

definition lower_code :: "uchar \<Rightarrow> uchar" where
  "lower_code c = (if 65 \<le> c \<and> c \<le> 90 then c + 32 else c)"

definition run_len :: "(uchar \<Rightarrow> bool) \<Rightarrow> ustring \<Rightarrow> nat" where
  "run_len P cs = length (takeWhile P cs)"

text \<open>Alternative 1, the English contractions: 's 't 'm 'd, 're 've 'll, in either case.\<close>

definition contraction :: "ustring \<Rightarrow> nat" where
  "contraction cs = (case cs of
     q # a # r \<Rightarrow>
       (let one = lower_code a; two = (case r of [] \<Rightarrow> None | b # _ \<Rightarrow> Some (lower_code b)) in
        if q \<noteq> 39 then 0
        else if one \<in> {115, 116, 109, 100} then 2
        else if one = 114 \<and> two = Some 101 \<or> one = 118 \<and> two = Some 101 \<or> one = 108 \<and> two = Some 108 then 3
        else 0)
   | _ \<Rightarrow> 0)"

text \<open>Alternative 2, a word with at most one leading character that is no break, letter or digit.\<close>

definition word_len :: "ucd \<Rightarrow> ustring \<Rightarrow> nat" where
  "word_len U cs =
     (let c = hd cs; lead = (c \<noteq> 13 \<and> c \<noteq> 10 \<and> \<not> is_letter U c \<and> \<not> numeric U c);
          a = run_len (is_letter_or_mark U) (tl cs)
      in if lead \<and> 0 < a then Suc a else run_len (is_letter_or_mark U) cs)"

text \<open>Alternative 4, symbols with at most one leading space, and the breaks behind them.\<close>

definition symbol :: "ucd \<Rightarrow> uchar \<Rightarrow> bool" where
  "symbol U c \<longleftrightarrow> \<not> (whitespace U c \<or> is_letter_or_mark U c \<or> numeric U c)"

definition symbols_len :: "ucd \<Rightarrow> ustring \<Rightarrow> nat" where
  "symbols_len U cs =
     (let a = run_len (symbol U) (tl cs); b = run_len (symbol U) cs in
      if hd cs = 32 \<and> 0 < a then Suc a + run_len is_break (drop (Suc a) cs)
      else if 0 < b then b + run_len is_break (drop b cs)
      else 0)"

text \<open>Alternatives 5 to 7, white space.\<close>

definition space_len :: "ucd \<Rightarrow> ustring \<Rightarrow> nat" where
  "space_len U cs =
     (let e = run_len (whitespace U) cs in
      case find (\<lambda>k. is_break (cs ! k)) (rev [0..<e]) of
        Some k \<Rightarrow> Suc k
      | None \<Rightarrow> (let keep = (if e = length cs then e else e - 1) in if 0 < keep then keep else e))"

definition piece_len :: "ucd \<Rightarrow> ustring \<Rightarrow> nat" where
  "piece_len U cs =
     (if 0 < contraction cs then contraction cs
      else if 0 < word_len U cs then word_len U cs
      else if numeric U (hd cs) then 1
      else if 0 < symbols_len U cs then symbols_len U cs
      else space_len U cs)"

lemma run_len_pos: "0 < run_len P cs \<longleftrightarrow> cs \<noteq> [] \<and> P (hd cs)"
  by (cases cs) (simp_all add: run_len_def)

lemma run_len_le: "run_len P cs \<le> length cs"
  by (simp add: run_len_def length_takeWhile_le)

lemma space_len_pos: "cs \<noteq> [] \<Longrightarrow> whitespace U (hd cs) \<Longrightarrow> 0 < space_len U cs"
  using run_len_pos [of "whitespace U" cs] by (simp add: space_len_def Let_def split: option.split)

text \<open>The loop moves on at every character, whatever its class.\<close>

lemma piece_len_pos:
  assumes "cs \<noteq> []"
  shows "0 < piece_len U cs"
proof -
  have word: "0 < word_len U cs" if "is_letter_or_mark U (hd cs)"
    using that assms run_len_pos [of "is_letter_or_mark U" cs] by (simp add: word_len_def Let_def)
  have syms: "0 < symbols_len U cs" if "symbol U (hd cs)"
    using that assms run_len_pos [of "symbol U" cs] by (simp add: symbols_len_def Let_def)
  consider "is_letter_or_mark U (hd cs)" | "numeric U (hd cs)" | "symbol U (hd cs)" | "whitespace U (hd cs)"
    by (auto simp: symbol_def)
  then show ?thesis
    using word syms space_len_pos [OF assms] by cases (simp_all add: piece_len_def)
qed

function split_pieces :: "ucd \<Rightarrow> ustring \<Rightarrow> ustring list" where
  "split_pieces U cs =
     (if cs = [] then [] else take (piece_len U cs) cs # split_pieces U (drop (piece_len U cs) cs))"
  by pat_completeness auto
termination
  by (relation "measure (\<lambda>(U, cs). length cs)") (auto simp: piece_len_pos)

declare split_pieces.simps [simp del]

lemma split_pieces_covers: "concat (split_pieces U cs) = cs \<and> [] \<notin> set (split_pieces U cs)"
proof (induction U cs rule: split_pieces.induct)
  case (1 U cs)
  show ?case
  proof (cases "cs = []")
    case False
    moreover have "take (piece_len U cs) cs \<noteq> []" using False piece_len_pos [OF False, of U] by simp
    ultimately show ?thesis using 1 by (subst (1 2) split_pieces.simps) simp
  qed (simp add: split_pieces.simps)
qed

section \<open>The vocabulary\<close>

record bpe_vocab =
  bv_tokens :: "ustring list"
  bv_special :: "bool list"

record bpe =
  bp_vocab :: bpe_vocab
  bp_lookup :: "ustring \<rightharpoonup> token"
  bp_merges :: "ustring \<times> ustring \<rightharpoonup> u32"
  bp_eos :: token

definition bpe_token_bytes :: "bpe_vocab \<Rightarrow> token \<Rightarrow> u8 list" where
  "bpe_token_bytes v t =
     (let i = unat t in
      if i \<ge> length (bv_tokens v) \<or> bv_special v ! i then []
      else concat (map (\<lambda>ch. case char_to_byte ch of Some b \<Rightarrow> [b] | None \<Rightarrow> utf8 ch) (bv_tokens v ! i)))"

text \<open>\<open>split_once(' ')\<close>.\<close>

definition split_once :: "ustring \<Rightarrow> (ustring \<times> ustring) option" where
  "split_once s = (case dropWhile (\<lambda>c. c \<noteq> 32) s of [] \<Rightarrow> None | _ # r \<Rightarrow> Some (takeWhile (\<lambda>c. c \<noteq> 32) s, r))"

text \<open>In the order of the file; inserting them one after the other, a later one replaces an earlier.\<close>

definition read_merges :: "gguf_value list \<Rightarrow> ((ustring \<times> ustring) \<times> u32) list" where
  "read_merges entries =
     List.map_filter (\<lambda>(rank, entry). map_option (\<lambda>lr. (lr, of_nat rank)) (Option.bind (as_str entry) split_once))
       (enumerate 0 entries)"

definition type_of :: "u64 list \<Rightarrow> nat \<Rightarrow> u64" where
  "type_of types i = (if i < length types then types ! i else 1)"

text \<open>Entries ordinary text can reach: neither control (3) nor user-defined (4) nor unused (5); the first
  of equal ones stays.\<close>

definition read_lookup :: "ustring list \<Rightarrow> u64 list \<Rightarrow> ustring \<rightharpoonup> token" where
  "read_lookup tokens types =
     fold (\<lambda>(i, tok) m. if type_of types i \<in> {3, 4, 5} \<or> m tok \<noteq> None then m else m(tok \<mapsto> of_nat i))
       (enumerate 0 tokens) Map.empty"

definition bpe_from_gguf :: "gguf \<Rightarrow> bpe res" where
  "bpe_from_gguf g =
     (if Option.bind (gget g ''tokenizer.ggml.model'') as_str \<noteq> Some (ascii ''gpt2'')
      then Inl (Model ''tokenizer model '{model}' is not byte-level BPE'')
      else case Option.bind (gget g ''tokenizer.ggml.tokens'') as_array of
        None \<Rightarrow> Inl (Model ''gguf has no token list'')
      | Some arr \<Rightarrow>
          let tokens = map (\<lambda>v. case as_str v of Some s \<Rightarrow> s | None \<Rightarrow> []) arr;
              types = (case Option.bind (gget g ''tokenizer.ggml.token_type'') as_array of
                         Some a \<Rightarrow> map (\<lambda>v. case as_u64 v of Some u \<Rightarrow> u | None \<Rightarrow> 1) a
                       | None \<Rightarrow> replicate (length tokens) 1);
              merges = (case Option.bind (gget g ''tokenizer.ggml.merges'') as_array of
                          Some a \<Rightarrow> read_merges a | None \<Rightarrow> []);
              special = map (\<lambda>i. type_of types i \<in> {3, 5}) [0..<length tokens];
              lookup = read_lookup tokens types;
              eos = (case Option.bind (gget g ''tokenizer.ggml.eos_token_id'') as_u64 of Some u \<Rightarrow> ucast u | None \<Rightarrow> 0)
          in if tokens = [] then Inl (Model ''gguf token list is empty'')
             else if merges = []
             then Inl (Model ''gguf has no BPE merge list, so its vocabulary cannot be applied'')
             else if \<exists>c \<in> set byte_to_char. lookup [c] = None
             then Inl (Model ''this vocabulary has no entry for byte {b:#04x} ('{c}'), so it cannot encode arbitrary text'')
             else Inr \<lparr>bp_vocab = \<lparr>bv_tokens = tokens, bv_special = special\<rparr>, bp_lookup = lookup,
                       bp_merges = map_of (rev merges), bp_eos = eos\<rparr>)"

section \<open>Encoding and decoding\<close>

definition rewrite :: "ustring \<Rightarrow> ustring list" where
  "rewrite piece = map (\<lambda>b. [byte_to_char ! unat b]) (str_bytes piece)"

text \<open>The first of the pairs with the lowest rank.\<close>

fun best_pair :: "(ustring \<times> ustring \<rightharpoonup> u32) \<Rightarrow> nat \<Rightarrow> ustring list \<Rightarrow> (nat \<times> u32) option \<Rightarrow> (nat \<times> u32) option" where
  "best_pair M i (a # b # r) best =
     best_pair M (Suc i) (b # r)
       (case M (a, b) of
          None \<Rightarrow> best
        | Some rank \<Rightarrow> (case best of None \<Rightarrow> Some (i, rank)
            | Some (j, low) \<Rightarrow> if rank < low then Some (i, rank) else Some (j, low)))"
| "best_pair M i _ best = best"

definition join_at :: "nat \<Rightarrow> ustring list \<Rightarrow> ustring list" where
  "join_at i syms = take i syms @ [syms ! i @ syms ! Suc i] @ drop (Suc (Suc i)) syms"

lemma best_pair_range:
  "best_pair M i syms best = Some (j, rank) \<Longrightarrow> best = Some (j, rank) \<or> i \<le> j \<and> Suc j < i + length syms"
proof (induction M i syms best rule: best_pair.induct)
  case (1 M i a b r best)
  from 1(1) [OF 1(2) [unfolded best_pair.simps]] show ?case
    by (auto split: option.splits if_splits)
qed auto

function bpe_merge :: "(ustring \<times> ustring \<rightharpoonup> u32) \<Rightarrow> ustring list \<Rightarrow> ustring list" where
  "bpe_merge M syms = (case best_pair M 0 syms None of
     None \<Rightarrow> syms | Some (i, _) \<Rightarrow> bpe_merge M (join_at i syms))"
  by pat_completeness auto
termination
proof (relation "measure (\<lambda>(M, syms). length syms)", goal_cases)
  case (2 M syms x i rank)
  then have "Suc i < length syms" using best_pair_range [of M 0 syms None i rank] by auto
  then show ?case by (simp add: join_at_def)
qed simp

declare bpe_merge.simps [simp del]

definition sym_tokens :: "bpe \<Rightarrow> ustring \<Rightarrow> token list" where
  "sym_tokens tk sy = (case bp_lookup tk sy of
     Some t \<Rightarrow> [t]
   | None \<Rightarrow> List.map_filter (\<lambda>ch. bp_lookup tk [ch]) sy)"

definition bpe_encode :: "ucd \<Rightarrow> bpe \<Rightarrow> ustring \<Rightarrow> token list" where
  "bpe_encode U tk s =
     concat (map (\<lambda>piece. concat (map (sym_tokens tk) (bpe_merge (bp_merges tk) (rewrite piece)))) (split_pieces U s))"

definition bpe_token_id :: "bpe \<Rightarrow> ustring \<Rightarrow> token option" where
  "bpe_token_id tk piece =
     map_option (\<lambda>(i, _). of_nat i) (find (\<lambda>(i, t). t = piece) (enumerate 0 (bv_tokens (bp_vocab tk))))"

fun bpe_bytes :: "bpe_vocab \<Rightarrow> token list \<Rightarrow> u8 list res" where
  "bpe_bytes v [] = Inr []"
| "bpe_bytes v (t # ts) =
     (if unat t \<ge> length (bv_tokens v) then Inl (InvalidToken t)
      else bindE (bpe_bytes v ts) (\<lambda>bs. Inr (bpe_token_bytes v t @ bs)))"

definition bpe_decode :: "bpe \<Rightarrow> token list \<Rightarrow> ustring res" where
  "bpe_decode tk ts = bindE (bpe_bytes (bp_vocab tk) ts) (\<lambda>bs. Inr (lossy bs))"

definition bpe_push :: "bpe \<Rightarrow> u8 list \<Rightarrow> token \<Rightarrow> u8 list \<times> ustring" where
  "bpe_push tk p t = flush_lenient (p @ bpe_token_bytes (bp_vocab tk) t)"

definition bpe_finish :: "u8 list \<Rightarrow> ustring" where
  "bpe_finish p = lossy p"

section \<open>The byte alphabet is a bijection\<close>

lemma length_byte_table [simp]: "length (byte_table n bs) = length bs"
  by (induction bs arbitrary: n) simp_all

lemma set_byte_table: "x \<in> set (byte_table n bs) \<Longrightarrow> x \<in> set bs \<or> 0x100 + n \<le> x"
  by (induction bs arbitrary: n) (auto split: if_splits, fastforce)

lemma distinct_byte_table: "distinct bs \<Longrightarrow> \<forall>b \<in> set bs. b < 0x100 \<Longrightarrow> distinct (byte_table n bs)"
proof (induction bs arbitrary: n)
  case (Cons b bs)
  have "b \<notin> set (byte_table m bs)" "0x100 + m \<notin> set (byte_table (Suc m) bs)" for m
    using Cons.prems set_byte_table [of b m bs] set_byte_table [of "0x100 + m" "Suc m" bs] by auto
  then show ?case using Cons by simp
qed simp

lemma length_byte_to_char [simp]: "length byte_to_char = 256"
  by (simp add: byte_to_char_def)

lemma char_to_byte_back: "char_to_byte (byte_to_char ! unat b) = Some b"
proof -
  have d: "distinct byte_to_char" unfolding byte_to_char_def by (rule distinct_byte_table) auto
  have b: "unat b < 256" using unsigned_less [of b] by simp
  have "map_of (zip byte_to_char (map of_nat [0..<256])) (byte_to_char ! unat b) = Some (map of_nat [0..<256] ! unat b)"
    by (rule map_of_zip_nth) (use d b in simp_all)
  also have "map of_nat [0..<256] ! unat b = b"
    using b by (simp add: word_unat_eq_iff unat_of_nat)
  finally show ?thesis by (simp add: char_to_byte_def)
qed

definition byte_text :: "u8 list \<Rightarrow> ustring" where
  "byte_text bs = map (\<lambda>b. byte_to_char ! unat b) bs"

definition text_bytes :: "ustring \<Rightarrow> u8 list" where
  "text_bytes s = concat (map (\<lambda>ch. case char_to_byte ch of Some b \<Rightarrow> [b] | None \<Rightarrow> utf8 ch) s)"

lemma text_bytes_back: "text_bytes (byte_text bs) = bs"
  by (induction bs) (simp_all add: text_bytes_def byte_text_def char_to_byte_back)

section \<open>Merging\<close>

lemma concat_join_at: "Suc i < length syms \<Longrightarrow> concat (join_at i syms) = concat syms"
proof -
  assume i: "Suc i < length syms"
  then have "syms = take i syms @ syms ! i # syms ! Suc i # drop (Suc (Suc i)) syms"
    by (metis Cons_nth_drop_Suc Suc_lessD append_take_drop_id)
  then have "concat syms = concat (take i syms) @ syms ! i @ syms ! Suc i @ concat (drop (Suc (Suc i)) syms)"
    by (metis concat.simps(2) concat_append)
  then show ?thesis by (simp add: join_at_def)
qed

lemma bpe_merge_concat: "concat (bpe_merge M syms) = concat syms"
proof (induction M syms rule: bpe_merge.induct)
  case (1 M syms)
  show ?case
  proof (cases "best_pair M 0 syms None")
    case (Some x)
    obtain i rank where x: "x = (i, rank)" by fastforce
    have "Suc i < length syms" using best_pair_range [of M 0 syms None i rank] Some x by auto
    then show ?thesis using 1 [OF Some x [symmetric]] concat_join_at Some x by (subst bpe_merge.simps) simp
  qed (simp add: bpe_merge.simps)
qed

text \<open>Nothing that could merge is left.\<close>

lemma best_pair_None: "best_pair M i syms None = None \<Longrightarrow> successively (\<lambda>a b. M (a, b) = None) syms"
proof -
  have keeps: "best_pair M i syms (Some z) \<noteq> None" for M i syms z
    by (induction M i syms "Some z" arbitrary: z rule: best_pair.induct) (auto split: option.splits if_splits)
  show "best_pair M i syms None = None \<Longrightarrow> successively (\<lambda>a b. M (a, b) = None) syms"
  proof (induction M i syms "None :: (nat \<times> u32) option" rule: best_pair.induct)
    case (1 M i a b r)
    show ?case
    proof (cases "M (a, b)")
      case None
      then show ?thesis using 1 by simp
    next
      case (Some rk)
      then have "best_pair M (Suc i) (b # r) (Some (i, rk)) = None" using 1(2) by simp
      with keeps show ?thesis by blast
    qed
  qed auto
qed

lemma bpe_merge_final: "successively (\<lambda>a b. M (a, b) = None) (bpe_merge M syms)"
proof (induction M syms rule: bpe_merge.induct)
  case (1 M syms)
  show ?case
  proof (cases "best_pair M 0 syms None")
    case None
    then show ?thesis using best_pair_None by (simp add: bpe_merge.simps)
  next
    case (Some x)
    obtain i rank where "x = (i, rank)" by fastforce
    then show ?thesis using 1 Some by (subst bpe_merge.simps) simp
  qed
qed

section \<open>A vocabulary that was loaded\<close>

definition bpe_ok :: "bpe \<Rightarrow> bool" where
  "bpe_ok tk \<longleftrightarrow>
     (\<forall>w t. bp_lookup tk w = Some t \<longrightarrow> unat t < length (bv_tokens (bp_vocab tk)) \<and>
        bv_tokens (bp_vocab tk) ! unat t = w \<and> \<not> bv_special (bp_vocab tk) ! unat t) \<and>
     (\<forall>c \<in> set byte_to_char. bp_lookup tk [c] \<noteq> None)"

lemma read_lookup_ok:
  assumes "length tokens < 2 ^ 32"
  shows "read_lookup tokens types w = Some t \<Longrightarrow>
    unat t < length tokens \<and> tokens ! unat t = w \<and> type_of types (unat t) \<notin> {3, 4, 5}"
proof -
  define f where "f = (\<lambda>(i, tok) m. if type_of types i \<in> {3, 4, 5} \<or> m tok \<noteq> None then m else (m(tok \<mapsto> of_nat i)) :: ustring \<rightharpoonup> token)"
  have "fold f es m w = Some t \<Longrightarrow> \<forall>(i, x) \<in> set es. i < length tokens \<and> tokens ! i = x \<Longrightarrow>
      (\<forall>v. m w = Some v \<longrightarrow> unat v < length tokens \<and> tokens ! unat v = w \<and> type_of types (unat v) \<notin> {3, 4, 5}) \<Longrightarrow>
      unat t < length tokens \<and> tokens ! unat t = w \<and> type_of types (unat t) \<notin> {3, 4, 5}" for es m
  proof (induction es arbitrary: m)
    case (Cons e es)
    obtain i x where e: "e = (i, x)" by fastforce
    have "unat (of_nat i :: token) = i" using Cons.prems(2) assms by (simp add: e unat_of_nat)
    then have "\<forall>v. f e m w = Some v \<longrightarrow> unat v < length tokens \<and> tokens ! unat v = w \<and> type_of types (unat v) \<notin> {3, 4, 5}"
      using Cons.prems(2,3) by (auto simp: e f_def)
    then show ?case using Cons by simp
  qed simp
  note step = this
  have "\<forall>(i, x) \<in> set (enumerate 0 tokens). i < length tokens \<and> tokens ! i = x"
    by (auto simp: in_set_enumerate_eq)
  from step [OF _ this, of Map.empty] show "read_lookup tokens types w = Some t \<Longrightarrow>
    unat t < length tokens \<and> tokens ! unat t = w \<and> type_of types (unat t) \<notin> {3, 4, 5}"
    unfolding read_lookup_def f_def by simp
qed

lemma bpe_from_gguf_ok:
  assumes "bpe_from_gguf g = Inr tk" and "length (bv_tokens (bp_vocab tk)) < 2 ^ 32"
  shows "bpe_ok tk"
proof -
  obtain arr types where
    l: "bp_lookup tk = read_lookup (bv_tokens (bp_vocab tk)) types" and
    sp: "bv_special (bp_vocab tk) = map (\<lambda>i. type_of types i \<in> {3, 5}) [0..<length (bv_tokens (bp_vocab tk))]" and
    all: "\<forall>c \<in> set byte_to_char. bp_lookup tk [c] \<noteq> None"
    using assms(1) by (auto simp: bpe_from_gguf_def Let_def split: option.splits if_splits)
  then show ?thesis using read_lookup_ok [OF assms(2)] by (auto simp: bpe_ok_def)
qed

section \<open>What is encoded comes back\<close>

lemma bpe_bytes_append:
  "bpe_bytes v (ts @ us) = bindE (bpe_bytes v ts) (\<lambda>bs. bindE (bpe_bytes v us) (\<lambda>cs. Inr (bs @ cs)))"
proof (induction ts)
  case (Cons t ts)
  then show ?case by (cases "bpe_bytes v ts"; cases "bpe_bytes v us") auto
qed (cases "bpe_bytes v us"; simp)

lemma lookup_bytes:
  "bpe_ok tk \<Longrightarrow> bp_lookup tk w = Some t \<Longrightarrow> bpe_bytes (bp_vocab tk) [t] = Inr (text_bytes w)"
proof -
  assume "bpe_ok tk" and "bp_lookup tk w = Some t"
  then have "unat t < length (bv_tokens (bp_vocab tk))" "bv_tokens (bp_vocab tk) ! unat t = w"
    "\<not> bv_special (bp_vocab tk) ! unat t" unfolding bpe_ok_def by blast+
  then show ?thesis by (simp add: bpe_token_bytes_def text_bytes_def Let_def)
qed

lemma sym_tokens_bytes:
  assumes "bpe_ok tk" and "set w \<subseteq> set byte_to_char"
  shows "bpe_bytes (bp_vocab tk) (sym_tokens tk w) = Inr (text_bytes w)"
proof (cases "bp_lookup tk w")
  case (Some t)
  then show ?thesis using lookup_bytes [OF assms(1)] by (simp add: sym_tokens_def)
next
  case None
  have "bpe_bytes (bp_vocab tk) (List.map_filter (\<lambda>ch. bp_lookup tk [ch]) v) = Inr (text_bytes v)"
    if "set v \<subseteq> set byte_to_char" for v
    using that
  proof (induction v)
    case (Cons c v)
    have "bp_lookup tk [c] \<noteq> None" using assms(1) Cons.prems by (simp add: bpe_ok_def)
    then obtain t where t: "bp_lookup tk [c] = Some t" by blast
    then have "List.map_filter (\<lambda>ch. bp_lookup tk [ch]) (c # v) = [t] @ List.map_filter (\<lambda>ch. bp_lookup tk [ch]) v"
      by (simp add: List.map_filter_simps)
    then show ?case using Cons lookup_bytes [OF assms(1) t] bpe_bytes_append [of "bp_vocab tk" "[t]"]
      by (simp add: text_bytes_def)
  qed (simp add: List.map_filter_simps text_bytes_def)
  then show ?thesis using None assms(2) by (simp add: sym_tokens_def)
qed

lemma syms_bytes:
  assumes "bpe_ok tk" and "\<forall>w \<in> set ws. set w \<subseteq> set byte_to_char"
  shows "bpe_bytes (bp_vocab tk) (concat (map (sym_tokens tk) ws)) = Inr (text_bytes (concat ws))"
  using assms(2)
proof (induction ws)
  case (Cons w ws)
  then show ?case using sym_tokens_bytes [OF assms(1), of w] by (simp add: bpe_bytes_append text_bytes_def)
qed (simp add: text_bytes_def)

lemma concat_rewrite: "concat (rewrite piece) = byte_text (str_bytes piece)"
  by (simp add: rewrite_def byte_text_def concat_map_singleton)

lemma piece_bytes:
  assumes "bpe_ok tk"
  shows "bpe_bytes (bp_vocab tk) (concat (map (sym_tokens tk) (bpe_merge M (rewrite piece)))) = Inr (str_bytes piece)"
proof -
  have "set (byte_text bs) \<subseteq> set byte_to_char" for bs
  proof -
    have "unat b < 256" for b :: u8 using unsigned_less [of b] by simp
    then show ?thesis by (auto simp: byte_text_def intro!: nth_mem)
  qed
  then have "set (concat (bpe_merge M (rewrite piece))) \<subseteq> set byte_to_char"
    by (simp only: bpe_merge_concat concat_rewrite)
  then have "\<forall>w \<in> set (bpe_merge M (rewrite piece)). set w \<subseteq> set byte_to_char" by auto
  from syms_bytes [OF assms this] show ?thesis
    by (simp add: bpe_merge_concat concat_rewrite text_bytes_back)
qed

lemma bpe_encode_bytes:
  assumes "bpe_ok tk"
  shows "bpe_bytes (bp_vocab tk) (bpe_encode U tk s) = Inr (str_bytes s)"
proof -
  have "bpe_bytes (bp_vocab tk) (concat (map (\<lambda>piece. concat (map (sym_tokens tk) (bpe_merge (bp_merges tk) (rewrite piece)))) ps)) =
      Inr (str_bytes (concat ps))" for ps
    by (induction ps) (simp_all add: bpe_bytes_append piece_bytes [OF assms])
  then show ?thesis using split_pieces_covers [of U s] by (simp add: bpe_encode_def)
qed

text \<open>Any ids of the vocabulary, streamed, give what decoding them at once gives.\<close>

lemma bpe_stream:
  "stream_all (bpe_push tk) bpe_finish p ts = chunk_stream flush_lenient p (map (bpe_token_bytes (bp_vocab tk)) ts)"
  by (induction ts arbitrary: p) (simp_all add: bpe_push_def bpe_finish_def split: prod.split)

lemma bpe_bytes_concat:
  "bpe_bytes v ts = Inr bs \<Longrightarrow> bs = concat (map (bpe_token_bytes v) ts) \<and> (\<forall>t \<in> set ts. unat t < length (bv_tokens v))"
  by (induction ts arbitrary: bs) (auto simp: bindE_Inr_iff split: if_splits)

lemma bpe_stream_agrees:
  "bpe_decode tk ts = Inr s \<Longrightarrow> stream_all (bpe_push tk) bpe_finish [] ts = s"
  using bpe_bytes_concat [of "bp_vocab tk" ts] by (auto simp: bpe_decode_def bindE_Inr_iff bpe_stream chunk_stream_lenient)

lemma bpe_decode_encode: "bpe_ok tk \<Longrightarrow> valid_str s \<Longrightarrow> bpe_decode tk (bpe_encode U tk s) = Inr s"
  by (simp add: bpe_decode_def bpe_encode_bytes lossy_str)

lemma bpe_encode_in_vocab: "bpe_ok tk \<Longrightarrow> t \<in> set (bpe_encode U tk s) \<Longrightarrow> unat t < length (bv_tokens (bp_vocab tk))"
  using bpe_bytes_concat [OF bpe_encode_bytes] by blast

interpretation bpe: tokenize "bpe_encode U tk" "bpe_decode tk" "bpe_push tk" bpe_finish "[]"
  "length (bv_tokens (bp_vocab tk))" "\<lambda>s. bpe_ok tk \<and> valid_str s"
  using bpe_encode_in_vocab bpe_decode_encode bpe_stream_agrees by unfold_locales blast+

text \<open>C27 Byte-level BPE loses nothing: with any vocabulary that loads, of fewer than 2 ^ 32 entries, any text
  is encoded without a panic and without a control token, into ids of the vocabulary that decode
  to the same text, at once or streamed, whatever the merge list and the Unicode tables say.\<close>

theorem bpe_lossless:
  assumes "bpe_from_gguf g = Inr tk" and "length (bv_tokens (bp_vocab tk)) < 2 ^ 32" and "valid_str s"
  shows "bpe_decode tk (bpe_encode U tk s) = Inr s \<and>
    stream_all (bpe_push tk) bpe_finish [] (bpe_encode U tk s) = s \<and>
    (\<forall>t \<in> set (bpe_encode U tk s). unat t < length (bv_tokens (bp_vocab tk)))"
proof -
  have ok: "bpe_ok tk \<and> valid_str s" using bpe_from_gguf_ok [OF assms(1,2)] assms(3) by blast
  then show ?thesis using bpe.round_trip [OF ok] bpe.stream_text [OF ok] bpe.in_vocab [OF ok] by blast
qed

text \<open>A vocabulary of the 256 bytes, one merge, and a class table that knows the letter a and the space.\<close>

definition byte_gguf :: gguf where
  "byte_gguf = \<lparr>gversion = 3,
     metadata = [ascii ''tokenizer.ggml.model'' \<mapsto> VString (ascii ''gpt2''),
                 ascii ''tokenizer.ggml.tokens'' \<mapsto> VArray (map (\<lambda>c. VString [c]) byte_to_char),
                 ascii ''tokenizer.ggml.merges'' \<mapsto> VArray [VString (ascii ''a b'')]],
     tensors = [], data_offset = 0\<rparr>"

definition toy_ucd :: ucd where
  "toy_ucd = \<lparr>alphabetic = (\<lambda>c. c = 97), numeric = (\<lambda>_. False), whitespace = (\<lambda>c. c = 32)\<rparr>"

lemma read_lookup_finds:
  assumes "\<forall>i. type_of types i \<notin> {3, 4, 5}" and "w \<in> set tokens"
  shows "read_lookup tokens types w \<noteq> None"
proof -
  define f where "f = (\<lambda>(i, tok) m. if type_of types i \<in> {3, 4, 5} \<or> m tok \<noteq> None then m else (m(tok \<mapsto> of_nat i)) :: ustring \<rightharpoonup> token)"
  have "w \<in> snd ` set es \<or> m w \<noteq> None \<Longrightarrow> fold f es m w \<noteq> None" for es m
  proof (induction es arbitrary: m)
    case (Cons e es)
    obtain i x where e: "e = (i, x)" by fastforce
    have "w \<in> snd ` set es \<or> f e m w \<noteq> None" using Cons.prems assms(1) by (auto simp: e f_def)
    then show ?case using Cons.IH by simp
  qed simp
  moreover have "w \<in> snd ` set (enumerate 0 tokens)" using assms(2) by (simp flip: set_map)
  ultimately have "fold f (enumerate 0 tokens) Map.empty w \<noteq> None" by blast
  then show ?thesis unfolding read_lookup_def f_def by simp
qed

lemma byte_gguf_loads:
  obtains tk where "bpe_from_gguf byte_gguf = Inr tk" and "length (bv_tokens (bp_vocab tk)) = 256"
proof -
  let ?tokens = "map (\<lambda>c. [c]) byte_to_char" and ?types = "replicate 256 (1 :: u64)"
  have get: "gget byte_gguf ''tokenizer.ggml.model'' = Some (VString (ascii ''gpt2''))"
    "gget byte_gguf ''tokenizer.ggml.tokens'' = Some (VArray (map (\<lambda>c. VString [c]) byte_to_char))"
    "gget byte_gguf ''tokenizer.ggml.merges'' = Some (VArray [VString (ascii ''a b'')])"
    "gget byte_gguf ''tokenizer.ggml.token_type'' = None" "gget byte_gguf ''tokenizer.ggml.eos_token_id'' = None"
    by (simp_all add: gget_def gguf_get_def byte_gguf_def ascii_def)
  have m: "read_merges [VString (ascii ''a b'')] = [(([97], [98]), 0)]"
    by (simp add: read_merges_def as_str_def split_once_def ascii_def List.map_filter_simps)
  have "type_of ?types i = 1" for i by (simp add: type_of_def)
  then have all: "\<not> (\<exists>c \<in> set byte_to_char. read_lookup ?tokens ?types [c] = None)"
    using read_lookup_finds [of ?types] by auto
  have ne: "byte_to_char \<noteq> []" using length_byte_to_char by force
  show thesis
    by (rule that [of "\<lparr>bp_vocab = \<lparr>bv_tokens = ?tokens, bv_special = map (\<lambda>i. type_of ?types i \<in> {3, 5}) [0..<256]\<rparr>,
        bp_lookup = read_lookup ?tokens ?types, bp_merges = map_of (rev [(([97], [98]), 0)]), bp_eos = 0\<rparr>"])
      (use all ne in \<open>simp_all add: bpe_from_gguf_def get as_str_def as_array_def m Let_def o_def\<close>)
qed

lemma bpe_lossless_witness:
  "\<exists>tk. bpe_from_gguf byte_gguf = Inr tk \<and>
     bpe_decode tk (bpe_encode toy_ucd tk [97, 32, 0x1F426]) = Inr [97, 32, 0x1F426]"
proof -
  obtain tk where tk: "bpe_from_gguf byte_gguf = Inr tk" "length (bv_tokens (bp_vocab tk)) = 256" by (rule byte_gguf_loads)
  have "bpe_decode tk (bpe_encode toy_ucd tk [97, 32, 0x1F426]) = Inr [97, 32, 0x1F426]"
    using bpe_lossless [OF tk(1), of "[97, 32, 0x1F426]" toy_ucd] tk(2) by (simp add: scalar_def)
  then show ?thesis using tk(1) by blast
qed

text \<open>C28 Streaming byte-level BPE agrees with decoding at once, on every sequence of ids of the vocabulary,
  valid text or not: whatever was held back comes out in the end, in place.\<close>

theorem bpe_stream_is_batch:
  assumes "bpe_decode tk ts = Inr s"
  shows "stream_all (bpe_push tk) bpe_finish [] ts = s"
  by (rule bpe_stream_agrees [OF assms])

definition pair_tk :: bpe where
  "pair_tk = \<lparr>bp_vocab = \<lparr>bv_tokens = [[0xE2], [0x41]], bv_special = [False, False]\<rparr>, bp_lookup = Map.empty,
     bp_merges = Map.empty, bp_eos = 0\<rparr>"

lemma bpe_stream_is_batch_witness:
  "stream_all (bpe_push pair_tk) bpe_finish [] [1, 1] = [0x41, 0x41]"
proof (rule bpe_stream_is_batch)
  have "bpe_token_bytes (bp_vocab pair_tk) 1 = [0x41]"
  proof -
    have "byte_to_char ! unat (0x41 :: u8) = 0x41" by code_simp
    then have "char_to_byte 0x41 = Some 0x41" using char_to_byte_back [of "0x41"] by simp
    then show ?thesis by (simp add: bpe_token_bytes_def pair_tk_def)
  qed
  then show "bpe_decode pair_tk [1, 1] = Inr [0x41, 0x41]"
    using lossy_str [of "[0x41, 0x41]"] by (simp add: bpe_decode_def pair_tk_def scalar_def utf8_def utf8_nats_def)
qed

text \<open>Merging a piece ends, loses no character, and leaves no two neighbours the merge list would join.\<close>

theorem bpe_merge_exhausts:
  "concat (bpe_merge M syms) = concat syms \<and> successively (\<lambda>a b. M (a, b) = None) (bpe_merge M syms)"
  by (rule conjI [OF bpe_merge_concat bpe_merge_final])

end
