(* ===== verification/Spm.thy ===== *)
theory Spm
  imports Tokenizer Gguf
begin

text \<open>
  \<open>garuda/src/tokenizer/spm.rs\<close>: the SentencePiece tokenizer. Text is handled as its UTF-8
  bytes, as the code's slices are; the vocabulary is looked up by the bytes of a piece. The symbols
  are the code's array with its \<open>prev\<close> and \<open>next\<close> links; indices are unbounded integers (a prompt
  of 2 ^ 31 characters would wrap). \<open>None\<close> is an index or a slice out of range. The heap is a list
  from which a largest entry is taken; which of several equal ones does not matter, since at most one
  of them is not stale.
\<close>

definition space_mark :: uchar where
  "space_mark = 0x2581"

record spm_vocab =
  sv_tokens :: "ustring list"
  byte_value :: "u8 option list"
  is_control :: "bool list"
  sv_bos :: token
  sv_eos :: token

record spm =
  sp_vocab :: spm_vocab
  sp_scores :: "f32 list"
  sp_lookup :: "u8 list \<rightharpoonup> token"
  byte_token_of :: "token list"
  sp_unk :: token
  add_bos :: bool

definition spm_token_bytes :: "spm_vocab \<Rightarrow> token \<Rightarrow> u8 list" where
  "spm_token_bytes v t =
     (let i = unat t in
      if i \<ge> length (sv_tokens v) \<or> is_control v ! i \<or> t = sv_bos v \<or> t = sv_eos v then []
      else case byte_value v ! i of
        Some b \<Rightarrow> [b]
      | None \<Rightarrow> concat (map (\<lambda>ch. if ch = space_mark then [32] else utf8 ch) (sv_tokens v ! i)))"

section \<open>Loading\<close>

definition hex_digit :: "uchar \<Rightarrow> nat option" where
  "hex_digit c = (if 48 \<le> c \<and> c \<le> 57 then Some (c - 48) else if 97 \<le> c \<and> c \<le> 102 then Some (c - 87)
     else if 65 \<le> c \<and> c \<le> 70 then Some (c - 55) else None)"

text \<open>\<open>u8::from_str_radix(_, 16)\<close>: a sign is allowed, no digits are an error, so is a value past 255.\<close>

fun hex_value :: "nat \<Rightarrow> ustring \<Rightarrow> nat option" where
  "hex_value acc [] = Some acc"
| "hex_value acc (c # cs) = (case hex_digit c of None \<Rightarrow> None
     | Some d \<Rightarrow> if 16 * acc + d < 256 then hex_value (16 * acc + d) cs else None)"

definition from_str_radix :: "ustring \<Rightarrow> u8 option" where
  "from_str_radix s = (let ds = (case s of c # r \<Rightarrow> if c = 43 then r else s | [] \<Rightarrow> [])
     in if ds = [] then None else map_option of_nat (hex_value 0 ds))"

definition parse_byte_token :: "ustring \<Rightarrow> u8 option" where
  "parse_byte_token s =
     (if take 3 s = [60, 48, 120] \<and> 3 < length s \<and> last s = 62 then from_str_radix (butlast (drop 3 s)) else None)"

text \<open>The types a file may give are 3 (control) and 6 (byte); an absent one counts as 1.\<close>

definition spm_types :: "gguf \<Rightarrow> nat \<Rightarrow> u64" where
  "spm_types g i =
     (case Option.bind (gget g ''tokenizer.ggml.token_type'') as_array of
        None \<Rightarrow> 1
      | Some a \<Rightarrow> if i < length a then (case as_u64 (a ! i) of Some u \<Rightarrow> u | None \<Rightarrow> 1) else 1)"

definition spm_scores :: "conv \<Rightarrow> gguf \<Rightarrow> nat \<Rightarrow> f32" where
  "spm_scores C g i =
     (case Option.bind (gget g ''tokenizer.ggml.scores'') as_array of
        None \<Rightarrow> 0
      | Some a \<Rightarrow> if i < length a then (case as_f32 C (a ! i) of Some x \<Rightarrow> x | None \<Rightarrow> 0) else 0)"

fun all_strings :: "gguf_value list \<Rightarrow> ustring list res" where
  "all_strings [] = Inr []"
| "all_strings (v # vs) = (case as_str v of None \<Rightarrow> Inl (Model ''a token is not a string'')
     | Some s \<Rightarrow> bindE (all_strings vs) (\<lambda>ss. Inr (s # ss)))"

definition spm_byte_tokens :: "u8 option list \<Rightarrow> token list" where
  "spm_byte_tokens bvs =
     fold (\<lambda>(i, bv) bt. case bv of None \<Rightarrow> bt | Some b \<Rightarrow> bt[unat b := of_nat i]) (enumerate 0 bvs) (replicate 256 0)"

definition spm_lookup :: "ustring list \<Rightarrow> u8 list \<rightharpoonup> token" where
  "spm_lookup tokens =
     fold (\<lambda>(i, s) m. if m (str_bytes s) \<noteq> None then m else m(str_bytes s \<mapsto> of_nat i)) (enumerate 0 tokens) Map.empty"

definition spm_id :: "gguf \<Rightarrow> string \<Rightarrow> token \<Rightarrow> token" where
  "spm_id g key dflt = (case Option.bind (gget g key) as_u64 of Some u \<Rightarrow> ucast u | None \<Rightarrow> dflt)"

definition spm_from_gguf :: "conv \<Rightarrow> gguf \<Rightarrow> spm res" where
  "spm_from_gguf C g =
     (if Option.bind (gget g ''tokenizer.ggml.model'') as_str \<noteq> Some (ascii ''llama'')
      then Inl (Model ''tokenizer model '{model}' is not supported (only llama SPM)'')
      else case Option.bind (gget g ''tokenizer.ggml.tokens'') as_array of
        None \<Rightarrow> Inl (Model ''gguf has no tokenizer.ggml.tokens'')
      | Some arr \<Rightarrow> bindE (all_strings arr) (\<lambda>tokens.
          let n = length tokens;
              bvs = map (\<lambda>i. if spm_types g i = 6 then parse_byte_token (tokens ! i) else None) [0..<n]
          in Inr \<lparr>sp_vocab = \<lparr>sv_tokens = tokens, byte_value = bvs,
                    is_control = map (\<lambda>i. spm_types g i = 3) [0..<n],
                    sv_bos = spm_id g ''tokenizer.ggml.bos_token_id'' 1,
                    sv_eos = spm_id g ''tokenizer.ggml.eos_token_id'' 2\<rparr>,
                  sp_scores = map (spm_scores C g) [0..<n], sp_lookup = spm_lookup tokens,
                  byte_token_of = spm_byte_tokens bvs,
                  sp_unk = spm_id g ''tokenizer.ggml.unknown_token_id'' 0,
                  add_bos = (case Option.bind (gget g ''tokenizer.ggml.add_bos_token'') as_bool of
                               Some b \<Rightarrow> b | None \<Rightarrow> True)\<rparr>))"

section \<open>Encoding\<close>

definition byte_to_token :: "spm \<Rightarrow> u8 \<Rightarrow> token" where
  "byte_to_token tk b = (let t = byte_token_of tk ! unat b in if t = 0 then sp_unk tk else t)"

record sym_cell =
  sstart :: nat
  slen :: nat
  sprev :: int
  snext :: int

record bigram =
  bleft :: int
  bright :: int
  bscore :: f32
  bsize :: nat

text \<open>The higher score, then the smaller left index.\<close>

definition bigram_less :: "bigram \<Rightarrow> bigram \<Rightarrow> bool" where
  "bigram_less a b \<longleftrightarrow> total_key (bscore a) < total_key (bscore b) \<or>
     total_key (bscore a) = total_key (bscore b) \<and> bleft b < bleft a"

fun pop_best :: "bigram list \<Rightarrow> (bigram \<times> bigram list) option" where
  "pop_best [] = None"
| "pop_best (x # xs) = (case pop_best xs of
     None \<Rightarrow> Some (x, [])
   | Some (y, ys) \<Rightarrow> if bigram_less x y then Some (y, x # ys) else Some (x, xs))"

lemma pop_best_None [simp]: "pop_best xs = None \<longleftrightarrow> xs = []"
  by (cases xs) (auto split: option.splits prod.splits if_splits)

lemma pop_best_mset: "pop_best xs = Some (y, ys) \<Longrightarrow> length xs = Suc (length ys) \<and> set xs = insert y (set ys)"
proof (induction xs arbitrary: y ys)
  case (Cons x xs)
  show ?case
  proof (cases "pop_best xs")
    case None
    then show ?thesis using Cons.prems by auto
  next
    case (Some z)
    obtain v vs where z: "z = (v, vs)" by fastforce
    from Cons.IH Some z have ih: "length xs = Suc (length vs)" "set xs = insert v (set vs)" by simp_all
    show ?thesis
    proof (cases "bigram_less x v")
      case True
      then have "y = v" "ys = x # vs" using Cons.prems Some z by simp_all
      then show ?thesis by (simp add: ih insert_commute)
    next
      case False
      then have "y = x" "ys = xs" using Cons.prems Some z by simp_all
      then show ?thesis by simp
    qed
  qed
qed simp

definition normalize :: "bool \<Rightarrow> ustring \<Rightarrow> ustring" where
  "normalize lead text = (if lead then [space_mark] else []) @ map (\<lambda>c. if c = 32 then space_mark else c) text"

fun cells_from :: "nat \<Rightarrow> nat \<Rightarrow> ustring \<Rightarrow> sym_cell list" where
  "cells_from idx start [] = []"
| "cells_from idx start (c # cs) =
     \<lparr>sstart = start, slen = length (utf8 c), sprev = int idx - 1, snext = (if cs = [] then -1 else int idx + 1)\<rparr>
     # cells_from (Suc idx) (start + length (utf8 c)) cs"

definition try_bigram :: "spm \<Rightarrow> u8 list \<Rightarrow> sym_cell list \<Rightarrow> int \<Rightarrow> int \<Rightarrow> bigram list \<Rightarrow> bigram list option" where
  "try_bigram tk norm syms left right heap =
     (if left < 0 \<or> right < 0 then Some heap
      else if nat left \<ge> length syms \<or> nat right \<ge> length syms then None
      else let l = syms ! nat left; r = syms ! nat right in
        if slen l = 0 \<or> slen r = 0 then Some heap
        else if sstart l > sstart r + slen r \<or> sstart r + slen r > length norm then None
        else let piece = take (sstart r + slen r - sstart l) (drop (sstart l) norm) in
          case sp_lookup tk piece of
            None \<Rightarrow> Some heap
          | Some t \<Rightarrow>
              if unat t \<ge> length (sp_scores tk) then None
              else Some (\<lparr>bleft = left, bright = right, bscore = sp_scores tk ! unat t, bsize = length piece\<rparr> # heap))"

definition upd :: "nat \<Rightarrow> ('a \<Rightarrow> 'a) \<Rightarrow> 'a list \<Rightarrow> 'a list" where
  "upd i f xs = xs[i := f (xs ! i)]"

lemma length_upd [simp]: "length (upd i f xs) = length xs"
  by (simp add: upd_def)

lemma nth_upd: "j < length xs \<Longrightarrow> upd i f xs ! j = (if j = i then f (xs ! j) else xs ! j)"
  by (cases "j = i") (simp_all add: upd_def)

definition merge_cells :: "int \<Rightarrow> int \<Rightarrow> sym_cell list \<Rightarrow> sym_cell list" where
  "merge_cells left right syms =
     (let l = nat left; r = nat right; r_next = snext (syms ! r); r_len = slen (syms ! r);
          joined = upd l (\<lambda>c. c\<lparr>snext := r_next\<rparr>)
                     (upd r (\<lambda>c. c\<lparr>slen := 0\<rparr>) (upd l (\<lambda>c. c\<lparr>slen := slen c + r_len\<rparr>) syms))
      in if r_next \<ge> 0 then upd (nat r_next) (\<lambda>c. c\<lparr>sprev := left\<rparr>) joined else joined)"

definition merge_once :: "spm \<Rightarrow> u8 list \<Rightarrow> sym_cell list \<Rightarrow> bigram \<Rightarrow> bigram list \<Rightarrow> (sym_cell list \<times> bigram list) option" where
  "merge_once tk norm syms bg heap =
     (if snext (syms ! nat (bright bg)) \<ge> int (length syms) then None
      else let syms' = merge_cells (bleft bg) (bright bg) syms; c = syms' ! nat (bleft bg) in
        case try_bigram tk norm syms' (sprev c) (bleft bg) heap of
          None \<Rightarrow> None
        | Some h1 \<Rightarrow>
            (case try_bigram tk norm syms' (bleft bg) (snext c) h1 of None \<Rightarrow> None | Some h2 \<Rightarrow> Some (syms', h2)))"

definition stale_bigram :: "sym_cell list \<Rightarrow> bigram \<Rightarrow> bool" where
  "stale_bigram syms bg \<longleftrightarrow> (let l = syms ! nat (bleft bg); r = syms ! nat (bright bg) in
     slen l = 0 \<or> slen r = 0 \<or> slen l + slen r \<noteq> bsize bg)"

definition in_range :: "sym_cell list \<Rightarrow> bigram \<Rightarrow> bool" where
  "in_range syms bg \<longleftrightarrow> 0 \<le> bleft bg \<and> 0 \<le> bright bg \<and> nat (bleft bg) < length syms \<and> nat (bright bg) < length syms"

definition alive :: "sym_cell list \<Rightarrow> nat set" where
  "alive syms = {i. i < length syms \<and> slen (syms ! i) \<noteq> 0}"

lemma finite_alive [simp]: "finite (alive syms)"
  by (simp add: alive_def)

lemma try_bigram_length: "try_bigram tk norm syms l r heap = Some h \<Longrightarrow> length h \<le> Suc (length heap)"
  by (auto simp: try_bigram_def Let_def split: if_splits option.splits)

lemma merge_cells_length [simp]: "length (merge_cells l r syms) = length syms"
  by (simp add: merge_cells_def Let_def)

lemma merge_cells_nth:
  assumes "nat l < length syms" and "nat r < length syms" and "i < length syms" and "nat l \<noteq> nat r"
  shows "slen (merge_cells l r syms ! i) =
      (if i = nat r then 0 else if i = nat l then slen (syms ! nat l) + slen (syms ! nat r) else slen (syms ! i))"
    and "sstart (merge_cells l r syms ! i) = sstart (syms ! i)"
    and "snext (merge_cells l r syms ! i) = (if i = nat l then snext (syms ! nat r) else snext (syms ! i))"
    and "sprev (merge_cells l r syms ! i) =
      (if 0 \<le> snext (syms ! nat r) \<and> i = nat (snext (syms ! nat r)) then l else sprev (syms ! i))"
  using assms(3,4) by (auto simp: merge_cells_def Let_def nth_upd)

lemma merge_cells_alive:
  assumes "in_range syms bg" and "\<not> stale_bigram syms bg" and "bleft bg \<noteq> bright bg"
  shows "alive (merge_cells (bleft bg) (bright bg) syms) = alive syms - {nat (bright bg)}"
  using assms by (auto simp: alive_def in_range_def stale_bigram_def Let_def merge_cells_nth split: if_splits)

lemma merge_cells_same: "0 \<le> l \<Longrightarrow> nat l < length syms \<Longrightarrow> alive (merge_cells l l syms) = alive syms - {nat l}"
  by (auto simp: alive_def merge_cells_def Let_def nth_upd split: if_splits)

lemma merge_once_shrinks:
  assumes "merge_once tk norm syms bg heap = Some (syms', heap')"
    and "in_range syms bg" and "\<not> stale_bigram syms bg"
  shows "card (alive syms') < card (alive syms)" and "length heap' \<le> length heap + 2"
proof -
  obtain h1 where h: "syms' = merge_cells (bleft bg) (bright bg) syms"
    "try_bigram tk norm syms' (sprev (syms' ! nat (bleft bg))) (bleft bg) heap = Some h1"
    "try_bigram tk norm syms' (bleft bg) (snext (syms' ! nat (bleft bg))) h1 = Some heap'"
    using assms(1) by (auto simp: merge_once_def Let_def split: if_splits option.splits)
  show "length heap' \<le> length heap + 2" using try_bigram_length [OF h(2)] try_bigram_length [OF h(3)] by simp
  have "alive syms' = alive syms - {nat (bright bg)}"
    using merge_cells_alive [OF assms(2,3)] merge_cells_same [of "bright bg" syms] assms(2)
    by (cases "bleft bg = bright bg") (simp_all add: h(1) in_range_def)
  moreover have "nat (bright bg) \<in> alive syms"
    using assms(2,3) by (simp add: alive_def in_range_def stale_bigram_def Let_def)
  ultimately show "card (alive syms') < card (alive syms)" by (metis card_Diff1_less finite_alive)
qed

function merge_loop :: "spm \<Rightarrow> u8 list \<Rightarrow> sym_cell list \<Rightarrow> bigram list \<Rightarrow> sym_cell list option" where
  "merge_loop tk norm syms heap =
     (case pop_best heap of
        None \<Rightarrow> Some syms
      | Some (bg, rest) \<Rightarrow>
          if \<not> in_range syms bg then None
          else if stale_bigram syms bg then merge_loop tk norm syms rest
          else case merge_once tk norm syms bg rest of
            None \<Rightarrow> None
          | Some (syms', heap') \<Rightarrow> merge_loop tk norm syms' heap')"
  by pat_completeness auto

termination
proof (relation "measure (\<lambda>(_, _, syms, heap). 3 * card (alive syms) + length heap)", goal_cases)
  case (2 tk norm syms heap x bg rest)
  then show ?case using pop_best_mset [of heap bg rest] by simp
next
  case (3 tk norm syms heap x bg rest y syms' heap')
  then show ?case using pop_best_mset [of heap bg rest] merge_once_shrinks [of tk norm syms bg rest syms' heap'] by (auto simp flip: prod.case_eq_if)
qed simp

fun read_out :: "spm \<Rightarrow> u8 list \<Rightarrow> sym_cell list \<Rightarrow> nat \<Rightarrow> int \<Rightarrow> token list option" where
  "read_out tk norm syms fuel i =
     (if i < 0 \<or> nat i \<ge> length syms then Some []
      else case fuel of
        0 \<Rightarrow> None
      | Suc fuel' \<Rightarrow>
          let s = syms ! nat i; piece = take (slen s) (drop (sstart s) norm) in
          if slen s > 0 \<and> sstart s + slen s > length norm then None
          else map_option (\<lambda>ts. (if slen s = 0 then [] else case sp_lookup tk piece of
                                    Some t \<Rightarrow> [t]
                                  | None \<Rightarrow> map (byte_to_token tk) piece) @ ts)
                 (read_out tk norm syms fuel' (snext s)))"

declare merge_loop.simps [simp del] read_out.simps [simp del]

definition fill_heap :: "spm \<Rightarrow> u8 list \<Rightarrow> sym_cell list \<Rightarrow> bigram list option" where
  "fill_heap tk norm syms =
     fold (\<lambda>i h. Option.bind h (try_bigram tk norm syms (int i - 1) (int i))) [1..<length syms] (Some [])"

definition encode_spm :: "spm \<Rightarrow> ustring \<Rightarrow> bool \<Rightarrow> token list option" where
  "encode_spm tk text lead =
     (let cs = normalize lead text; norm = str_bytes cs; syms = cells_from 0 0 cs in
      Option.bind (fill_heap tk norm syms) (\<lambda>heap.
      Option.bind (merge_loop tk norm syms heap) (\<lambda>syms'.
      map_option (\<lambda>out. (if lead \<and> add_bos tk then [sv_bos (sp_vocab tk)] else []) @ out)
        (read_out tk norm syms' (length syms') 0))))"

section \<open>Decoding\<close>

definition strip_space :: "ustring \<Rightarrow> ustring" where
  "strip_space s = (case s of c # r \<Rightarrow> if c = 32 then r else s | [] \<Rightarrow> [])"

definition spm_decode :: "spm \<Rightarrow> token list \<Rightarrow> ustring res" where
  "spm_decode tk ts = Inr (strip_space (lossy (concat (map (spm_token_bytes (sp_vocab tk)) ts))))"

record spm_stream =
  ss_pending :: "u8 list"
  at_start :: bool

definition spm_push :: "spm \<Rightarrow> spm_stream \<Rightarrow> token \<Rightarrow> spm_stream \<times> ustring" where
  "spm_push tk d t =
     (let p = ss_pending d @ spm_token_bytes (sp_vocab tk) t in
      case valid_prefix p of (cs, rest) \<Rightarrow>
        if rest \<noteq> [] \<and> cs = [] then
          (case next_char p of Bad _ \<Rightarrow> (d\<lparr>ss_pending := []\<rparr>, [replacement]) | _ \<Rightarrow> (d\<lparr>ss_pending := p\<rparr>, []))
        else if at_start d \<and> cs \<noteq> [] then (\<lparr>ss_pending = rest, at_start = False\<rparr>, strip_space cs)
        else (d\<lparr>ss_pending := rest\<rparr>, cs))"

definition spm_finish :: "spm_stream \<Rightarrow> ustring" where
  "spm_finish d = (if ss_pending d = [] then [] else lossy (ss_pending d))"

definition spm_stream_decoder :: spm_stream where
  "spm_stream_decoder = \<lparr>ss_pending = [], at_start = True\<rparr>"

end
