(* ===== verification/SpmLossless.thy ===== *)
theory SpmLossless
  imports Spm "HOL-Library.Sublist"
begin

text \<open>
  What the SentencePiece encoder writes, its decoder reads back. The merge loop is followed
  through the chain it threads over the array: a list of pairs of an index and the characters that
  its symbol covers.
\<close>

abbreviation blen :: "ustring \<Rightarrow> nat" where
  "blen s \<equiv> length (str_bytes s)"

abbreviation chars_of :: "(nat \<times> ustring) list \<Rightarrow> ustring" where
  "chars_of ch \<equiv> concat (map snd ch)"

definition first_of :: "(nat \<times> ustring) list \<Rightarrow> int \<Rightarrow> int" where
  "first_of ch nx = (case ch of [] \<Rightarrow> nx | x # _ \<Rightarrow> int (fst x))"

definition last_of :: "int \<Rightarrow> (nat \<times> ustring) list \<Rightarrow> int" where
  "last_of p ch = (if ch = [] then p else int (fst (last ch)))"

fun linked :: "sym_cell list \<Rightarrow> int \<Rightarrow> nat \<Rightarrow> (nat \<times> ustring) list \<Rightarrow> int \<Rightarrow> bool" where
  "linked syms p off [] nx \<longleftrightarrow> True"
| "linked syms p off (x # ch) nx \<longleftrightarrow>
     fst x < length syms \<and> snd x \<noteq> [] \<and>
     syms ! fst x = \<lparr>sstart = off, slen = blen (snd x), sprev = p, snext = first_of ch nx\<rparr> \<and>
     linked syms (int (fst x)) (off + blen (snd x)) ch nx"

lemma first_of_simps [simp]: "first_of [] nx = nx" "first_of (x # ch) nx = int (fst x)"
    "first_of (xs @ ys) nx = first_of xs (first_of ys nx)"
  by (simp_all add: first_of_def split: list.split)

lemma last_of_simps [simp]: "last_of p [] = p" "last_of p (x # ch) = last_of (int (fst x)) ch"
    "last_of p (xs @ ys) = last_of (last_of p xs) ys"
  by (simp_all add: last_of_def)

lemma str_bytes_Nil [simp]: "str_bytes s = [] \<longleftrightarrow> s = []"
  by (cases s) (simp_all add: str_bytes_def utf8_def utf8_nats_def)

lemma linked_append:
  "linked syms p off (xs @ ys) nx \<longleftrightarrow>
     linked syms p off xs (first_of ys nx) \<and> linked syms (last_of p xs) (off + blen (chars_of xs)) ys nx"
  by (induction xs arbitrary: p off) (simp_all add: add.assoc)

lemma linked_frame:
  assumes "length syms' = length syms" and "\<forall>i \<in> fst ` set ch. syms' ! i = syms ! i"
  shows "linked syms' p off ch nx \<longleftrightarrow> linked syms p off ch nx"
  using assms(2) by (induction ch arbitrary: p off) (simp_all add: assms(1))

lemma linked_bounds:
  "linked syms p off ch nx \<Longrightarrow> x \<in> set ch \<Longrightarrow>
     fst x < length syms \<and> snd x \<noteq> [] \<and> slen (syms ! fst x) = blen (snd x) \<and> off \<le> sstart (syms ! fst x) \<and>
     sstart (syms ! fst x) + blen (snd x) \<le> off + blen (chars_of ch)"
proof (induction ch arbitrary: p off)
  case (Cons y ch)
  show ?case
  proof (cases "x = y")
    case True
    then show ?thesis using Cons.prems by simp
  next
    case False
    then have "x \<in> set ch" using Cons.prems(2) by simp
    from Cons.IH [OF _ this] Cons.prems(1) show ?thesis by fastforce
  qed
qed simp

text \<open>A symbol of the chain that starts after another, but not past its end, is the next one.\<close>

lemma linked_neighbours:
  assumes "linked syms p off (xs @ (l, a) # zs) nx" and "(r, b) \<in> set (xs @ (l, a) # zs)"
    and "sstart (syms ! l) < sstart (syms ! r)" and "sstart (syms ! r) \<le> sstart (syms ! l) + slen (syms ! l)"
  shows "\<exists>ys. zs = (r, b) # ys"
proof -
  have l: "syms ! l = \<lparr>sstart = off + blen (chars_of xs), slen = blen a, sprev = last_of p xs, snext = first_of zs nx\<rparr>"
    and zs: "linked syms (int l) (off + blen (chars_of xs) + blen a) zs nx"
    and xs: "linked syms p off xs (int l)"
    using assms(1) by (simp_all add: linked_append)
  have "(r, b) \<notin> set xs" using linked_bounds [OF xs, of "(r, b)"] assms(3) l by auto
  moreover have "(r, b) \<noteq> (l, a)" using assms(3) by auto
  ultimately have rz: "(r, b) \<in> set zs" using assms(2) by auto
  then obtain z ys where z: "zs = z # ys" by (cases zs) auto
  have "(r, b) \<notin> set ys"
  proof
    assume "(r, b) \<in> set ys"
    with linked_bounds [of syms "int (fst z)" "off + blen (chars_of xs) + blen a + blen (snd z)" ys nx "(r, b)"] zs z
    have "off + blen (chars_of xs) + blen a + blen (snd z) \<le> sstart (syms ! r)" "str_bytes (snd z) \<noteq> []" by simp_all
    moreover have "sstart (syms ! r) \<le> off + blen (chars_of xs) + blen a" using assms(4) l by simp
    ultimately show False using length_greater_0_conv [of "str_bytes (snd z)"] by linarith
  qed
  then show ?thesis using rz z by auto
qed

text \<open>A merge joins two neighbours of the chain.\<close>

lemma merge_cells_linked:
  assumes "linked syms (-1) 0 (xs @ (l, a) # (r, b) # ys) (-1)"
    and "distinct (map fst (xs @ (l, a) # (r, b) # ys))"
  shows "linked (merge_cells (int l) (int r) syms) (-1) 0 (xs @ (l, a @ b) # ys) (-1)"
proof -
  let ?m = "merge_cells (int l) (int r) syms" and ?o = "blen (chars_of xs)"
  have cells: "l < length syms" "r < length syms" "a \<noteq> []" "b \<noteq> []"
    "syms ! l = \<lparr>sstart = ?o, slen = blen a, sprev = last_of (-1) xs, snext = int r\<rparr>"
    "syms ! r = \<lparr>sstart = ?o + blen a, slen = blen b, sprev = int l, snext = first_of ys (-1)\<rparr>"
    and ys: "linked syms (int r) (?o + blen a + blen b) ys (-1)" and xs: "linked syms (-1) 0 xs (int l)"
    using assms(1) by (simp_all add: linked_append)
  have d: "l \<noteq> r" "l \<notin> fst ` set xs" "r \<notin> fst ` set xs" "l \<notin> fst ` set ys" "r \<notin> fst ` set ys"
    "fst ` set xs \<inter> fst ` set ys = {}" "distinct (map fst ys)" using assms(2) by auto
  note nth = merge_cells_nth [of "int l" syms "int r", simplified, OF cells(1,2) _ d(1)]
  have same: "?m ! i = syms ! i" if "i < length syms" "i \<noteq> l" "i \<noteq> r" "i \<noteq> nat (first_of ys (-1)) \<or> ys = []" for i
    using that nth [of i] cells(6) by (intro sym_cell.equality) (auto split: list.splits if_splits)
  have l: "?m ! l = \<lparr>sstart = ?o, slen = blen (a @ b), sprev = last_of (-1) xs, snext = first_of ys (-1)\<rparr>"
    using nth [of l] cells d by (intro sym_cell.equality) (auto simp: str_bytes_def first_of_def split: list.splits)
  have "linked ?m (-1) 0 xs (int l)"
  proof (subst linked_frame)
    show "\<forall>i \<in> fst ` set xs. ?m ! i = syms ! i"
    proof
      fix i assume i: "i \<in> fst ` set xs"
      then have "i < length syms" using linked_bounds [OF xs] by auto
      then show "?m ! i = syms ! i" using i d by (intro same) (auto simp: first_of_def split: list.splits)
    qed
  qed (use xs in simp_all)
  moreover have "linked ?m (int l) (?o + blen (a @ b)) ys (-1)"
  proof (cases ys)
    case Nil
    then show ?thesis by simp
  next
    case (Cons y zs)
    have y: "fst y < length syms" "syms ! fst y = \<lparr>sstart = ?o + blen a + blen b, slen = blen (snd y), sprev = int r, snext = first_of zs (-1)\<rparr>"
      "snd y \<noteq> []" and zs: "linked syms (int (fst y)) (?o + blen a + blen b + blen (snd y)) zs (-1)"
      using ys Cons by simp_all
    have "?m ! fst y = \<lparr>sstart = ?o + blen a + blen b, slen = blen (snd y), sprev = int l, snext = first_of zs (-1)\<rparr>"
      using nth [OF y(1)] y cells(6) d Cons by (intro sym_cell.equality) auto
    moreover have "linked ?m (int (fst y)) (?o + blen a + blen b + blen (snd y)) zs (-1)"
    proof (subst linked_frame)
      show "\<forall>i \<in> fst ` set zs. ?m ! i = syms ! i"
      proof
        fix i assume i: "i \<in> fst ` set zs"
        then have "i < length syms" using linked_bounds [OF zs] by auto
        moreover have "fst y \<notin> fst ` set zs" using d(7) Cons by simp
        then have "i \<noteq> fst y" using i by metis
        ultimately show "?m ! i = syms ! i" using i d Cons by (intro same) auto
      qed
    qed (use zs in simp_all)
    ultimately show ?thesis using y(1,3) Cons by (simp add: str_bytes_def add.assoc)
  qed
  ultimately show ?thesis using l cells by (simp add: linked_append)
qed

section \<open>What the loop keeps\<close>

definition spm_ok :: "spm \<Rightarrow> bool" where
  "spm_ok tk \<longleftrightarrow> length (sp_scores tk) = length (sv_tokens (sp_vocab tk)) \<and> list_all valid_str (sv_tokens (sp_vocab tk)) \<and>
     (\<forall>p t. sp_lookup tk p = Some t \<longrightarrow> unat t < length (sv_tokens (sp_vocab tk)) \<and>
        str_bytes (sv_tokens (sp_vocab tk) ! unat t) = p)"

definition chains :: "spm \<Rightarrow> ustring \<Rightarrow> sym_cell list \<Rightarrow> (nat \<times> ustring) list \<Rightarrow> bool" where
  "chains tk cs syms ch \<longleftrightarrow> linked syms (-1) 0 ch (-1) \<and> chars_of ch = cs \<and> distinct (map fst ch) \<and>
     alive syms \<subseteq> fst ` set ch \<and> (ch \<noteq> [] \<longrightarrow> fst (hd ch) = 0) \<and> (ch = [] \<longrightarrow> syms = []) \<and>
     (\<forall>x \<in> set ch. length (snd x) = 1 \<or> sp_lookup tk (str_bytes (snd x)) \<noteq> None)"

definition queued :: "spm \<Rightarrow> ustring \<Rightarrow> sym_cell list \<Rightarrow> bigram \<Rightarrow> bool" where
  "queued tk cs syms bg \<longleftrightarrow> in_range syms bg \<and>
     (let l = syms ! nat (bleft bg); r = syms ! nat (bright bg) in
       sstart l < sstart r \<and> (slen l \<noteq> 0 \<longrightarrow> sstart r \<le> sstart l + slen l) \<and>
       sp_lookup tk (take (bsize bg) (drop (sstart l) (str_bytes cs))) \<noteq> None)"

lemma str_bytes_append [simp]: "str_bytes (s @ t) = str_bytes s @ str_bytes t"
  by (simp add: str_bytes_def)

lemma try_bigram_chains:
  assumes "spm_ok tk" and "chains tk cs syms (xs @ (i, a) # (j, b) # ys)" and "\<forall>bg \<in> set heap. queued tk cs syms bg"
  shows "\<exists>h. try_bigram tk (str_bytes cs) syms (int i) (int j) heap = Some h \<and> (\<forall>bg \<in> set h. queued tk cs syms bg)"
proof -
  let ?o = "blen (chars_of xs)"
  have cells: "i < length syms" "j < length syms" "a \<noteq> []" "b \<noteq> []"
    "syms ! i = \<lparr>sstart = ?o, slen = blen a, sprev = last_of (-1) xs, snext = int j\<rparr>"
    "syms ! j = \<lparr>sstart = ?o + blen a, slen = blen b, sprev = int i, snext = first_of ys (-1)\<rparr>"
    and cs: "cs = chars_of xs @ a @ b @ chars_of ys"
    using assms(2) by (auto simp: chains_def linked_append)
  have piece: "take (blen a + blen b) (drop ?o (str_bytes cs)) = str_bytes a @ str_bytes b" by (simp add: cs)
  show ?thesis
  proof (cases "sp_lookup tk (str_bytes a @ str_bytes b)")
    case None
    then show ?thesis using assms(3) cells piece cs by (simp add: try_bigram_def Let_def)
  next
    case (Some t)
    then have "unat t < length (sp_scores tk)" using assms(1) by (auto simp: spm_ok_def)
    moreover have "queued tk cs syms \<lparr>bleft = int i, bright = int j, bscore = s, bsize = blen a + blen b\<rparr>" for s
      using cells piece Some by (simp add: queued_def in_range_def Let_def)
    ultimately show ?thesis using assms(3) cells piece cs Some by (simp add: try_bigram_def Let_def)
  qed
qed

lemma try_bigram_none: "try_bigram tk norm syms (-1) r heap = Some heap" "try_bigram tk norm syms l (-1) heap = Some heap"
  by (simp_all add: try_bigram_def)

lemma queued_merge:
  assumes "queued tk cs syms bg" and "l < length syms" and "r < length syms" and "l \<noteq> r" and "slen (syms ! l) \<noteq> 0"
  shows "queued tk cs (merge_cells (int l) (int r) syms) bg"
proof -
  have "nat (bleft bg) < length syms" "nat (bright bg) < length syms" using assms(1) by (simp_all add: queued_def in_range_def)
  then show ?thesis
    using assms merge_cells_nth(1,2) [of "int l" syms "int r" "nat (bleft bg)"] merge_cells_nth(2) [of "int l" syms "int r" "nat (bright bg)"]
    by (auto simp: queued_def in_range_def Let_def split: if_splits)
qed

lemma merge_once_chains:
  assumes ok: "spm_ok tk" and ch: "chains tk cs syms ch" and heap: "\<forall>bg \<in> set heap. queued tk cs syms bg"
    and bg: "queued tk cs syms bg" and fresh: "\<not> stale_bigram syms bg"
  shows "\<exists>syms' heap' ch'. merge_once tk (str_bytes cs) syms bg heap = Some (syms', heap') \<and>
    chains tk cs syms' ch' \<and> (\<forall>bg \<in> set heap'. queued tk cs syms' bg)"
proof -
  obtain l r where lr: "bleft bg = int l" "bright bg = int r" "l < length syms" "r < length syms"
    using bg by (metis queued_def in_range_def nat_0_le)
  have lens: "slen (syms ! l) \<noteq> 0" "slen (syms ! r) \<noteq> 0" "slen (syms ! l) + slen (syms ! r) = bsize bg"
    using fresh by (simp_all add: stale_bigram_def Let_def lr)
  have order: "sstart (syms ! l) < sstart (syms ! r)" "sstart (syms ! r) \<le> sstart (syms ! l) + slen (syms ! l)"
    and found: "sp_lookup tk (take (bsize bg) (drop (sstart (syms ! l)) (str_bytes cs))) \<noteq> None"
    using bg lens by (simp_all add: queued_def Let_def lr)
  have "l \<in> alive syms" "r \<in> alive syms" using lr lens by (simp_all add: alive_def)
  then have "l \<in> fst ` set ch" "r \<in> fst ` set ch" using ch by (auto simp: chains_def)
  then obtain a b where "(l, a) \<in> set ch" and rb: "(r, b) \<in> set ch" by auto
  then obtain xs zs where xs: "ch = xs @ (l, a) # zs" by (meson split_list)
  with ch rb order linked_neighbours [of syms "-1" 0 xs l a zs "-1" r b] obtain ys where
    ys: "ch = xs @ (l, a) # (r, b) # ys" by (auto simp: chains_def)
  let ?m = "merge_cells (int l) (int r) syms" and ?ch = "xs @ (l, a @ b) # ys" and ?o = "blen (chars_of xs)"
  have li: "linked syms (-1) 0 ch (-1)" and di: "distinct (map fst ch)" using ch by (simp_all add: chains_def)
  have cells: "syms ! l = \<lparr>sstart = ?o, slen = blen a, sprev = last_of (-1) xs, snext = int r\<rparr>"
    "syms ! r = \<lparr>sstart = ?o + blen a, slen = blen b, sprev = int l, snext = first_of ys (-1)\<rparr>"
    and neq: "l \<noteq> r" and cs: "cs = chars_of xs @ a @ b @ chars_of ys"
    using li di ch ys by (auto simp: linked_append chains_def)
  have "sp_lookup tk (str_bytes (a @ b)) \<noteq> None" using found lens by (simp add: cells cs flip: lens(3))
  moreover have "alive ?m = alive syms - {r}"
    using merge_cells_alive [of syms bg] bg fresh neq by (simp add: lr queued_def)
  ultimately have ch': "chains tk cs ?m ?ch"
    using ch ys merge_cells_linked [OF li [unfolded ys] di [unfolded ys]]
    unfolding chains_def by (auto simp: cs hd_append split: if_splits)
  have q: "\<forall>bg \<in> set heap. queued tk cs ?m bg" using heap queued_merge lr neq lens by blast
  have m: "sprev (?m ! l) = last_of (-1) xs" "snext (?m ! l) = first_of ys (-1)"
    using ch' by (simp_all add: chains_def linked_append)
  obtain h1 where h1: "try_bigram tk (str_bytes cs) ?m (sprev (?m ! l)) (int l) heap = Some h1" "\<forall>bg \<in> set h1. queued tk cs ?m bg"
  proof (cases xs rule: rev_cases)
    case Nil
    then show ?thesis using that q m by (simp add: try_bigram_none)
  next
    case (snoc us u)
    then show ?thesis using that q m ch' try_bigram_chains [OF ok, of cs ?m us "fst u" "snd u" l "a @ b" ys heap] by auto
  qed
  obtain h2 where h2: "try_bigram tk (str_bytes cs) ?m (int l) (snext (?m ! l)) h1 = Some h2" "\<forall>bg \<in> set h2. queued tk cs ?m bg"
  proof (cases ys)
    case Nil
    then show ?thesis using that h1(2) m by (simp add: try_bigram_none)
  next
    case (Cons u us)
    then show ?thesis using that h1(2) m ch' try_bigram_chains [OF ok, of cs ?m xs l "a @ b" "fst u" "snd u" us h1] by auto
  qed
  have "first_of ys (-1) < int (length syms)"
    using li ys by (cases ys) (simp_all add: linked_append)
  then have "merge_once tk (str_bytes cs) syms bg heap = Some (?m, h2)"
    using h1(1) h2(1) cells(2) by (simp add: merge_once_def Let_def lr)
  then show ?thesis using ch' h2(2) by blast
qed

lemma merge_loop_chains:
  "spm_ok tk \<Longrightarrow> chains tk cs syms ch \<Longrightarrow> \<forall>bg \<in> set heap. queued tk cs syms bg \<Longrightarrow>
     \<exists>syms' ch'. merge_loop tk (str_bytes cs) syms heap = Some syms' \<and> chains tk cs syms' ch'"
proof (induction tk "str_bytes cs" syms heap arbitrary: ch rule: merge_loop.induct)
  case (1 tk syms heap)
  show ?case
  proof (cases "pop_best heap")
    case None
    then show ?thesis using "1.prems" by (subst merge_loop.simps) auto
  next
    case (Some x)
    obtain bg rest where x: "x = (bg, rest)" by fastforce
    have q: "queued tk cs syms bg" "\<forall>bg \<in> set rest. queued tk cs syms bg"
      using pop_best_mset [of heap bg rest] Some x "1.prems"(3) by auto
    then have r: "in_range syms bg" by (simp add: queued_def)
    show ?thesis
    proof (cases "stale_bigram syms bg")
      case True
      then have "merge_loop tk (str_bytes cs) syms heap = merge_loop tk (str_bytes cs) syms rest"
        using Some x r by (subst merge_loop.simps) simp
      then show ?thesis using "1.hyps"(1) [OF Some x [symmetric] _ True "1.prems"(1,2) q(2)] r by simp
    next
      case False
      from merge_once_chains [OF "1.prems"(1,2) q(2,1) False] obtain syms' heap' ch' where
        m: "merge_once tk (str_bytes cs) syms bg rest = Some (syms', heap')" "chains tk cs syms' ch'"
          "\<forall>bg \<in> set heap'. queued tk cs syms' bg" by blast
      then have "merge_loop tk (str_bytes cs) syms heap = merge_loop tk (str_bytes cs) syms' heap'"
        using Some x r False by (subst merge_loop.simps) simp
      then show ?thesis using "1.hyps"(2) [OF Some x [symmetric] _ False m(1) refl "1.prems"(1) m(2,3)] r by simp
    qed
  qed
qed

section \<open>The symbols of the text\<close>

fun chain_from :: "nat \<Rightarrow> ustring \<Rightarrow> (nat \<times> ustring) list" where
  "chain_from i [] = []"
| "chain_from i (c # cs) = (i, [c]) # chain_from (Suc i) cs"

lemma chain_from_simps [simp]: "chars_of (chain_from i cs) = cs" "map fst (chain_from i cs) = [i..<i + length cs]"
  by (induction cs arbitrary: i) (simp_all add: upt_rec)

lemma length_cells_from [simp]: "length (cells_from i off cs) = length cs"
  by (induction cs arbitrary: i off) simp_all

lemma cells_from_linked:
  "length pre = i \<Longrightarrow> linked (pre @ cells_from i off cs) (int i - 1) off (chain_from i cs) (-1)"
proof (induction cs arbitrary: pre i off)
  case (Cons c cs)
  let ?c = "\<lparr>sstart = off, slen = length (utf8 c), sprev = int i - 1, snext = (if cs = [] then -1 else int i + 1)\<rparr>"
  have "linked ((pre @ [?c]) @ cells_from (Suc i) (off + length (utf8 c)) cs) (int (Suc i) - 1)
      (off + length (utf8 c)) (chain_from (Suc i) cs) (-1)" using Cons.prems by (intro Cons.IH) simp
  moreover have "first_of (chain_from (Suc i) cs) (-1) = (if cs = [] then -1 else int i + 1)" by (cases cs) simp_all
  ultimately show ?case using Cons.prems by (simp add: str_bytes_def nth_append)
qed simp

lemma chains_start: "chains tk cs (cells_from 0 0 cs) (chain_from 0 cs)"
proof -
  have "length (snd x) = 1" if "x \<in> set (chain_from i cs)" for x i
    using that by (induction cs arbitrary: i) auto
  moreover have "fst ` set (chain_from 0 cs) = {0..<length cs}"
    using chain_from_simps(2) [of 0 cs] by (metis list.set_map set_upt add_0)
  moreover have "chain_from 0 cs \<noteq> [] \<longrightarrow> fst (hd (chain_from 0 cs)) = 0" by (cases cs) simp_all
  ultimately show ?thesis using cells_from_linked [of "[]" 0 0 cs] by (cases cs) (auto simp: chains_def alive_def)
qed

lemma chain_from_split:
  "Suc k < length cs \<Longrightarrow> \<exists>xs a b ys. chain_from i cs = xs @ (i + k, a) # (i + Suc k, b) # ys"
proof (induction cs arbitrary: i k)
  case (Cons c cs)
  show ?case
  proof (cases k)
    case 0
    then show ?thesis using Cons.prems by (cases cs) (auto intro: exI [of _ "[]"])
  next
    case (Suc k')
    with Cons.IH [of k' "Suc i"] Cons.prems obtain xs a b ys where
      "chain_from (Suc i) cs = xs @ (Suc i + k', a) # (Suc i + Suc k', b) # ys" by auto
    then have "chain_from i (c # cs) = ((i, [c]) # xs) @ (i + k, a) # (i + Suc k, b) # ys" using Suc by simp
    then show ?thesis by blast
  qed
qed simp

lemma fill_heap_queued:
  assumes "spm_ok tk"
  shows "\<exists>h. fill_heap tk (str_bytes cs) (cells_from 0 0 cs) = Some h \<and> (\<forall>bg \<in> set h. queued tk cs (cells_from 0 0 cs) bg)"
proof -
  let ?syms = "cells_from 0 0 cs"
  have "\<exists>h. fold (\<lambda>i h. Option.bind h (try_bigram tk (str_bytes cs) ?syms (int i - 1) (int i))) is (Some h0) = Some h \<and>
      (\<forall>bg \<in> set h. queued tk cs ?syms bg)"
    if "\<forall>i \<in> set is. 1 \<le> i \<and> i < length cs" and "\<forall>bg \<in> set h0. queued tk cs ?syms bg" for "is" h0
    using that
  proof (induction "is" arbitrary: h0)
    case (Cons i js)
    then obtain k where k: "i = Suc k" "Suc k < length cs" by (cases i) auto
    obtain xs a b ys where "chain_from 0 cs = xs @ (k, a) # (Suc k, b) # ys"
      using chain_from_split [OF k(2), of 0] by auto
    then have "chains tk cs ?syms (xs @ (k, a) # (Suc k, b) # ys)" using chains_start [of tk cs] by simp
    from try_bigram_chains [OF assms this Cons.prems(2)] obtain h1 where
      "try_bigram tk (str_bytes cs) ?syms (int k) (int (Suc k)) h0 = Some h1" "\<forall>bg \<in> set h1. queued tk cs ?syms bg" by blast
    then show ?case using Cons.IH [of h1] Cons.prems(1) k(1) by simp
  qed simp
  from this [of "[1..<length ?syms]" "[]"] show ?thesis by (simp add: fill_heap_def)
qed

section \<open>Reading the chain out\<close>

definition piece_tokens :: "spm \<Rightarrow> ustring \<Rightarrow> token list" where
  "piece_tokens tk s = (case sp_lookup tk (str_bytes s) of Some t \<Rightarrow> [t] | None \<Rightarrow> map (byte_to_token tk) (str_bytes s))"

lemma read_out_step:
  assumes "i < length syms" and "syms ! i = \<lparr>sstart = blen pre, slen = blen s, sprev = p, snext = n\<rparr>" and "s \<noteq> []"
  shows "read_out tk (str_bytes (pre @ s @ post)) syms (Suc f) (int i) =
    map_option (\<lambda>ts. piece_tokens tk s @ ts) (read_out tk (str_bytes (pre @ s @ post)) syms f n)"
proof -
  define nb where "nb = str_bytes (pre @ s @ post)"
  have "take (blen s) (drop (blen pre) nb) = str_bytes s" "blen pre + blen s \<le> length nb" by (simp_all add: nb_def)
  then show ?thesis unfolding nb_def [symmetric]
    by (subst read_out.simps) (use assms in \<open>simp add: Let_def piece_tokens_def cong: option.case_cong\<close>)
qed

lemma read_out_linked:
  assumes "linked syms p (blen pre) ch (-1)" and "length ch \<le> fuel"
  shows "read_out tk (str_bytes (pre @ chars_of ch)) syms fuel (first_of ch (-1)) = Some (concat (map (piece_tokens tk) (map snd ch)))"
  using assms
proof (induction ch arbitrary: p pre fuel)
  case Nil
  then show ?case by (simp add: read_out.simps)
next
  case (Cons x ch)
  obtain f where f: "fuel = Suc f" "length ch \<le> f" using Cons.prems(2) by (cases fuel) simp_all
  have "linked syms (int (fst x)) (blen (pre @ snd x)) ch (-1)" using Cons.prems(1) by simp
  note rest = Cons.IH [OF this f(2)]
  have "read_out tk (str_bytes (pre @ snd x @ chars_of ch)) syms (Suc f) (int (fst x)) =
      map_option (\<lambda>ts. piece_tokens tk (snd x) @ ts)
        (read_out tk (str_bytes (pre @ snd x @ chars_of ch)) syms f (first_of ch (-1)))"
    using Cons.prems(1) by (intro read_out_step) simp_all
  then show ?case using rest f(1) by simp
qed

lemma distinct_below: "distinct xs \<Longrightarrow> set xs \<subseteq> {..<n} \<Longrightarrow> length xs \<le> n"
  by (metis card_lessThan card_mono distinct_card finite_lessThan)

text \<open>Encoding never fails, and writes the tokens of pieces that make up the marked text, each of one
  character or in the vocabulary.\<close>

lemma encode_spm_pieces:
  assumes "spm_ok tk"
  shows "\<exists>ps. encode_spm tk text lead =
      Some ((if lead \<and> add_bos tk then [sv_bos (sp_vocab tk)] else []) @ concat (map (piece_tokens tk) ps)) \<and>
    concat ps = normalize lead text \<and> (\<forall>p \<in> set ps. length p = 1 \<or> sp_lookup tk (str_bytes p) \<noteq> None)"
proof -
  let ?cs = "normalize lead text"
  obtain h where h: "fill_heap tk (str_bytes ?cs) (cells_from 0 0 ?cs) = Some h"
    "\<forall>bg \<in> set h. queued tk ?cs (cells_from 0 0 ?cs) bg" using fill_heap_queued [OF assms] by blast
  obtain syms ch where m: "merge_loop tk (str_bytes ?cs) (cells_from 0 0 ?cs) h = Some syms" and ch: "chains tk ?cs syms ch"
    using merge_loop_chains [OF assms chains_start h(2)] by blast
  have li: "linked syms (-1) (blen []) ch (-1)" using ch by (simp add: chains_def str_bytes_def)
  have "set (map fst ch) \<subseteq> {..<length syms}" using linked_bounds [OF li] by fastforce
  then have "length ch \<le> length syms"
    using distinct_below [of "map fst ch" "length syms"] ch by (simp add: chains_def)
  from read_out_linked [OF li this] have r: "read_out tk (str_bytes ?cs) syms (length syms) (first_of ch (-1)) =
      Some (concat (map (piece_tokens tk) (map snd ch)))" using ch by (simp add: chains_def)
  have "read_out tk (str_bytes ?cs) syms (length syms) 0 = Some (concat (map (piece_tokens tk) (map snd ch)))"
  proof (cases ch)
    case Nil
    then show ?thesis using ch by (simp add: chains_def read_out.simps)
  next
    case (Cons x xs)
    then have "fst x = 0" using ch by (simp add: chains_def)
    then show ?thesis using r Cons by simp
  qed
  with h(1) m ch show ?thesis
    by (intro exI [of _ "map snd ch"]) (auto simp: encode_spm_def Let_def chains_def)
qed

section \<open>Text and vocabularies that go together\<close>

text \<open>The code looks pieces up without regard to what their tokens are for. So that what is typed comes
  back, no stretch of the marked text may spell a token that is not ordinary text.\<close>

definition plain_token :: "spm_vocab \<Rightarrow> token \<Rightarrow> bool" where
  "plain_token v t \<longleftrightarrow> \<not> is_control v ! unat t \<and> t \<noteq> sv_bos v \<and> t \<noteq> sv_eos v \<and> byte_value v ! unat t = None"

definition spells_plain :: "spm \<Rightarrow> ustring \<Rightarrow> bool" where
  "spells_plain tk s \<longleftrightarrow> (\<forall>p \<in> set (sublists s).
     case sp_lookup tk (str_bytes p) of Some t \<Rightarrow> plain_token (sp_vocab tk) t | None \<Rightarrow> True)"

definition has_bytes :: "spm \<Rightarrow> bool" where
  "has_bytes tk \<longleftrightarrow> sp_lookup tk (utf8 space_mark) \<noteq> None \<and>
     (\<forall>b. unat (byte_to_token tk b) < length (sv_tokens (sp_vocab tk)) \<and>
        spm_token_bytes (sp_vocab tk) (byte_to_token tk b) = [b])"

definition spm_accepts :: "spm \<Rightarrow> ustring \<Rightarrow> bool" where
  "spm_accepts tk text \<longleftrightarrow> spm_ok tk \<and> has_bytes tk \<and> valid_str text \<and> space_mark \<notin> set text \<and>
     spells_plain tk (normalize True text) \<and>
     (add_bos tk \<longrightarrow> unat (sv_bos (sp_vocab tk)) < length (sv_tokens (sp_vocab tk)))"

definition spm_encode :: "spm \<Rightarrow> ustring \<Rightarrow> token list" where
  "spm_encode tk text = the (encode_spm tk text True)"

definition plain_char :: "uchar \<Rightarrow> uchar" where
  "plain_char c = (if c = space_mark then 32 else c)"

lemma plain_normalize: "space_mark \<notin> set text \<Longrightarrow> map plain_char (normalize True text) = 32 # text"
  by (induction "text") (auto simp: normalize_def plain_char_def)

lemma str_bytes_inject: "valid_str s \<Longrightarrow> valid_str t \<Longrightarrow> str_bytes s = str_bytes t \<longleftrightarrow> s = t"
  using lossy_str by metis

lemma piece_bytes_plain:
  assumes "spm_accepts tk text" and "valid_str p" and "p \<in> set (sublists (normalize True text))"
    and "length p = 1 \<or> sp_lookup tk (str_bytes p) \<noteq> None"
  shows "concat (map (spm_token_bytes (sp_vocab tk)) (piece_tokens tk p)) = str_bytes (map plain_char p)"
    and "\<forall>t \<in> set (piece_tokens tk p). unat t < length (sv_tokens (sp_vocab tk))"
proof -
  let ?v = "sp_vocab tk"
  have "concat (map (spm_token_bytes ?v) (piece_tokens tk p)) = str_bytes (map plain_char p) \<and>
    (\<forall>t \<in> set (piece_tokens tk p). unat t < length (sv_tokens ?v))"
  proof (cases "sp_lookup tk (str_bytes p)")
    case (Some t)
    have t: "unat t < length (sv_tokens ?v)" "str_bytes (sv_tokens ?v ! unat t) = str_bytes p"
      using assms(1) Some by (auto simp: spm_accepts_def spm_ok_def)
    moreover have "valid_str (sv_tokens ?v ! unat t)"
      using assms(1) t(1) unfolding spm_accepts_def spm_ok_def by (metis list_all_length)
    ultimately have "sv_tokens ?v ! unat t = p" using assms(2) str_bytes_inject by blast
    moreover have "plain_token ?v t"
      using assms(1,3) Some by (auto simp: spm_accepts_def spells_plain_def split: option.splits)
    moreover have "(\<lambda>ch. if ch = space_mark then [32] else utf8 ch) = utf8 \<circ> plain_char"
      by (auto simp: plain_char_def utf8_def utf8_nats_def)
    ultimately show ?thesis using t(1) Some
      by (simp add: piece_tokens_def spm_token_bytes_def plain_token_def Let_def str_bytes_def)
  next
    case None
    then obtain c where c: "p = [c]" using assms(4) by (cases p) auto
    have "c \<noteq> space_mark" using assms(1) None by (auto simp: c spm_accepts_def has_bytes_def str_bytes_def)
    moreover have "concat (map (spm_token_bytes ?v) (map (byte_to_token tk) bs)) = bs" for bs
      using assms(1) by (induction bs) (simp_all add: spm_accepts_def has_bytes_def)
    ultimately show ?thesis using None assms(1)
      by (auto simp: piece_tokens_def c plain_char_def spm_accepts_def has_bytes_def)
  qed
  then show "concat (map (spm_token_bytes ?v) (piece_tokens tk p)) = str_bytes (map plain_char p)"
    "\<forall>t \<in> set (piece_tokens tk p). unat t < length (sv_tokens ?v)" by blast+
qed

lemma spm_encode_bytes:
  assumes "spm_accepts tk text"
  shows "encode_spm tk text True = Some (spm_encode tk text)"
    and "concat (map (spm_token_bytes (sp_vocab tk)) (spm_encode tk text)) = str_bytes (32 # text)"
    and "\<forall>t \<in> set (spm_encode tk text). unat t < length (sv_tokens (sp_vocab tk))"
proof -
  let ?v = "sp_vocab tk" and ?cs = "normalize True text"
  have "spm_ok tk" using assms by (simp add: spm_accepts_def)
  from encode_spm_pieces [OF this, of "text" True] obtain ps where
    e: "encode_spm tk text True = Some ((if add_bos tk then [sv_bos ?v] else []) @ concat (map (piece_tokens tk) ps))"
    and ps: "concat ps = ?cs" "\<forall>p \<in> set ps. length p = 1 \<or> sp_lookup tk (str_bytes p) \<noteq> None" by auto
  then show "encode_spm tk text True = Some (spm_encode tk text)" by (simp add: spm_encode_def)
  have "valid_str ?cs" using assms by (auto simp: spm_accepts_def normalize_def space_mark_def scalar_def list_all_iff)
  then have p: "valid_str p \<and> p \<in> set (sublists ?cs)" if "p \<in> set ps" for p
  proof -
    from split_list [OF that] obtain qs rs where "ps = qs @ p # rs" by blast
    then have c: "?cs = concat qs @ p @ concat rs" using ps(1) by simp
    then have "sublist p ?cs" by (auto simp: sublist_def)
    moreover have "valid_str p" using \<open>valid_str ?cs\<close> unfolding c by simp
    ultimately show ?thesis by simp
  qed
  have "concat (map (spm_token_bytes ?v) (concat (map (piece_tokens tk) ps))) = str_bytes (map plain_char (concat ps))"
    using ps(2) p
  proof (induction ps)
    case (Cons q ps)
    then show ?case using piece_bytes_plain(1) [OF assms, of q] by simp
  qed (simp add: str_bytes_def)
  moreover have "spm_token_bytes ?v (sv_bos ?v) = []" by (simp add: spm_token_bytes_def Let_def)
  moreover have "space_mark \<notin> set text" using assms by (simp add: spm_accepts_def)
  ultimately show "concat (map (spm_token_bytes ?v) (spm_encode tk text)) = str_bytes (32 # text)"
    using e ps(1) by (simp add: spm_encode_def plain_normalize)
  show "\<forall>t \<in> set (spm_encode tk text). unat t < length (sv_tokens ?v)"
    using e ps(2) p piece_bytes_plain(2) [OF assms] assms by (auto simp: spm_encode_def spm_accepts_def)
qed

section \<open>Streaming\<close>

lemma spm_stream_rest:
  "stream_all (spm_push tk) spm_finish \<lparr>ss_pending = p, at_start = False\<rparr> ts =
     chunk_stream flush_strict p (map (spm_token_bytes (sp_vocab tk)) ts)"
  by (induction ts arbitrary: p)
     (auto simp: spm_finish_def spm_push_def Let_def flush_strict_def split: prod.splits decoded.splits)

lemma spm_stream_start:
  "valid_str s \<Longrightarrow> p @ concat (map (spm_token_bytes (sp_vocab tk)) ts) = str_bytes s \<Longrightarrow> p = [] \<or> next_char p = Cut \<Longrightarrow>
     stream_all (spm_push tk) spm_finish \<lparr>ss_pending = p, at_start = True\<rparr> ts = strip_space s"
proof (induction ts arbitrary: p)
  case Nil
  have "s = []"
  proof (cases s)
    case (Cons c s')
    then have "p = utf8 c @ str_bytes s'" "scalar c" "utf8 c \<noteq> []"
      using Nil str_bytes_Nil [of "[c]"] by (simp_all add: str_bytes_def)
    then show ?thesis using Nil(3) next_char_utf8 [of c "str_bytes s'"] by simp
  qed simp
  then show ?case using Nil by (simp add: spm_finish_def strip_space_def)
next
  case (Cons t ts)
  let ?tb = "spm_token_bytes (sp_vocab tk)"
  have "(p @ ?tb t) @ concat (map ?tb ts) = str_bytes s" using Cons.prems(2) by simp
  from valid_text_prefix [OF Cons.prems(1) this] obtain s1 s2 r where
    s: "s = s1 @ s2" "valid_prefix (p @ ?tb t) = (s1, r)" "r @ concat (map ?tb ts) = str_bytes s2" "r = [] \<or> next_char r = Cut" by blast
  show ?case
  proof (cases "s1 = []")
    case True
    then have r: "r = p @ ?tb t" using s(2) by (subst (asm) valid_prefix.simps) (auto split: decoded.splits prod.splits)
    have "spm_push tk \<lparr>ss_pending = p, at_start = True\<rparr> t = (\<lparr>ss_pending = r, at_start = True\<rparr>, [])"
      using s(2,4) True r by (auto simp: spm_push_def Let_def)
    then show ?thesis using Cons.IH [of r] Cons.prems(1) s True by simp
  next
    case False
    then have "spm_push tk \<lparr>ss_pending = p, at_start = True\<rparr> t = (\<lparr>ss_pending = r, at_start = False\<rparr>, strip_space s1)"
      using s(2) by (simp add: spm_push_def Let_def)
    moreover have "chunk_stream flush_strict r (map ?tb ts) = s2"
      using chunk_stream_strict [OF _ s(3)] Cons.prems(1) s(1) by simp
    moreover have "strip_space (s1 @ s2) = strip_space s1 @ s2" using False by (cases s1) (simp_all add: strip_space_def)
    ultimately show ?thesis using s(1) by (simp add: spm_stream_rest)
  qed
qed

interpretation spm: tokenize "spm_encode tk" "spm_decode tk" "spm_push tk" spm_finish spm_stream_decoder
  "length (sv_tokens (sp_vocab tk))" "spm_accepts tk"
proof
  fix s t
  assume a: "spm_accepts tk s"
  show "unat t < length (sv_tokens (sp_vocab tk))" if "t \<in> set (spm_encode tk s)"
    using spm_encode_bytes(3) [OF a] that by blast
  have v: "valid_str (32 # s)" using a by (simp add: spm_accepts_def scalar_def)
  show "spm_decode tk (spm_encode tk s) = Inr s"
    using lossy_str [OF v] by (simp add: spm_decode_def spm_encode_bytes(2) [OF a] strip_space_def)
  show "stream_all (spm_push tk) spm_finish spm_stream_decoder (spm_encode tk s) = s"
    using spm_stream_start [OF v, of "[]"] spm_encode_bytes(2) [OF a] by (simp add: spm_stream_decoder_def strip_space_def)
qed


text \<open>The mark, the piece \<open>ab\<close> and the 256 byte tokens.\<close>

definition toy_spm :: "bool \<Rightarrow> spm" where
  "toy_spm control = \<lparr>sp_vocab = \<lparr>sv_tokens = [[0], [space_mark], [97, 98]] @ replicate 256 [0],
      byte_value = [None, None, None] @ map (\<lambda>i. Some (of_nat i)) [0..<256],
      is_control = [False, False, control] @ replicate 256 False, sv_bos = 300, sv_eos = 301\<rparr>,
    sp_scores = replicate 259 0, sp_lookup = [str_bytes [space_mark] \<mapsto> 1, str_bytes [97, 98] \<mapsto> 2],
    byte_token_of = map (\<lambda>i. 3 + of_nat i) [0..<256], sp_unk = 0, add_bos = False\<rparr>"

lemma toy_byte: "byte_to_token (toy_spm control) b = 3 + ucast b"
  "unat (3 + ucast b :: token) = 3 + unat b"
proof -
  have b: "unat b < 256" using unsigned_less [of b] by simp
  have c: "unat (ucast b :: token) = unat b" using b by (simp add: unsigned_ucast_eq take_bit_nat_eq_self_iff)
  show u: "unat (3 + ucast b :: token) = 3 + unat b" using b by (simp add: unat_word_ariths c)
  then have "(3 + ucast b :: token) \<noteq> 0" by (metis add_is_0 unat_0 zero_neq_numeral)
  moreover have "(of_nat (unat b) :: token) = ucast b" by simp
  ultimately show "byte_to_token (toy_spm control) b = 3 + ucast b" using b by (simp add: byte_to_token_def toy_spm_def Let_def)
qed

lemma toy_chars: "str_bytes [97, 98] = [97, 98]" "str_bytes [97] = [97]" "str_bytes [98] = [98]" "str_bytes [] = []"
  "str_bytes [space_mark] = [0xE2, 0x96, 0x81]" "str_bytes [space_mark, 97] = [0xE2, 0x96, 0x81, 97]"
  "str_bytes [space_mark, 97, 98] = [0xE2, 0x96, 0x81, 97, 98]"
  "utf8 space_mark = [0xE2, 0x96, 0x81]" "utf8 97 = [97]" "utf8 98 = [98]"
  by (simp_all add: str_bytes_def utf8_def utf8_nats_def space_mark_def)

lemma toy_lookup: "sp_lookup (toy_spm control) = [[0xE2, 0x96, 0x81] \<mapsto> 1, [97, 98] \<mapsto> 2]"
  by (simp add: toy_spm_def toy_chars)

lemma toy_normalize: "normalize True [97, 98] = [space_mark, 97, 98]"
  by (simp add: normalize_def)

lemma toy_accepts: "spm_accepts (toy_spm False) [97, 98]"
proof -
  have u: "unat b < 256" for b :: u8 using unsigned_less [of b] by simp
  have "spm_ok (toy_spm False)"
    by (auto simp: spm_ok_def toy_lookup toy_chars scalar_def split: if_splits) (auto simp: toy_spm_def list_all_iff scalar_def space_mark_def utf8_def utf8_nats_def str_bytes_def)
  moreover have "3 + ucast b \<noteq> (300 :: token)" "3 + ucast b \<noteq> (301 :: token)" for b :: u8
    using toy_byte(2) [of b] u [of b] by (auto dest: arg_cong [where f = unat])
  then have "has_bytes (toy_spm False)"
    unfolding has_bytes_def toy_byte(1) spm_token_bytes_def Let_def toy_byte(2)
    using u by (simp add: toy_lookup toy_chars) (simp add: toy_spm_def nth_append not_le)
  moreover have "spells_plain (toy_spm False) (normalize True [97, 98])"
    by (simp add: spells_plain_def toy_normalize toy_lookup toy_chars) (simp add: plain_token_def toy_spm_def)
  ultimately show ?thesis by (simp add: spm_accepts_def scalar_def) (simp add: toy_spm_def space_mark_def)
qed


text \<open>Where the merges do reach a control token, what was typed is gone.\<close>

lemma spm_typed_control:
  "encode_spm (toy_spm True) [97, 98] True = Some [1, 2] \<and> spm_decode (toy_spm True) [1, 2] = Inr []"
proof
  have [simp]: "add_bos (toy_spm c) \<longleftrightarrow> False" "sp_scores (toy_spm c) = replicate 259 0" for c by (simp_all add: toy_spm_def)
  show "encode_spm (toy_spm True) [97, 98] True = Some [1, 2]"
    by (simp add: encode_spm_def toy_normalize toy_chars toy_lookup fill_heap_def try_bigram_def Let_def
      merge_loop.simps in_range_def stale_bigram_def merge_once_def merge_cells_def upd_def read_out.simps)
  have "spm_token_bytes (sp_vocab (toy_spm True)) 1 = str_bytes [32]" "spm_token_bytes (sp_vocab (toy_spm True)) 2 = []"
    by (simp_all add: spm_token_bytes_def toy_spm_def Let_def str_bytes_def utf8_def utf8_nats_def)
  then show "spm_decode (toy_spm True) [1, 2] = Inr []"
    using lossy_str [of "[32]"] by (simp add: spm_decode_def strip_space_def scalar_def)
qed

section \<open>What a file gives\<close>

lemma all_strings_Inr: "all_strings vs = Inr ss \<Longrightarrow> length ss = length vs"
  by (induction vs arbitrary: ss) (auto simp: bindE_Inr_iff split: option.splits)

lemma spm_lookup_ok:
  assumes "length tokens < 2 ^ 32"
  shows "spm_lookup tokens p = Some t \<Longrightarrow> unat t < length tokens \<and> str_bytes (tokens ! unat t) = p"
proof -
  define f where "f = (\<lambda>(i, s) m. if m (str_bytes s) \<noteq> None then m else (m(str_bytes s \<mapsto> of_nat i)) :: u8 list \<rightharpoonup> token)"
  have "fold f es m p = Some t \<Longrightarrow> \<forall>(i, s) \<in> set es. i < length tokens \<and> tokens ! i = s \<Longrightarrow>
      (\<forall>v. m p = Some v \<longrightarrow> unat v < length tokens \<and> str_bytes (tokens ! unat v) = p) \<Longrightarrow>
      unat t < length tokens \<and> str_bytes (tokens ! unat t) = p" for es m
  proof (induction es arbitrary: m)
    case (Cons e es)
    obtain i s where e: "e = (i, s)" by fastforce
    have "unat (of_nat i :: token) = i" using Cons.prems(2) assms by (simp add: e unat_of_nat)
    then have "\<forall>v. f e m p = Some v \<longrightarrow> unat v < length tokens \<and> str_bytes (tokens ! unat v) = p"
      using Cons.prems(2,3) by (auto simp: e f_def)
    then show ?case using Cons by simp
  qed simp
  note step = this
  have "\<forall>(i, s) \<in> set (enumerate 0 tokens). i < length tokens \<and> tokens ! i = s" by (auto simp: in_set_enumerate_eq)
  from step [OF _ this, of Map.empty] show "spm_lookup tokens p = Some t \<Longrightarrow> unat t < length tokens \<and> str_bytes (tokens ! unat t) = p"
    unfolding spm_lookup_def f_def by simp
qed

lemma spm_from_gguf_ok:
  assumes "spm_from_gguf C g = Inr tk" and "length (sv_tokens (sp_vocab tk)) < 2 ^ 32" and "list_all valid_str (sv_tokens (sp_vocab tk))"
  shows "spm_ok tk"
proof -
  have "sp_lookup tk = spm_lookup (sv_tokens (sp_vocab tk))" "length (sp_scores tk) = length (sv_tokens (sp_vocab tk))"
    using assms(1) by (auto simp: spm_from_gguf_def bindE_Inr_iff Let_def split: if_splits option.splits)
  then show ?thesis using spm_lookup_ok [OF assms(2)] assms(3) by (auto simp: spm_ok_def)
qed

end
