(* ===== verification/Quant.thy ===== *)
theory Quant
  imports Simd Gguf
begin

text \<open>
  \<open>garuda/src/quant/mod.rs\<close>: the packed weight formats. A float is a value of \<open>'f\<close> with the operations
  of \<open>qmath\<close>; the packed integers are machine words at the widths of the code. The decoders write a
  buffer front to back or in strides; here they give its contents in order. The loops over a super-block
  carry a sub-block counter, a shift and a mask along; here they are computed from the loop indices.
  \<open>None\<close> is a panic (chunks of size zero). A byte size wraps at 64 bits, as it does in a release build.
\<close>

unbundle bit_operations_syntax

record 'f qmath = "'f fops" +
  f_int :: "int \<Rightarrow> 'f"
  f_bits :: "f32 \<Rightarrow> 'f"
  f_neg :: "'f \<Rightarrow> 'f"
  f_abs :: "'f \<Rightarrow> 'f"
  f_pow2 :: "int \<Rightarrow> 'f"
  f_infinity :: 'f
  f_nan :: 'f
  round_i8 :: "'f \<Rightarrow> 8 word"

section \<open>Layouts\<close>

definition block_layout :: "u32 \<Rightarrow> (nat \<times> nat) option" where
  "block_layout t =
     (if t = 0 then Some (1, 4)
      else if t = 1 then Some (1, 2)
      else if t = 2 then Some (32, 18)
      else if t = 8 then Some (32, 34)
      else if t = 10 then Some (256, 84)
      else if t = 11 then Some (256, 110)
      else if t = 12 then Some (256, 144)
      else if t = 13 then Some (256, 176)
      else if t = 14 then Some (256, 210)
      else None)"

definition is_supported :: "u32 \<Rightarrow> bool" where
  "is_supported t \<longleftrightarrow> block_layout t \<noteq> None"

definition unsupported :: "u32 \<Rightarrow> garuda_error" where
  "unsupported t = Model ''tensor type {} ({ggml_type}) is not supported''"

definition byte_size :: "u32 \<Rightarrow> nat \<Rightarrow> nat res" where
  "byte_size t n = (case block_layout t of
     None \<Rightarrow> Inl (unsupported t)
   | Some (elems, bytes) \<Rightarrow>
       if n mod elems \<noteq> 0 then Inl (Model ''{} tensor has {n} elements, not a multiple of the block size {elems}'')
       else Inr (n div elems * bytes mod 2 ^ 64))"

section \<open>Decoding\<close>

definition f16_to_f32 :: "('f, 'z) qmath_scheme \<Rightarrow> 16 word \<Rightarrow> 'f" where
  "f16_to_f32 F h =
     (let sign = drop_bit 15 h AND 1; e = drop_bit 10 h AND 0x1F; mant = h AND 0x3FF;
          val = (if e = 0 \<and> mant = 0 then fzero F
                 else if e = 0 then fmul F (f_int F (uint mant)) (f_pow2 F (-24))
                 else if e = 0x1F \<and> mant = 0 then f_infinity F
                 else if e = 0x1F then f_nan F
                 else fmul F (fadd F (fone F) (fdiv F (f_int F (uint mant)) (f_int F 1024))) (f_pow2 F (uint e - 15)))
      in if sign = 1 then f_neg F val else val)"

definition half_at :: "('f, 'z) qmath_scheme \<Rightarrow> u8 list \<Rightarrow> nat \<Rightarrow> 'f" where
  "half_at F block i = f16_to_f32 F (le_word (take 2 (drop i block)))"

definition dequant_q8_0 :: "('f, 'z) qmath_scheme \<Rightarrow> u8 list \<Rightarrow> 'f list" where
  "dequant_q8_0 F raw =
     concat (map (\<lambda>block. let scale = half_at F block 0 in map (\<lambda>q. fmul F scale (f_int F (sint q))) (drop 2 block))
       (chunks_exact 34 raw))"

definition dequant_q4_0 :: "('f, 'z) qmath_scheme \<Rightarrow> u8 list \<Rightarrow> 'f list" where
  "dequant_q4_0 F raw =
     concat (map (\<lambda>block. let scale = half_at F block 0 in
         map (\<lambda>byte. fmul F scale (f_int F (uint (byte AND 0x0F) - 8))) (drop 2 block) @
         map (\<lambda>byte. fmul F scale (f_int F (uint (drop_bit 4 byte) - 8))) (drop 2 block))
       (chunks_exact 18 raw))"

definition get_scale_min_k4 :: "nat \<Rightarrow> u8 list \<Rightarrow> u8 \<times> u8" where
  "get_scale_min_k4 j s =
     (if j < 4 then (s ! j AND 63, s ! (j + 4) AND 63)
      else ((s ! (j + 4) AND 0x0F) OR push_bit 4 (drop_bit 6 (s ! (j - 4))),
            drop_bit 4 (s ! (j + 4)) OR push_bit 4 (drop_bit 6 (s ! j))))"

definition dequant_q4_k :: "('f, 'z) qmath_scheme \<Rightarrow> u8 list \<Rightarrow> 'f list" where
  "dequant_q4_k F raw =
     concat (map (\<lambda>block.
       let d = half_at F block 0; dmin = half_at F block 2; scales = take 12 (drop 4 block); qs = drop 16 block in
       concat (map (\<lambda>g.
         let chunk = take 32 (drop (32 * g) qs);
             (sc1, m1) = get_scale_min_k4 (2 * g) scales; (sc2, m2) = get_scale_min_k4 (2 * g + 1) scales;
             d1 = fmul F d (f_int F (uint sc1)); mn1 = fmul F dmin (f_int F (uint m1));
             d2 = fmul F d (f_int F (uint sc2)); mn2 = fmul F dmin (f_int F (uint m2))
         in map (\<lambda>q. fsub F (fmul F d1 (f_int F (uint (q AND 0x0F)))) mn1) chunk @
            map (\<lambda>q. fsub F (fmul F d2 (f_int F (uint (drop_bit 4 q)))) mn2) chunk) [0..<4]))
       (chunks_exact 144 raw))"

definition dequant_q5_k :: "('f, 'z) qmath_scheme \<Rightarrow> u8 list \<Rightarrow> 'f list" where
  "dequant_q5_k F raw =
     concat (map (\<lambda>block.
       let d = half_at F block 0; dmin = half_at F block 2; scales = take 12 (drop 4 block);
           qh = take 32 (drop 16 block); qs = drop 48 block in
       concat (map (\<lambda>g.
         let ql = take 32 (drop (32 * g) qs); u1 = push_bit (2 * g) (1 :: u8); u2 = push_bit (2 * g) (2 :: u8);
             (sc1, m1) = get_scale_min_k4 (2 * g) scales; (sc2, m2) = get_scale_min_k4 (2 * g + 1) scales;
             d1 = fmul F d (f_int F (uint sc1)); mn1 = fmul F dmin (f_int F (uint m1));
             d2 = fmul F d (f_int F (uint sc2)); mn2 = fmul F dmin (f_int F (uint m2))
         in map (\<lambda>l. fsub F (fmul F d1 (f_int F (uint (ql ! l AND 0x0F) + (if qh ! l AND u1 \<noteq> 0 then 16 else 0)))) mn1) [0..<32] @
            map (\<lambda>l. fsub F (fmul F d2 (f_int F (uint (drop_bit 4 (ql ! l)) + (if qh ! l AND u2 \<noteq> 0 then 16 else 0)))) mn2) [0..<32])
         [0..<4]))
       (chunks_exact 176 raw))"

text \<open>The sixteen sub-blocks of \<open>Q2_K\<close> and \<open>Q3_K\<close>, as the nested loops visit them: the half, the step
  within it, and which 16 of its 32 bytes.\<close>

definition k_steps :: "(nat \<times> nat \<times> nat) list" where
  "k_steps = concat (map (\<lambda>half. concat (map (\<lambda>j. map (\<lambda>offset. (half, j, offset)) [0, 16]) [0..<4])) [0..<2])"

definition sub_index :: "nat \<times> nat \<times> nat \<Rightarrow> nat" where
  "sub_index st = (case st of (half, j, offset) \<Rightarrow> 8 * half + 2 * j + offset div 16)"

definition dequant_q2_k :: "('f, 'z) qmath_scheme \<Rightarrow> u8 list \<Rightarrow> 'f list" where
  "dequant_q2_k F raw =
     concat (map (\<lambda>block.
       let scales = take 16 block; qs = take 64 (drop 16 block); d = half_at F block 80; dmin = half_at F block 82 in
       concat (map (\<lambda>(half, j, offset).
         let q = take 32 (drop (32 * half) qs); sc = scales ! sub_index (half, j, offset);
             dl = fmul F d (f_int F (uint (sc AND 0x0F))); ml = fmul F dmin (f_int F (uint (drop_bit 4 sc)))
         in map (\<lambda>qv. fsub F (fmul F dl (f_int F (uint (drop_bit (2 * j) qv AND 3)))) ml) (take 16 (drop offset q)))
         k_steps))
       (chunks_exact 84 raw))"

text \<open>Sixteen six-bit scales in three words.\<close>

definition unpack_q3_k_scales :: "u8 list \<Rightarrow> 8 word list" where
  "unpack_q3_k_scales bs =
     (let a0 = le_word (take 4 bs) :: u32; a1 = le_word (take 4 (drop 4 bs)); tmp = le_word (take 4 (drop 8 bs));
          kmask1 = 0x03030303; kmask2 = 0x0F0F0F0F;
          aux2 = (drop_bit 4 a0 AND kmask2) OR push_bit 4 (drop_bit 4 tmp AND kmask1);
          aux3 = (drop_bit 4 a1 AND kmask2) OR push_bit 4 (drop_bit 6 tmp AND kmask1);
          aux0 = (a0 AND kmask2) OR push_bit 4 (tmp AND kmask1);
          aux1 = (a1 AND kmask2) OR push_bit 4 (drop_bit 2 tmp AND kmask1)
      in concat (map (le_bytes 4) [aux0, aux1, aux2, aux3]))"

definition dequant_q3_k :: "('f, 'z) qmath_scheme \<Rightarrow> u8 list \<Rightarrow> 'f list" where
  "dequant_q3_k F raw =
     concat (map (\<lambda>block.
       let hmask = take 32 block; qs = take 64 (drop 32 block); scales = unpack_q3_k_scales (take 12 (drop 96 block));
           d_all = half_at F block 108 in
       concat (map (\<lambda>(half, j, offset).
         let q = take 32 (drop (32 * half) qs); m = push_bit (4 * half + j) (1 :: u8);
             dl = fmul F d_all (f_int F (sint (scales ! sub_index (half, j, offset)) - 32))
         in map (\<lambda>l. let hbit = (if hmask ! (l + offset) AND m \<noteq> 0 then 0 else 4)
                     in fmul F dl (f_int F (uint (drop_bit (2 * j) (q ! (l + offset)) AND 3) - hbit))) [0..<16])
         k_steps))
       (chunks_exact 110 raw))"

definition q6_bits :: "u8 list \<Rightarrow> u8 list \<Rightarrow> nat \<Rightarrow> nat \<Rightarrow> u8" where
  "q6_bits ql qh k l =
     (if k = 0 then (ql ! l AND 0x0F) OR push_bit 4 (qh ! l AND 3)
      else if k = 1 then (ql ! (l + 32) AND 0x0F) OR push_bit 4 (drop_bit 2 (qh ! l) AND 3)
      else if k = 2 then drop_bit 4 (ql ! l) OR push_bit 4 (drop_bit 4 (qh ! l) AND 3)
      else drop_bit 4 (ql ! (l + 32)) OR push_bit 4 (drop_bit 6 (qh ! l) AND 3))"

definition dequant_q6_k :: "('f, 'z) qmath_scheme \<Rightarrow> u8 list \<Rightarrow> 'f list" where
  "dequant_q6_k F raw =
     concat (map (\<lambda>block.
       let d = half_at F block 208 in
       concat (map (\<lambda>half.
         let ql = drop (half * 64) (take 128 block); qh = drop (half * 32) (take 64 (drop 128 block));
             sc = drop (half * 8) (take 16 (drop 192 block))
         in concat (map (\<lambda>k. map (\<lambda>l.
              fmul F (fmul F d (f_int F (sint (sc ! (l div 16 + 2 * k))))) (f_int F (uint (q6_bits ql qh k l) - 32)))
              [0..<32]) [0..<4]))
         [0..<2]))
       (chunks_exact 210 raw))"

definition dequant_into :: "('f, 'z) qmath_scheme \<Rightarrow> u32 \<Rightarrow> u8 list \<Rightarrow> nat \<Rightarrow> 'f list res" where
  "dequant_into F t raw n = bindE (byte_size t n) (\<lambda>expected.
     if length raw \<noteq> expected then Inl (Model ''{} tensor: expected {expected} bytes for {n} elements, got {}'')
     else if t = 0 then Inr (map (\<lambda>c. f_bits F (le_word c)) (chunks_exact 4 raw))
     else if t = 1 then Inr (map (\<lambda>c. f16_to_f32 F (le_word c)) (chunks_exact 2 raw))
     else if t = 8 then Inr (dequant_q8_0 F raw)
     else if t = 2 then Inr (dequant_q4_0 F raw)
     else if t = 10 then Inr (dequant_q2_k F raw)
     else if t = 11 then Inr (dequant_q3_k F raw)
     else if t = 12 then Inr (dequant_q4_k F raw)
     else if t = 13 then Inr (dequant_q5_k F raw)
     else if t = 14 then Inr (dequant_q6_k F raw)
     else Inl (unsupported t))"

definition dequantize :: "('f, 'z) qmath_scheme \<Rightarrow> u32 \<Rightarrow> u8 list \<Rightarrow> nat \<Rightarrow> 'f list res" where
  "dequantize F t raw n = bindE (dequant_into F t raw n) (\<lambda>out.
     if \<exists>v \<in> set out. \<not> ffinite F v then Inl (Model ''{} tensor produced a non-finite value at index {bad}'') else Inr out)"

definition tensor_f32 :: "('f, 'z) qmath_scheme \<Rightarrow> gguf \<Rightarrow> u8 list \<Rightarrow> ustring \<Rightarrow> 'f list res" where
  "tensor_f32 F g bs name = (case gguf_tensor g name of
     None \<Rightarrow> Inl (bad ''tensor '{name}' not found'')
   | Some t \<Rightarrow>
       let n = unat (n_elements t) in
       case byte_size (ggml_type t) n of
         Inl e \<Rightarrow> Inl (bad ''tensor '{name}': {e}'')
       | Inr nbytes \<Rightarrow>
           let start = data_offset g + unat (ti_offset t) in
           if start \<ge> 2 ^ 64 then Inl (bad ''tensor offset overflow'')
           else if start + nbytes \<ge> 2 ^ 64 then Inl (bad ''tensor length overflow'')
           else if start + nbytes > length bs then Inl (bad ''tensor '{name}' runs past the end of the file'')
           else case dequantize F (ggml_type t) (take nbytes (drop start bs)) n of
             Inl e \<Rightarrow> Inl (bad ''tensor '{name}': {e}'') | Inr out \<Rightarrow> Inr out)"

section \<open>Integer kernels\<close>

definition quantize_block :: "('f, 'z) qmath_scheme \<Rightarrow> 'f list \<Rightarrow> 8 word list \<times> 'f" where
  "quantize_block F blk =
     (let amax = foldl (\<lambda>m v. fmax F m (f_abs F v)) (fzero F) blk; scale = fdiv F amax (f_int F 127);
          inv = (if flt F (fzero F) scale then fdiv F (fone F) scale else fzero F)
      in (map (\<lambda>v. round_i8 F (fmul F v inv)) blk, scale))"

definition quantize_activation :: "('f, 'z) qmath_scheme \<Rightarrow> 'f list \<Rightarrow> 8 word list \<times> 'f list" where
  "quantize_activation F x =
     (let bs = map (quantize_block F) (chunks_exact 32 x)
      in (concat (map fst bs) @ replicate (length x mod 32) 0, map snd bs))"

definition block_sums :: "8 word list \<Rightarrow> nat \<Rightarrow> 32 word list" where
  "block_sums xq width = map (\<lambda>blk. foldl (\<lambda>s v. s + scast v) 0 blk) (chunks_exact width xq)"

definition sum_width :: "u32 \<Rightarrow> nat option" where
  "sum_width t = (if t = 12 \<or> t = 13 then Some 32 else if t = 10 then Some 16 else None)"

definition has_int8_kernel :: "u32 \<Rightarrow> bool" where
  "has_int8_kernel t \<longleftrightarrow> t \<in> {8, 10, 11, 12, 13, 14}"

text \<open>The product of some packed weights with the stretch of the activation that starts at \<open>off\<close>.\<close>

definition dot_at :: "('f, 'z) qmath_scheme \<Rightarrow> 8 word list \<Rightarrow> 8 word list \<Rightarrow> nat \<Rightarrow> 'f" where
  "dot_at F q xq off = f_int F (sint (dot_i8_scalar q (take (length q) (drop off xq))))"

definition q8_0_dot :: "('f, 'z) qmath_scheme \<Rightarrow> u8 list \<Rightarrow> 8 word list \<Rightarrow> 'f list \<Rightarrow> 'f" where
  "q8_0_dot F row xq xs =
     foldl (\<lambda>sum (b, blk). fadd F sum (fmul F (fmul F (half_at F blk 0) (xs ! b)) (dot_at F (drop 2 blk) xq (b * 32))))
       (fzero F) (enumerate 0 (chunks_exact 34 row))"

definition q6_quants :: "u8 list \<Rightarrow> 8 word list" where
  "q6_quants block =
     concat (map (\<lambda>half.
       let ql = take 64 (drop (half * 64) block); qh = take 32 (drop (128 + half * 32) block)
       in concat (map (\<lambda>k. map (\<lambda>l. q6_bits ql qh k l - 32) [0..<32]) [0..<4])) [0..<2])"

definition q6_k_dot :: "('f, 'z) qmath_scheme \<Rightarrow> u8 list \<Rightarrow> 8 word list \<Rightarrow> 'f list \<Rightarrow> 'f" where
  "q6_k_dot F row xq xs =
     foldl (\<lambda>acc (bi, block).
       let d = half_at F block 208; q = q6_quants block in
       foldl (\<lambda>acc (s, scale). let off = bi * 256 + s * 16 in
           fadd F acc (fmul F (fmul F (fmul F (xs ! (off div 32)) d) (f_int F (sint scale)))
                        (dot_at F (take 16 (drop (s * 16) q)) xq off)))
         acc (enumerate 0 (take 16 (drop 192 block))))
       (fzero F) (enumerate 0 (chunks_exact 210 row))"

text \<open>A sub-block of an affine type: scale, minimum, quants.\<close>

definition affine_term :: "('f, 'z) qmath_scheme \<Rightarrow> 'f \<Rightarrow> 'f \<Rightarrow> u8 \<times> u8 \<Rightarrow> 8 word list \<Rightarrow> 8 word list \<Rightarrow> 'f list \<Rightarrow> 32 word list \<Rightarrow> nat \<Rightarrow> 'f" where
  "affine_term F d dmin scm q xq xs sums sb = (case scm of (sc, m) \<Rightarrow>
     fmul F (xs ! sb) (fsub F (fmul F (fmul F d (f_int F (uint sc))) (dot_at F q xq (sb * 32)))
                              (fmul F (fmul F dmin (f_int F (uint m))) (f_int F (sint (sums ! sb))))))"

definition q5_k_dot :: "('f, 'z) qmath_scheme \<Rightarrow> u8 list \<Rightarrow> 8 word list \<Rightarrow> 'f list \<Rightarrow> 32 word list \<Rightarrow> 'f" where
  "q5_k_dot F row xq xs sums =
     foldl (\<lambda>acc (bi, block).
       let d = half_at F block 0; dmin = half_at F block 2; scales = take 12 (drop 4 block);
           qh = take 32 (drop 16 block); qs = take 128 (drop 48 block) in
       foldl (\<lambda>acc g.
         let ql = take 32 (drop (g * 32) qs); u1 = push_bit (2 * g) (1 :: u8); u2 = push_bit (2 * g) (2 :: u8);
             q1 = map (\<lambda>l. (ql ! l AND 0x0F) OR (if qh ! l AND u1 \<noteq> 0 then 16 else 0)) [0..<32];
             q2 = map (\<lambda>l. drop_bit 4 (ql ! l) OR (if qh ! l AND u2 \<noteq> 0 then 16 else 0)) [0..<32];
             sb = bi * 8 + 2 * g;
             acc1 = fadd F acc (affine_term F d dmin (get_scale_min_k4 (2 * g) scales) q1 xq xs sums sb)
         in fadd F acc1 (affine_term F d dmin (get_scale_min_k4 (2 * g + 1) scales) q2 xq xs sums (sb + 1)))
         acc [0..<4])
       (fzero F) (enumerate 0 (chunks_exact 176 row))"

definition q4_k_dot :: "('f, 'z) qmath_scheme \<Rightarrow> u8 list \<Rightarrow> 8 word list \<Rightarrow> 'f list \<Rightarrow> 32 word list \<Rightarrow> 'f" where
  "q4_k_dot F row xq xs sums =
     foldl (\<lambda>acc (bi, block).
       let d = half_at F block 0; dmin = half_at F block 2; scales = take 12 (drop 4 block); qs = take 128 (drop 16 block) in
       foldl (\<lambda>acc (g, chunk).
         let qlo = map (\<lambda>byte. byte AND 0x0F) chunk; qhi = map (\<lambda>byte. drop_bit 4 byte) chunk;
             sb = bi * 8 + 2 * g;
             acc1 = fadd F acc (affine_term F d dmin (get_scale_min_k4 (2 * g) scales) qlo xq xs sums sb)
         in fadd F acc1 (affine_term F d dmin (get_scale_min_k4 (2 * g + 1) scales) qhi xq xs sums (sb + 1)))
         acc (enumerate 0 (chunks_exact 32 qs)))
       (fzero F) (enumerate 0 (chunks_exact 144 row))"

definition q3_k_dot :: "('f, 'z) qmath_scheme \<Rightarrow> u8 list \<Rightarrow> 8 word list \<Rightarrow> 'f list \<Rightarrow> 'f" where
  "q3_k_dot F row xq xs =
     foldl (\<lambda>acc (bi, block).
       let hmask = take 32 block; qs = take 64 (drop 32 block); d_all = half_at F block 108;
           scales = unpack_q3_k_scales (take 12 (drop 96 block)) in
       foldl (\<lambda>acc (half, j, offset).
         let qh = take 32 (drop (half * 32) qs); m = push_bit (4 * half + j) (1 :: u8);
             is = sub_index (half, j, offset);
             dl = fmul F d_all (f_int F (sint (scales ! is) - 32));
             q = map (\<lambda>l. (drop_bit (2 * j) (qh ! (l + offset)) AND 3) - (if hmask ! (l + offset) AND m \<noteq> 0 then 0 else 4)) [0..<16];
             off = (bi * 16 + is) * 16
         in fadd F acc (fmul F (fmul F (xs ! (off div 32)) dl) (dot_at F q xq off)))
         acc k_steps)
       (fzero F) (enumerate 0 (chunks_exact 110 row))"

definition q2_k_dot :: "('f, 'z) qmath_scheme \<Rightarrow> u8 list \<Rightarrow> 8 word list \<Rightarrow> 'f list \<Rightarrow> 32 word list \<Rightarrow> 'f" where
  "q2_k_dot F row xq xs sums16 =
     foldl (\<lambda>acc (bi, block).
       let scales = take 16 block; qs = take 64 (drop 16 block); d = half_at F block 80; dmin = half_at F block 82 in
       foldl (\<lambda>acc (half, j, offset).
         let qb = take 32 (drop (half * 32) qs); is = sub_index (half, j, offset); sc = scales ! is;
             dl = fmul F d (f_int F (uint (sc AND 0x0F))); ml = fmul F dmin (f_int F (uint (drop_bit 4 sc)));
             q = map (\<lambda>l. drop_bit (2 * j) (qb ! (l + offset)) AND 3) [0..<16];
             sb = bi * 16 + is; off = sb * 16
         in fadd F acc (fmul F (xs ! (off div 32))
              (fsub F (fmul F dl (dot_at F q xq off)) (fmul F ml (f_int F (sint (sums16 ! sb)))))))
         acc k_steps)
       (fzero F) (enumerate 0 (chunks_exact 84 row))"

text \<open>\<open>None\<close> is a panic: sums that an affine type needs are missing, or no kernel for the type.\<close>

definition int8_dot :: "('f, 'z) qmath_scheme \<Rightarrow> u32 \<Rightarrow> u8 list \<Rightarrow> 8 word list \<Rightarrow> 'f list \<Rightarrow> 32 word list option \<Rightarrow> 'f option" where
  "int8_dot F t row xq xs sums =
     (if t = 8 then Some (q8_0_dot F row xq xs)
      else if t = 10 then map_option (q2_k_dot F row xq xs) sums
      else if t = 11 then Some (q3_k_dot F row xq xs)
      else if t = 12 then map_option (q4_k_dot F row xq xs) sums
      else if t = 13 then map_option (q5_k_dot F row xq xs) sums
      else if t = 14 then Some (q6_k_dot F row xq xs)
      else None)"

text \<open>Integers in place of floats, where the formats' own arithmetic is exact.\<close>

definition int_q :: "int qmath" where
  "int_q = \<lparr>fzero = 0, fone = 1, neg_infinity = 0, flt = (<), fle = (\<le>), ffinite = (\<lambda>_. True),
     fadd = (+), fsub = (-), fmul = (*), fdiv = (div), fmin = min, fmax = max, softmax = (\<lambda>x. x), unit_of = uint,
     f_int = id, f_bits = uint, f_neg = uminus, f_abs = abs, f_pow2 = (\<lambda>e. 2 ^ nat e), f_infinity = 0, f_nan = 0,
     round_i8 = word_of_int\<rparr>"

text \<open>A tensor that declares 2 ^ 62 floats needs no bytes: the product of its size wraps to zero.\<close>

lemma byte_size_wraps: "byte_size 0 (2 ^ 62) = Inr 0"
  by (simp add: byte_size_def block_layout_def)

text \<open>What \<open>dequantize\<close> accepts is finite throughout.\<close>

lemma dequantize_finite: "dequantize F t raw n = Inr out \<Longrightarrow> v \<in> set out \<Longrightarrow> ffinite F v"
  by (auto simp: dequantize_def bindE_Inr_iff split: if_splits)

end
