(* ===== verification/QuantMatmul.thy ===== *)
theory QuantMatmul
  imports Quant
begin

text \<open>
  \<open>garuda/src/quant/mod.rs\<close>: products of packed matrices with one vector (\<open>matvec\<close>) and with a batch
  (\<open>matmul\<close>), each row as its thread computes it. \<open>None\<close> is a panic.
\<close>

fun all_some :: "'a option list \<Rightarrow> 'a list option" where
  "all_some [] = Some []"
| "all_some (x # xs) = Option.bind x (\<lambda>y. map_option (Cons y) (all_some xs))"

fun each_res :: "('a \<Rightarrow> 'b res) \<Rightarrow> 'a list \<Rightarrow> 'b list res" where
  "each_res f [] = Inr []"
| "each_res f (x # xs) = bindE (f x) (\<lambda>y. bindE (each_res f xs) (\<lambda>ys. Inr (y # ys)))"

definition matvec_int8 :: "('f, 'z) qmath_scheme \<Rightarrow> u32 \<Rightarrow> u8 list \<Rightarrow> nat \<Rightarrow> 'f list \<Rightarrow> 'f list option" where
  "matvec_int8 F t weight cols x =
     (case quantize_activation F x of (xq, xs) \<Rightarrow>
       let sums = map_option (block_sums xq) (sum_width t);
           row_bytes = (case block_layout t of Some (elems, bytes) \<Rightarrow> bytes * (cols div elems) | None \<Rightarrow> 0)
       in if row_bytes = 0 then None
          else all_some (map (\<lambda>row. int8_dot F t row xq xs sums) (chunks_exact row_bytes weight)))"

definition quant_matvec :: "('f, 'z) qmath_scheme \<Rightarrow> u32 \<Rightarrow> u8 list \<Rightarrow> nat \<Rightarrow> nat \<Rightarrow> 'f list \<Rightarrow> nat \<Rightarrow> 'f list res option" where
  "quant_matvec F t weight rows cols x n_out = (case byte_size t cols of
     Inl e \<Rightarrow> Some (Inl e)
   | Inr row_bytes \<Rightarrow>
       if length weight \<noteq> rows * row_bytes
       then Some (Inl (Model ''{} matvec: weight is {} bytes, expected {} ({rows} rows x {row_bytes})''))
       else if length x \<noteq> cols \<or> n_out \<noteq> rows
       then Some (Inl (Inference ''matvec dimension mismatch: x={}, out={}, expected cols={cols}, rows={rows}''))
       else if has_int8_kernel t then map_option Inr (matvec_int8 F t weight cols x)
       else if row_bytes = 0 then None
       else Some (each_res (\<lambda>row. bindE (dequant_into F t row cols) (\<lambda>buf. Inr (dot F buf x)))
                    (chunks_exact row_bytes weight)))"

definition quantize_activations :: "('f, 'z) qmath_scheme \<Rightarrow> 'f list \<Rightarrow> nat \<Rightarrow> nat \<Rightarrow> 8 word list \<times> 'f list" where
  "quantize_activations F xs n cols =
     (let qs = map (\<lambda>b. quantize_activation F (take cols (drop (b * cols) xs))) [0..<n]
      in (concat (map fst qs), concat (map snd qs)))"

text \<open>One decoded row against every vector of the batch.\<close>

definition int8_row :: "('f, 'z) qmath_scheme \<Rightarrow> u32 \<Rightarrow> 8 word list \<Rightarrow> 'f list \<Rightarrow> nat \<Rightarrow> nat \<Rightarrow> u8 list \<Rightarrow> 'f list option" where
  "int8_row F t xq scales cols n row =
     (let sums = map_option (\<lambda>w. (w, block_sums xq w)) (sum_width t); blocks = cols div 32 in
      all_some (map (\<lambda>b.
        int8_dot F t row (take cols (drop (b * cols) xq)) (take blocks (drop (b * blocks) scales))
          (map_option (\<lambda>(w, s). take (cols div w) (drop (b * (cols div w)) s)) sums)) [0..<n]))"

definition quant_matmul :: "('f, 'z) qmath_scheme \<Rightarrow> u32 \<Rightarrow> u8 list \<Rightarrow> nat \<Rightarrow> nat \<Rightarrow> 'f list \<Rightarrow> nat \<Rightarrow> 'f list \<Rightarrow> 'f list res option" where
  "quant_matmul F t weight rows cols xs n out =
     (if n = 1 then quant_matvec F t weight rows cols xs (length out)
      else case byte_size t cols of
        Inl e \<Rightarrow> Some (Inl e)
      | Inr row_bytes \<Rightarrow>
          if length weight \<noteq> rows * row_bytes
          then Some (Inl (Model ''{} matmul: weight is {} bytes, expected {} ({rows} rows x {row_bytes})''))
          else if length xs \<noteq> n * cols \<or> length out \<noteq> n * rows
          then Some (Inl (Inference ''matmul dimension mismatch: xs={}, out={}, expected {} and {}''))
          else if n = 0 \<or> row_bytes = 0 then None
          else
            let ch = chunks_exact row_bytes weight;
                by_row = (if has_int8_kernel t
                          then (case quantize_activations F xs n cols of (xq, scales) \<Rightarrow>
                                  map_option Inr (all_some (map (int8_row F t xq scales cols n) ch)))
                          else Some (each_res (\<lambda>row. bindE (dequant_into F t row cols) (\<lambda>buf.
                                  Inr (map (\<lambda>b. dot F buf (take cols (drop (b * cols) xs))) [0..<n]))) ch))
            in map_option (\<lambda>r. bindE r (\<lambda>ds. Inr (foldl (scatter_row rows) out (enumerate 0 ds)))) by_row)"

section \<open>A batch is its vectors\<close>

lemma all_some_map: "(\<And>x. x \<in> set xs \<Longrightarrow> f x = Some (g x)) \<Longrightarrow> all_some (map f xs) = Some (map g xs)"
  by (induction xs) simp_all

lemma each_res_map: "(\<And>x. x \<in> set xs \<Longrightarrow> f x = Inr (g x)) \<Longrightarrow> each_res f xs = Inr (map g xs)"
  by (induction xs) simp_all

lemma take_drop_concat_map:
  assumes "\<And>b. b < n \<Longrightarrow> length (f b) = k" and "b < n"
  shows "take k (drop (b * k) (concat (map f [0..<n]))) = f b"
  using assms
proof (induction n arbitrary: b f)
  case (Suc n)
  have "[0..<Suc n] = 0 # map Suc [0..<n]" by (simp add: upt_conv_Cons map_Suc_upt)
  then have c: "concat (map f [0..<Suc n]) = f 0 @ concat (map (\<lambda>i. f (Suc i)) [0..<n])" by (simp add: o_def)
  show ?case
  proof (cases b)
    case 0
    then show ?thesis using Suc.prems(1) [of 0] c by simp
  next
    case (Suc b')
    have "take k (drop (b' * k) (concat (map (\<lambda>i. f (Suc i)) [0..<n]))) = f (Suc b')"
      using Suc.prems Suc by (intro Suc.IH) simp_all
    then show ?thesis using Suc.prems(1) [of 0] c Suc by simp
  qed
qed simp

lemma chunks_exact_append_whole:
  assumes "0 < w" and "w dvd length xs"
  shows "chunks_exact w (xs @ ys) = chunks_exact w xs @ chunks_exact w ys"
proof -
  obtain k where "length xs = k * w" using assms(2) by (metis dvd_def mult.commute)
  then show ?thesis
  proof (induction k arbitrary: xs)
    case (Suc k)
    then have "xs = take w xs @ drop w xs" "length (take w xs) = w" "length (drop w xs) = k * w" by simp_all
    then show ?case using Suc.IH [of "drop w xs"] chunks_exact_append [OF assms(1)]
      by (metis append.assoc append_Cons)
  qed simp
qed

lemma block_sums_concat:
  assumes "0 < w" and "\<forall>q \<in> set qs. w dvd length q"
  shows "block_sums (concat qs) w = concat (map (\<lambda>q. block_sums q w) qs)"
  using assms(2)
  by (induction qs) (simp_all add: block_sums_def chunks_exact_append_whole [OF assms(1)])

lemma length_chunks_exact: "0 < w \<Longrightarrow> length (chunks_exact w xs) = length xs div w"
proof (induction "length xs" arbitrary: xs rule: less_induct)
  case less
  show ?case
  proof (cases "length xs < w")
    case False
    then show ?thesis using less.hyps [of "drop w xs"] less.prems
      by (simp add: chunks_exact.simps [of w xs] le_div_geq)
  qed (simp add: chunks_exact.simps)
qed

lemma quantize_activation_lengths:
  "length (fst (quantize_activation F x)) = length x" "length (snd (quantize_activation F x)) = length x div 32"
proof -
  have "length c = 32" if "c \<in> set (chunks_exact 32 x)" for c
    using that by (induction "32 :: nat" x rule: chunks_exact.induct) (subst (asm) (2) chunks_exact.simps, auto split: if_splits)
  then have "(\<Sum>c \<leftarrow> chunks_exact 32 x. length (fst (quantize_block F c))) = (\<Sum>c \<leftarrow> chunks_exact 32 x. 32)"
    by (intro arg_cong [where f = sum_list] map_cong) (simp_all add: quantize_block_def Let_def)
  then have "length (concat (map fst (map (quantize_block F) (chunks_exact 32 x)))) = 32 * (length x div 32)"
    by (simp add: length_concat o_def sum_list_triv length_chunks_exact)
  then show "length (fst (quantize_activation F x)) = length x" "length (snd (quantize_activation F x)) = length x div 32"
    by (simp_all add: quantize_activation_def Let_def length_chunks_exact)
qed

lemma byte_size_cases:
  "byte_size t n = Inr k \<Longrightarrow> \<exists>elems bytes. block_layout t = Some (elems, bytes) \<and> n mod elems = 0 \<and> k = n div elems * bytes mod 2 ^ 64"
  by (auto simp: byte_size_def split: option.splits if_splits)

lemma int8_dot_Some:
  "has_int8_kernel t \<Longrightarrow> (sum_width t \<noteq> None \<longrightarrow> sums \<noteq> None) \<Longrightarrow> \<exists>v. int8_dot F t row xq xs sums = Some v"
  by (auto simp: has_int8_kernel_def int8_dot_def sum_width_def)

lemma dequant_into_Inr:
  "byte_size t n = Inr k \<Longrightarrow> length raw = k \<Longrightarrow> \<exists>out. dequant_into F t raw n = Inr out"
  by (auto simp: dequant_into_def byte_size_def block_layout_def split: if_splits)

text \<open>C31 A packed matrix times a batch of vectors is the packed matrix times each vector, bit for bit, for every
  format and both kinds of kernel: no panic, no error, and the vector-major results whatever the output buffer
  held.\<close>

theorem quant_matmul_is_matvecs:
  assumes "byte_size t cols = Inr row_bytes" and "0 < row_bytes" and "cols < 2 ^ 60" and "0 < n"
    and "length weight = rows * row_bytes" and "length xs = n * cols" and "length out = n * rows"
  shows "\<exists>y. (\<forall>b < n. quant_matvec F t weight rows cols (take cols (drop (b * cols) xs)) rows = Some (Inr (y b))) \<and>
    quant_matmul F t weight rows cols xs n out = Some (Inr (concat (map y [0..<n])))"
proof -
  define ch where "ch = chunks_exact row_bytes weight"
  have ch: "length ch = rows" "\<forall>row \<in> set ch. length row = row_bytes"
    using chunks_exact_rows [OF assms(2,5)] by (simp_all add: ch_def)
  define x where "x = (\<lambda>b. take cols (drop (b * cols) xs))"
  have xlen: "length (x b) = cols" if "b < n" for b
  proof -
    have "Suc b * cols \<le> n * cols" using that by (intro mult_le_mono1) simp
    then show ?thesis using assms(6) by (simp add: x_def)
  qed
  show ?thesis
  proof (cases "has_int8_kernel t")
    case False
    define buf where "buf = (\<lambda>row. case dequant_into F t row cols of Inr v \<Rightarrow> v | Inl _ \<Rightarrow> [])"
    have buf: "dequant_into F t row cols = Inr (buf row)" if "row \<in> set ch" for row
      using dequant_into_Inr [OF assms(1)] ch(2) that by (metis buf_def sum.simps(6))
    have mv: "quant_matvec F t weight rows cols (x b) rows = Some (Inr (map (\<lambda>row. dot F (buf row) (x b)) ch))" if "b < n" for b
      using xlen [OF that] assms(1,2,5) False each_res_map [of ch "\<lambda>row. bindE (dequant_into F t row cols) (\<lambda>buf. Inr (dot F buf (x b)))"
          "\<lambda>row. dot F (buf row) (x b)"] buf by (simp add: quant_matvec_def ch_def)
    have "quant_matmul F t weight rows cols xs n out = Some (Inr (concat (map (\<lambda>b. map (\<lambda>row. dot F (buf row) (x b)) ch) [0..<n])))"
    proof (cases "n = 1")
      case True
      then show ?thesis using mv [of 0] assms(6,7) by (simp add: quant_matmul_def x_def)
    next
      case n: False
      have "each_res (\<lambda>row. bindE (dequant_into F t row cols) (\<lambda>buf. Inr (map (\<lambda>b. dot F buf (x b)) [0..<n]))) ch =
          Inr (map (\<lambda>row. map (\<lambda>b. dot F (buf row) (x b)) [0..<n]) ch)" by (rule each_res_map) (simp add: buf)
      then show ?thesis
        using n assms False scatter_by_row [OF assms(4) ch(1) assms(7)] by (simp add: quant_matmul_def x_def ch_def)
    qed
    then show ?thesis using mv by (intro exI [of _ "\<lambda>b. map (\<lambda>row. dot F (buf row) (x b)) ch"]) (simp add: x_def)
  next
    case True
    obtain elems bytes where lay: "block_layout t = Some (elems, bytes)"
      "cols mod elems = 0" "row_bytes = cols div elems * bytes mod 2 ^ 64" using byte_size_cases [OF assms(1)] by auto
    have e: "elems = 32 \<and> sum_width t = None \<or> elems = 256" "0 < elems" "bytes \<le> 210 \<and> 32 \<le> elems"
      using True lay(1) by (auto simp: has_int8_kernel_def block_layout_def sum_width_def split: if_splits)
    have "cols div elems \<le> cols div 32" using e by (intro div_le_mono2) simp_all
    then have "cols div elems * bytes \<le> cols div 32 * 210" using e by (intro mult_mono) simp_all
    then have "row_bytes = bytes * (cols div elems)" using lay(3) assms(3) by (simp add: mult.commute)
    note rb = this
    let ?qa = "\<lambda>b. quantize_activation F (x b)"
    let ?sums = "\<lambda>b. map_option (block_sums (fst (?qa b))) (sum_width t)"
    define v where "v = (\<lambda>row b. the (int8_dot F t row (fst (?qa b)) (snd (?qa b)) (?sums b)))"
    have v: "int8_dot F t row (fst (?qa b)) (snd (?qa b)) (?sums b) = Some (v row b)" for row b
      using int8_dot_Some [OF True, of "?sums b" F row "fst (?qa b)" "snd (?qa b)"] by (auto simp: v_def)
    have mv: "quant_matvec F t weight rows cols (x b) rows = Some (Inr (map (\<lambda>row. v row b) ch))" if "b < n" for b
      using xlen [OF that] assms(1,2,5) True all_some_map [of ch "\<lambda>row. int8_dot F t row (fst (?qa b)) (snd (?qa b)) (?sums b)" "\<lambda>row. v row b"] v
      by (simp add: quant_matvec_def matvec_int8_def case_prod_unfold Let_def lay(1) rb [symmetric] ch_def)
    have "quant_matmul F t weight rows cols xs n out = Some (Inr (concat (map (\<lambda>b. map (\<lambda>row. v row b) ch) [0..<n])))"
    proof (cases "n = 1")
      case True
      then show ?thesis using mv [of 0] assms(6,7) by (simp add: quant_matmul_def x_def)
    next
      case n: False
      let ?xq = "concat (map (\<lambda>b. fst (?qa b)) [0..<n])" and ?sc = "concat (map (\<lambda>b. snd (?qa b)) [0..<n])"
      have xq: "take cols (drop (b * cols) ?xq) = fst (?qa b)" "take (cols div 32) (drop (b * (cols div 32)) ?sc) = snd (?qa b)" if "b < n" for b
        using that xlen by (intro take_drop_concat_map; simp add: quantize_activation_lengths)+
      have sums: "take (cols div w) (drop (b * (cols div w)) (block_sums ?xq w)) = block_sums (fst (?qa b)) w" if "b < n" "sum_width t = Some w" for b w
      proof -
        have w: "0 < w" "w dvd cols" using e that(2) lay(2) by (auto simp: sum_width_def split: if_splits)
        then have "block_sums ?xq w = concat (map (\<lambda>b. block_sums (fst (?qa b)) w) [0..<n])"
          using xlen by (subst block_sums_concat) (auto simp: quantize_activation_lengths o_def)
        then show ?thesis using that(1) xlen w
          by (simp only:) (intro take_drop_concat_map; simp add: block_sums_def length_chunks_exact quantize_activation_lengths)
      qed
      have "int8_row F t ?xq ?sc cols n row = Some (map (v row) [0..<n])" for row
        unfolding int8_row_def Let_def
      proof (rule all_some_map)
        fix b assume "b \<in> set [0..<n]"
        then have b: "b < n" by simp
        have "map_option (\<lambda>(w, s). take (cols div w) (drop (b * (cols div w)) s)) (map_option (\<lambda>w. (w, block_sums ?xq w)) (sum_width t)) = ?sums b"
          using sums [OF b] by (cases "sum_width t") simp_all
        then show "int8_dot F t row (take cols (drop (b * cols) ?xq)) (take (cols div 32) (drop (b * (cols div 32)) ?sc))
            (map_option (\<lambda>(w, s). take (cols div w) (drop (b * (cols div w)) s)) (map_option (\<lambda>w. (w, block_sums ?xq w)) (sum_width t))) = Some (v row b)"
          using v by (simp only: xq [OF b])
      qed
      then have "all_some (map (int8_row F t ?xq ?sc cols n) ch) = Some (map (\<lambda>row. map (v row) [0..<n]) ch)"
        by (intro all_some_map)
      moreover have "quantize_activations F xs n cols = (?xq, ?sc)" by (simp add: quantize_activations_def x_def o_def)
      ultimately show ?thesis using n assms True scatter_by_row [OF assms(4) ch(1) assms(7)]
        by (simp add: quant_matmul_def Let_def ch_def [symmetric])
    qed
    then show ?thesis using mv by (intro exI [of _ "\<lambda>b. map (\<lambda>row. v row b) ch"]) (simp add: x_def)
  qed
qed

lemma quant_matmul_is_matvecs_witness:
  "\<exists>y. (\<forall>b < 2. quant_matvec int_q 8 (0 # 60 # replicate 32 1) 1 32 (take 32 (drop (b * 32) (replicate 64 5))) 1 = Some (Inr (y b))) \<and>
    quant_matmul int_q 8 (0 # 60 # replicate 32 1) 1 32 (replicate 64 5) 2 [0, 0] = Some (Inr (concat (map y [0..<2])))"
  by (rule quant_matmul_is_matvecs [where row_bytes = 34]) (simp_all add: byte_size_def block_layout_def)

end
