(* ===== verification/QuantKernels.thy ===== *)
theory QuantKernels
  imports QuantMatmul
begin

text \<open>
  The integer kernels of \<open>garuda/src/quant/mod.rs\<close> multiply packed weights with a quantised activation
  without decoding them. Over a ring in place of the floats each of them is the decoded row times the
  decoded activation.
\<close>

unbundle bit_operations_syntax

definition exact_ring :: "('a :: comm_ring_1, 'z) qmath_scheme \<Rightarrow> bool" where
  "exact_ring F \<longleftrightarrow> fzero F = 0 \<and> fadd F = (+) \<and> fsub F = (-) \<and> fmul F = (*) \<and> f_int F = of_int"

section \<open>Small words\<close>

lemma uint_below_bits:
  assumes "\<And>i. bit w i \<Longrightarrow> i < k"
  shows "uint (w :: 'b::len word) < 2 ^ k"
proof -
  have "take_bit k w = w" by (rule bit_eqI) (use assms in \<open>auto simp: bit_take_bit_iff\<close>)
  then have "uint w = take_bit k (uint w)" by (metis unsigned_take_bit_eq)
  then show ?thesis by (metis take_bit_int_less_exp)
qed

lemma bit_low: "bit ((x :: u8) AND 0x0F) i \<Longrightarrow> i < 4" "bit ((x :: u8) AND 3) i \<Longrightarrow> i < 2"
proof -
  have "(0x0F :: u8) = mask 4" "(3 :: u8) = mask 2" by (simp_all add: mask_eq_decr_exp)
  then show "bit ((x :: u8) AND 0x0F) i \<Longrightarrow> i < 4" "bit ((x :: u8) AND 3) i \<Longrightarrow> i < 2"
    by (simp_all only: bit_and_iff bit_mask_iff)
qed

lemma bit_high: "bit (drop_bit 4 (x :: u8)) i \<Longrightarrow> i < 4"
  using bit_imp_le_length [of x "4 + i"] by (simp add: bit_drop_bit_eq)

lemma low_bounds: "uint ((x :: u8) AND 0x0F) < 16" "uint ((x :: u8) AND 3) < 4" "uint (drop_bit 4 (x :: u8)) < 16"
  using uint_below_bits [of "x AND 0x0F" 4] uint_below_bits [of "x AND 3" 2] uint_below_bits [of "drop_bit 4 x" 4] bit_low bit_high
  by auto

lemma sint_minus_small:
  assumes "uint (w :: 8 word) < 128" and "0 \<le> c" and "c \<le> 128"
  shows "sint (w - word_of_int c) = uint w - c"
proof -
  have "w - word_of_int c = word_of_int (uint w - c)" by simp
  moreover have "sint (word_of_int (uint w - c) :: 8 word) = uint w - c"
  proof -
    have "0 \<le> uint w" by simp
    have "- 128 \<le> uint w - c" "uint w - c < 128" using \<open>0 \<le> uint w\<close> assms by linarith+
    then have "- (2 ^ 7) \<le> uint w - c" "uint w - c < 2 ^ 7" by simp_all
    then have "signed_take_bit 7 (uint w - c) = uint w - c" by (rule signed_take_bit_int_eq_self)
    then show ?thesis unfolding sint_sbintrunc' by simp
  qed
  ultimately show ?thesis by simp
qed

lemma sint_small: "uint (w :: 8 word) < 128 \<Longrightarrow> sint w = uint w"
  using sint_minus_small [of w 0] by simp

lemma int_or_16: "0 \<le> k \<Longrightarrow> k < 16 \<Longrightarrow> k OR 16 = k + (16 :: int)"
proof -
  assume "0 \<le> k" "k < 16"
  then have "k \<in> set [0..15]" by simp
  moreover have "list_all (\<lambda>k. k OR 16 = k + (16 :: int)) [0..15]" by code_simp
  ultimately show ?thesis by (simp only: list_all_iff)
qed

lemma uint_or_16: "uint (y :: 8 word) < 16 \<Longrightarrow> uint (y OR 16) = uint y + 16"
  using int_or_16 [of "uint y"] by (simp add: unsigned_or_eq)

lemma bit_joined:
  "(\<And>i. bit a i \<Longrightarrow> i < 4) \<Longrightarrow> (\<And>i. bit b i \<Longrightarrow> i < 2) \<Longrightarrow> bit ((a :: u8) OR push_bit 4 b) i \<Longrightarrow> i < 6"
  by (fastforce simp: bit_or_iff bit_push_bit_iff)

lemma bit_q6:
  assumes "bit (q6_bits ql qh k l) i"
  shows "i < 6"
proof -
  have "i < 6" if "\<And>i. bit a i \<Longrightarrow> i < 4" and "bit (a OR push_bit 4 (b AND 3)) i" for a b :: u8
    using bit_joined [of a "b AND 3" i] that bit_low(2) by blast
  note j = this
  show ?thesis using assms j [OF bit_low(1)] j [OF bit_high] by (auto simp: q6_bits_def split: if_splits)
qed

lemma sint_q6: "sint (q6_bits ql qh k l - 32) = uint (q6_bits ql qh k l) - 32"
  using sint_minus_small [of "q6_bits ql qh k l" 32] uint_below_bits [of "q6_bits ql qh k l" 6] bit_q6 by force

section \<open>Sums of products are exact\<close>

lemma sint_sum_exact:
  assumes "\<forall>x \<in> set xs. \<bar>x\<bar> \<le> 2 ^ 14" and "length xs \<le> 2 ^ 16"
  shows "sint (sum_list (map word_of_int xs) :: 32 word) = sum_list xs"
proof -
  have "\<bar>sum_list xs\<bar> \<le> 2 ^ 14 * int (length xs)" using assms(1)
  proof (induction xs)
    case (Cons x xs)
    then have "\<bar>x\<bar> \<le> 2 ^ 14" "\<bar>sum_list xs\<bar> \<le> 2 ^ 14 * int (length xs)" by simp_all
    then show ?case by (simp add: algebra_simps)
  qed simp
  also have "\<dots> \<le> 2 ^ 14 * 2 ^ 16" using assms(2) by (intro mult_left_mono) auto
  finally have "- (2 ^ 31) \<le> sum_list xs \<and> sum_list xs < 2 ^ 31" by auto
  then have "sint (word_of_int (sum_list xs) :: 32 word) = sum_list xs"
    unfolding sint_sbintrunc' by (simp add: signed_take_bit_int_eq_self)
  moreover have "(sum_list (map word_of_int xs) :: 32 word) = word_of_int (sum_list xs)" by (induction xs) simp_all
  ultimately show ?thesis by simp
qed

lemma sint_8: "- 128 \<le> sint (x :: 8 word)" "sint (x :: 8 word) \<le> 127"
  using sint_range_size [of x] by (simp_all add: word_size)

lemma dot_i8_exact:
  assumes "length a \<le> 2 ^ 16"
  shows "sint (dot_i8_scalar a b) = sum_list (map2 (\<lambda>x y. sint x * sint y) a b)"
proof -
  have "\<bar>sint x * sint y\<bar> \<le> 2 ^ 14" for x y :: "8 word"
  proof -
    have "\<bar>sint x * sint y\<bar> \<le> 128 * 128"
      unfolding abs_mult by (rule mult_mono) (use sint_8 [of x] sint_8 [of y] in auto)
    then show ?thesis by simp
  qed
  then have "\<forall>z \<in> set (map2 (\<lambda>x y. sint x * sint y) a b). \<bar>z\<bar> \<le> 2 ^ 14" by auto
  note bounds = this
  have eq: "map2 wide a b = map word_of_int (map2 (\<lambda>x y. sint x * sint y) a b)"
    unfolding map_map o_def case_prod_unfold by (intro map_cong refl) (simp only: scast_eq of_int_mult)
  have "length (map2 (\<lambda>x y. sint x * sint y) a b) \<le> 2 ^ 16" using assms by simp
  from sint_sum_exact [OF bounds this] show ?thesis by (simp only: dot_i8_scalar_sum eq)
qed

lemma block_sums_nth:
  assumes "0 < w" and "w \<le> 2 ^ 16" and "Suc sb * w \<le> length xq"
  shows "sint (block_sums xq w ! sb) = sum_list (map sint (take w (drop (sb * w) xq)))"
proof -
  have nth: "chunks_exact w ys ! i = take w (drop (i * w) ys)" if "Suc i * w \<le> length ys" for ys :: "8 word list" and i
    using that
  proof (induction i arbitrary: ys)
    case 0
    then show ?case using assms(1) by (subst chunks_exact.simps) simp
  next
    case (Suc i)
    then have "chunks_exact w (drop w ys) ! i = take w (drop (i * w) (drop w ys))" by (intro Suc.IH) simp
    then show ?case using Suc.prems assms(1) by (subst chunks_exact.simps) (simp add: add.commute)
  qed
  have len: "sb < length (chunks_exact w xq)" using assms(1,3)
    by (simp add: length_chunks_exact less_eq_div_iff_mult_less_eq flip: Suc_le_eq)
  have "\<bar>sint z\<bar> \<le> 2 ^ 14" for z :: "8 word" using sint_8 [of z] by auto
  then have "\<forall>z \<in> set (map sint (take w (drop (sb * w) xq))). \<bar>z\<bar> \<le> 2 ^ 14" by auto
  moreover have "length (map sint (take w (drop (sb * w) xq))) \<le> 2 ^ 16" using assms(2) by simp
  ultimately have "sint (sum_list (map word_of_int (map sint (take w (drop (sb * w) xq)))) :: 32 word) = sum_list (map sint (take w (drop (sb * w) xq)))"
    by (rule sint_sum_exact)
  note exact = this
  have "foldl (\<lambda>s v. s + scast v) s blk = (s :: 32 word) + sum_list (map word_of_int (map sint blk))" for s and blk :: "8 word list"
    by (induction blk arbitrary: s) (simp_all add: add.assoc)
  moreover have "block_sums xq w ! sb = foldl (\<lambda>s v. s + scast v) 0 (chunks_exact w xq ! sb)"
    using len by (simp add: block_sums_def)
  ultimately show ?thesis using exact by (simp only: nth [OF assms(3)] add_0)
qed

section \<open>Pieces of a row\<close>

text \<open>The decoded activation, and the product of decoded weights with what of it starts at \<open>off\<close>.\<close>

definition activation :: "'a :: comm_ring_1 list \<Rightarrow> 8 word list \<Rightarrow> nat \<Rightarrow> 'a" where
  "activation xs xq i = xs ! (i div 32) * of_int (sint (xq ! i))"

definition wdot :: "(nat \<Rightarrow> 'a :: comm_ring_1) \<Rightarrow> nat \<Rightarrow> 'a list \<Rightarrow> 'a" where
  "wdot act off ws = (\<Sum>l < length ws. ws ! l * act (off + l))"

lemma wdot_append: "wdot act off (us @ vs) = wdot act off us + wdot act (off + length us) vs"
proof -
  have "(\<Sum>l < m + n. f l) = (\<Sum>l < m. f l) + (\<Sum>l < n. f (m + l))" for f :: "nat \<Rightarrow> 'a" and m n
    by (induction n) (simp_all add: add.assoc)
  then show ?thesis by (simp add: wdot_def nth_append add.assoc)
qed

lemma wdot_Nil [simp]: "wdot act off [] = 0"
  by (simp add: wdot_def)

lemma fold_pieces:
  assumes "\<And>i acc. i < length xs \<Longrightarrow> step acc (xs ! i) = acc + wdot act (off + i * k) (piece (xs ! i))"
    and "\<And>x. x \<in> set xs \<Longrightarrow> length (piece x) = k"
  shows "foldl step acc xs = acc + wdot act off (concat (map piece xs))"
  using assms
proof (induction xs arbitrary: acc off)
  case (Cons x xs)
  have "step acc x = acc + wdot act off (piece x)" using Cons.prems(1) [of 0] by simp
  moreover have "foldl step (step acc x) xs = step acc x + wdot act (off + k) (concat (map piece xs))"
  proof (rule Cons.IH)
    show "step acc (xs ! i) = acc + wdot act (off + k + i * k) (piece (xs ! i))" if "i < length xs" for i acc
      using Cons.prems(1) [of "Suc i"] that by (simp add: add.assoc)
  qed (use Cons.prems(2) in simp)
  ultimately show ?case using Cons.prems(2) by (simp add: wdot_append add.assoc)
qed simp

text \<open>The rows of the formats: what a kernel adds for a block is the product with the decoded block.\<close>

lemma fold_blocks:
  assumes "length row = n * bytes" and "0 < bytes"
    and "\<And>i block acc. i < n \<Longrightarrow> length block = bytes \<Longrightarrow> step acc (i, block) = acc + wdot act (i * k) (deq block)"
    and "\<And>block. length block = bytes \<Longrightarrow> length (deq block) = k"
  shows "foldl step 0 (enumerate 0 (chunks_exact bytes row)) = wdot act 0 (concat (map deq (chunks_exact bytes row)))"
proof -
  let ?bs = "chunks_exact bytes row"
  have bs: "length ?bs = n" "\<forall>c \<in> set ?bs. length c = bytes" using chunks_exact_rows [OF assms(2,1)] by simp_all
  have "foldl step 0 (enumerate 0 ?bs) = 0 + wdot act 0 (concat (map (deq \<circ> snd) (enumerate 0 ?bs)))"
  proof (rule fold_pieces [where k = k])
    fix i acc assume "i < length (enumerate 0 ?bs)"
    then have "i < n" "enumerate 0 ?bs ! i = (i, ?bs ! i)" "length (?bs ! i) = bytes" using bs by (simp_all add: nth_enumerate_eq)
    then show "step acc (enumerate 0 ?bs ! i) = acc + wdot act (0 + i * k) ((deq \<circ> snd) (enumerate 0 ?bs ! i))"
      using assms(3) by simp
  next
    fix x assume "x \<in> set (enumerate 0 ?bs)"
    then have "snd x \<in> set ?bs" by (metis image_eqI list.set_map map_snd_enumerate)
    then show "length ((deq \<circ> snd) x) = k" using assms(4) bs(2) by simp
  qed
  then show ?thesis by (simp flip: map_map)
qed

section \<open>Sub-blocks\<close>

lemma sum_list_map2_nth:
  "length a = length b \<Longrightarrow> sum_list (map2 f a b) = (\<Sum>l < length a. f (a ! l) (b ! l))"
  by (simp add: sum_list_sum_nth lessThan_atLeast0)

lemma dot_at_exact:
  assumes "exact_ring F" and "length q \<le> 256" and "off + length q \<le> length xq"
  shows "dot_at F q xq off = (\<Sum>l < length q. of_int (sint (q ! l)) * of_int (sint (xq ! (off + l))))"
proof -
  have "length q = length (take (length q) (drop off xq))" using assms(3) by simp
  from sum_list_map2_nth [OF this, of "\<lambda>x y. sint x * sint y"]
  have "sint (dot_i8_scalar q (take (length q) (drop off xq))) = (\<Sum>l < length q. sint (q ! l) * sint (xq ! (off + l)))"
    using dot_i8_exact [of q] assms(2,3) by simp
  then show ?thesis using assms(1) by (simp add: dot_at_def exact_ring_def)
qed

lemma wdot_affine:
  assumes "exact_ring F" and "length q \<le> 256" and "off + length q \<le> length xq"
    and "\<And>l. l < length q \<Longrightarrow> (off + l) div 32 = sx"
  shows "wdot (activation xs xq) off (map (\<lambda>w. c * of_int (sint w) - m) q) =
    xs ! sx * (c * dot_at F q xq off - m * of_int (\<Sum>l < length q. sint (xq ! (off + l))))"
proof -
  have "wdot (activation xs xq) off (map (\<lambda>w. c * of_int (sint w) - m) q) =
      (\<Sum>l < length q. (c * of_int (sint (q ! l)) - m) * (xs ! sx * of_int (sint (xq ! (off + l)))))"
    by (simp add: wdot_def activation_def assms(4))
  also have "\<dots> = xs ! sx * (c * (\<Sum>l < length q. of_int (sint (q ! l)) * of_int (sint (xq ! (off + l)))) -
      m * (\<Sum>l < length q. of_int (sint (xq ! (off + l)))))"
    by (simp add: sum_distrib_left sum_subtractf [symmetric] algebra_simps)
  finally show ?thesis by (simp add: dot_at_exact [OF assms(1-3)])
qed

lemma wdot_linear:
  assumes "exact_ring F" and "length q \<le> 256" and "off + length q \<le> length xq"
    and "\<And>l. l < length q \<Longrightarrow> (off + l) div 32 = sx"
  shows "wdot (activation xs xq) off (map (\<lambda>w. c * of_int (sint w)) q) = xs ! sx * (c * dot_at F q xq off)"
  using wdot_affine [OF assms, of xs c 0] by simp

lemma sum_of_block:
  assumes "0 < w" and "w \<le> 256" and "Suc sb * w \<le> length xq"
  shows "sint (block_sums xq w ! sb) = (\<Sum>l < w. sint (xq ! (sb * w + l)))"
proof -
  have "length (take w (drop (sb * w) xq)) = w" using assms(3) by simp
  then show ?thesis using block_sums_nth [OF assms(1) _ assms(3)] assms(2,3)
    by (simp add: sum_list_sum_nth lessThan_atLeast0)
qed

lemma affine_term_exact:
  assumes "exact_ring F" and "length q = 32" and "Suc sb * 32 \<le> length xq"
  shows "affine_term F d dmin (sc, m) q xq xs (block_sums xq 32) sb =
    wdot (activation xs xq) (sb * 32) (map (\<lambda>w. d * of_int (uint sc) * of_int (sint w) - dmin * of_int (uint m)) q)"
proof -
  have "(sb * 32 + l) div 32 = sb" if "l < length q" for l using that assms(2) by simp
  from wdot_affine [OF assms(1) _ _ this, where xq = xq] show ?thesis
    using assms sum_of_block [of 32 sb xq] by (simp add: affine_term_def exact_ring_def)
qed

end
