(* ===== verification/QuantExact.thy ===== *)
theory QuantExact
  imports QuantKernels
begin

text \<open>
  Each integer kernel of \<open>garuda/src/quant/mod.rs\<close>, over a ring: the row decoded, times the activation decoded.
\<close>

unbundle bit_operations_syntax

declare of_int_uint [simp del] of_int_sint [simp del]

lemma chunks_as_slices:
  "0 < w \<Longrightarrow> length ys = m * w \<Longrightarrow> chunks_exact w ys = map (\<lambda>g. take w (drop (w * g) ys)) [0..<m]"
proof (induction m arbitrary: ys)
  case (Suc m)
  have "chunks_exact w (drop w ys) = map (\<lambda>g. take w (drop (w * g) (drop w ys))) [0..<m]"
    using Suc.prems by (intro Suc.IH) simp_all
  moreover have "[0..<Suc m] = 0 # map Suc [0..<m]" by (simp add: upt_conv_Cons map_Suc_upt)
  ultimately show ?case using Suc.prems by (simp add: chunks_exact.simps [of w ys] o_def add.commute)
qed simp

lemma take_as_map: "k + m \<le> length ys \<Longrightarrow> take m (drop k ys) = map (\<lambda>l. ys ! (l + k)) [0..<m]"
  by (rule nth_equalityI) (simp_all add: add.commute)

lemma ring_ops:
  assumes "exact_ring F"
  shows "fzero F = 0" "fadd F = (+)" "fsub F = (-)" "fmul F = (*)" "f_int F = of_int"
  using assms by (simp_all add: exact_ring_def)

section \<open>\<open>Q8_0\<close>\<close>

lemma q8_0_dot_exact:
  assumes F: "exact_ring F" and row: "length row = n * 34" and xq: "length xq = n * 32"
  shows "q8_0_dot F row xq xs = wdot (activation xs xq) 0 (dequant_q8_0 F row)"
  unfolding q8_0_dot_def dequant_q8_0_def ring_ops [OF F]
proof (rule fold_blocks [OF row, where k = 32])
  fix i acc and block :: "u8 list"
  assume i: "i < n" and block: "length block = 34"
  then have len: "length (drop 2 block) = 32" "i * 32 + 32 \<le> length xq" using xq by auto
  then have "wdot (activation xs xq) (i * 32) (map (\<lambda>w. half_at F block 0 * of_int (sint w)) (drop 2 block)) =
      xs ! i * (half_at F block 0 * dot_at F (drop 2 block) xq (i * 32))" by (intro wdot_linear [OF F]) simp_all
  then show "(case (i, block) of (b, blk) \<Rightarrow> acc + half_at F blk 0 * xs ! b * dot_at F (drop 2 blk) xq (b * 32)) =
      acc + wdot (activation xs xq) (i * 32) (let scale = half_at F block 0 in map (\<lambda>q. scale * of_int (sint q)) (drop 2 block))"
    using len by (simp add: Let_def ac_simps)
qed simp_all

section \<open>\<open>Q4_K\<close> and \<open>Q5_K\<close>\<close>

lemma pair_step:
  assumes F: "exact_ring F" and "length q1 = 32" and "length q2 = 32" and "sb * 32 + 64 \<le> length xq"
  shows "fadd F (fadd F acc (affine_term F d dmin (sc1, m1) q1 xq xs (block_sums xq 32) sb))
      (affine_term F d dmin (sc2, m2) q2 xq xs (block_sums xq 32) (sb + 1)) =
    acc + wdot (activation xs xq) (sb * 32)
      (map (\<lambda>w. d * of_int (uint sc1) * of_int (sint w) - dmin * of_int (uint m1)) q1 @
       map (\<lambda>w. d * of_int (uint sc2) * of_int (sint w) - dmin * of_int (uint m2)) q2)"
  using affine_term_exact [OF F assms(2), of sb xq d dmin sc1 m1 xs] affine_term_exact [OF F assms(3), of "sb + 1" xq d dmin sc2 m2 xs] assms
  by (simp add: ring_ops [OF F] wdot_append add.assoc add.commute)

lemma q4_k_dot_exact:
  assumes F: "exact_ring F" and row: "length row = n * 144" and xq: "length xq = n * 256"
  shows "q4_k_dot F row xq xs (block_sums xq 32) = wdot (activation xs xq) 0 (dequant_q4_k F row)"
  unfolding q4_k_dot_def dequant_q4_k_def ring_ops(1) [OF F]
proof (rule fold_blocks [OF row, where k = 256], goal_cases)
  case (2 i block acc)
  define d dmin scales qs where "d = half_at F block 0" and "dmin = half_at F block 2"
    and "scales = take 12 (drop 4 block)" and "qs = drop 16 block"
  define chunk where "chunk = (\<lambda>g. take 32 (drop (32 * g) qs))"
  define sm where "sm = (\<lambda>j. get_scale_min_k4 j scales)"
  define piece where "piece = (\<lambda>g. map (\<lambda>w. d * of_int (uint (fst (sm (2 * g)))) * of_int (sint w) - dmin * of_int (uint (snd (sm (2 * g))))) (map (\<lambda>b. b AND 0x0F) (chunk g)) @
    map (\<lambda>w. d * of_int (uint (fst (sm (2 * g + 1)))) * of_int (sint w) - dmin * of_int (uint (snd (sm (2 * g + 1))))) (map (drop_bit 4) (chunk g)))"
  have qs: "length qs = 4 * 32" "take 128 qs = qs" using 2 by (simp_all add: qs_def)
  have len: "length (chunk g) = 32" if "g < 4" for g using that qs by (simp add: chunk_def)
  have "enumerate 0 (chunks_exact 32 qs) = map (\<lambda>g. (g, chunk g)) [0..<4]"
    by (simp add: chunks_as_slices [OF _ qs(1)] chunk_def enumerate_eq_zip zip_map2 flip: zip_same_conv_map) (simp add: zip_same_conv_map o_def)
  note en = this
  have room: "(i * 8 + 2 * g) * 32 + 64 \<le> length xq" if "g < 4" for g using that 2 xq by simp
  define step where "step = (\<lambda>acc g. fadd F (fadd F acc
      (affine_term F d dmin (sm (2 * g)) (map (\<lambda>b. b AND 0x0F) (chunk g)) xq xs (block_sums xq 32) (i * 8 + 2 * g)))
      (affine_term F d dmin (sm (2 * g + 1)) (map (drop_bit 4) (chunk g)) xq xs (block_sums xq 32) (i * 8 + 2 * g + 1)))"
  have step: "step acc g = acc + wdot (activation xs xq) (i * 256 + g * 64) (piece g)" if g: "g < 4" for g acc
  proof -
    have e: "i * 256 + g * 64 = (i * 8 + 2 * g) * 32" by simp
    have "length (map (\<lambda>b. b AND 0x0F) (chunk g)) = 32" "length (map (drop_bit 4) (chunk g)) = 32" using len g by simp_all
    from pair_step [OF F this room [OF g], of acc d dmin "fst (sm (2 * g))" "snd (sm (2 * g))" xs "fst (sm (2 * g + 1))" "snd (sm (2 * g + 1))"]
    show ?thesis unfolding e step_def piece_def by simp
  qed
  have "foldl step acc [0..<4] = acc + wdot (activation xs xq) (i * 256) (concat (map piece [0..<4]))"
    by (rule fold_pieces [where k = 64]) (use step len in \<open>simp_all add: piece_def\<close>)
  moreover have "piece = (\<lambda>g. map (\<lambda>q. d * of_int (uint (fst (sm (2 * g)))) * of_int (uint (q AND 0x0F)) - dmin * of_int (uint (snd (sm (2 * g))))) (chunk g) @
      map (\<lambda>q. d * of_int (uint (fst (sm (2 * g + 1)))) * of_int (uint (drop_bit 4 q)) - dmin * of_int (uint (snd (sm (2 * g + 1))))) (chunk g))"
  proof -
    have "sint (q AND 0x0F) = uint (q AND 0x0F)" "sint (drop_bit 4 q) = uint (drop_bit 4 q)" for q :: u8
      using low_bounds [of q] by (auto intro: sint_small)
    then show ?thesis by (simp add: piece_def o_def)
  qed
  ultimately show ?case
    by (simp add: Let_def en qs(2) foldl_map case_prod_unfold ring_ops [OF F] sm_def chunk_def step_def
        flip: d_def dmin_def scales_def qs_def)
next
  case (3 block)
  then show ?case by (simp add: Let_def case_prod_unfold length_concat o_def upt_rec)
qed simp

lemma q5_k_dot_exact:
  assumes F: "exact_ring F" and row: "length row = n * 176" and xq: "length xq = n * 256"
  shows "q5_k_dot F row xq xs (block_sums xq 32) = wdot (activation xs xq) 0 (dequant_q5_k F row)"
  unfolding q5_k_dot_def dequant_q5_k_def ring_ops(1) [OF F]
proof (rule fold_blocks [OF row, where k = 256], goal_cases)
  case (2 i block acc)
  define d dmin scales qh qs where "d = half_at F block 0" and "dmin = half_at F block 2"
    and "scales = take 12 (drop 4 block)" and "qh = take 32 (drop 16 block)" and "qs = drop 48 block"
  define ql where "ql = (\<lambda>g. take 32 (drop (32 * g) qs))"
  define sm where "sm = (\<lambda>j. get_scale_min_k4 j scales)"
  define u where "u = (\<lambda>g l k. qh ! l AND push_bit (2 * g) (k :: u8) \<noteq> 0)"
  define q1 where "q1 = (\<lambda>g. map (\<lambda>l. (ql g ! l AND 0x0F) OR (if u g l 1 then 16 else 0)) [0..<32])"
  define q2 where "q2 = (\<lambda>g. map (\<lambda>l. drop_bit 4 (ql g ! l) OR (if u g l 2 then 16 else 0)) [0..<32])"
  define piece where "piece = (\<lambda>g. map (\<lambda>w. d * of_int (uint (fst (sm (2 * g)))) * of_int (sint w) - dmin * of_int (uint (snd (sm (2 * g))))) (q1 g) @
    map (\<lambda>w. d * of_int (uint (fst (sm (2 * g + 1)))) * of_int (sint w) - dmin * of_int (uint (snd (sm (2 * g + 1))))) (q2 g))"
  have qs: "take 128 qs = qs" using 2 by (simp add: qs_def)
  have room: "(i * 8 + 2 * g) * 32 + 64 \<le> length xq" if "g < 4" for g using that 2 xq by simp
  define step where "step = (\<lambda>acc g. fadd F (fadd F acc
      (affine_term F d dmin (sm (2 * g)) (q1 g) xq xs (block_sums xq 32) (i * 8 + 2 * g)))
      (affine_term F d dmin (sm (2 * g + 1)) (q2 g) xq xs (block_sums xq 32) (i * 8 + 2 * g + 1)))"
  have step: "step acc g = acc + wdot (activation xs xq) (i * 256 + g * 64) (piece g)" if g: "g < 4" for g acc
  proof -
    have e: "i * 256 + g * 64 = (i * 8 + 2 * g) * 32" by simp
    have "length (q1 g) = 32" "length (q2 g) = 32" by (simp_all add: q1_def q2_def)
    from pair_step [OF F this room [OF g], of acc d dmin "fst (sm (2 * g))" "snd (sm (2 * g))" xs "fst (sm (2 * g + 1))" "snd (sm (2 * g + 1))"]
    show ?thesis unfolding e step_def piece_def by simp
  qed
  have "foldl step acc [0..<4] = acc + wdot (activation xs xq) (i * 256) (concat (map piece [0..<4]))"
    by (rule fold_pieces [where k = 64]) (use step in \<open>simp_all add: piece_def q1_def q2_def\<close>)
  moreover have "piece = (\<lambda>g.
      map (\<lambda>l. d * of_int (uint (fst (sm (2 * g)))) * of_int (uint (ql g ! l AND 0x0F) + (if u g l 1 then 16 else 0)) - dmin * of_int (uint (snd (sm (2 * g))))) [0..<32] @
      map (\<lambda>l. d * of_int (uint (fst (sm (2 * g + 1)))) * of_int (uint (drop_bit 4 (ql g ! l)) + (if u g l 2 then 16 else 0)) - dmin * of_int (uint (snd (sm (2 * g + 1))))) [0..<32])"
  proof -
    have "sint ((q AND 0x0F) OR (if c then 16 else 0)) = uint (q AND 0x0F) + (if c then 16 else 0)"
      "sint (drop_bit 4 q OR (if c then 16 else 0)) = uint (drop_bit 4 q) + (if c then 16 else 0)" for q :: u8 and c
      using low_bounds [of q] uint_or_16 [of "q AND 0x0F"] uint_or_16 [of "drop_bit 4 q"]
        sint_small [of "(q AND 0x0F) OR 16"] sint_small [of "drop_bit 4 q OR 16"] sint_small [of "q AND 0x0F"] sint_small [of "drop_bit 4 q"]
      by simp_all
    then show ?thesis by (simp add: piece_def q1_def q2_def o_def)
  qed
  ultimately show ?case
    by (simp add: Let_def qs case_prod_unfold ring_ops [OF F] sm_def ql_def step_def q1_def q2_def u_def mult.commute
        flip: d_def dmin_def scales_def qh_def qs_def)
next
  case (3 block)
  then show ?case by (simp add: Let_def case_prod_unfold length_concat o_def upt_rec)
qed simp

section \<open>\<open>Q2_K\<close> and \<open>Q3_K\<close>\<close>

lemma k_step:
  assumes "i < length k_steps"
  obtains half j off where "k_steps ! i = (half, j, off)" and "half < 2" and "j < 4" and "off = 0 \<or> off = 16"
    and "sub_index (half, j, off) = i" and "i < 16"
proof -
  have steps: "k_steps = [(0,0,0),(0,0,16),(0,1,0),(0,1,16),(0,2,0),(0,2,16),(0,3,0),(0,3,16),
      (1,0,0),(1,0,16),(1,1,0),(1,1,16),(1,2,0),(1,2,16),(1,3,0),(1,3,16)]"
    by (simp add: k_steps_def upt_rec)
  have "map sub_index k_steps = [0..<16]" by (simp add: steps sub_index_def upt_rec)
  then have "map sub_index k_steps ! i = [0..<16] ! i" by simp
  moreover have "length k_steps = 16" by (simp add: steps)
  ultimately have idx: "sub_index (k_steps ! i) = i" "i < 16" using assms by simp_all
  have "\<forall>(half, j, off) \<in> set k_steps. half < 2 \<and> j < 4 \<and> (off = 0 \<or> off = 16)" by (simp add: steps)
  moreover obtain half j off where st: "k_steps ! i = (half, j, off)" by (cases "k_steps ! i") blast
  ultimately have "half < 2 \<and> j < 4 \<and> (off = 0 \<or> off = 16)" using nth_mem [OF assms] by fastforce
  then show thesis using that [OF st] idx st by simp
qed

lemma sub_block_index: "l < 16 \<Longrightarrow> (s * 16 + l) div 32 = s * 16 div (32 :: nat)"
  using div_mult2_eq [of "s * 16 + l" 16 2] div_mult2_eq [of "s * 16" 16 2] by simp

lemma q2_k_dot_exact:
  assumes F: "exact_ring F" and row: "length row = n * 84" and xq: "length xq = n * 256"
  shows "q2_k_dot F row xq xs (block_sums xq 16) = wdot (activation xs xq) 0 (dequant_q2_k F row)"
  unfolding q2_k_dot_def dequant_q2_k_def ring_ops(1) [OF F]
proof (rule fold_blocks [OF row, where k = 256], goal_cases)
  case (2 i block acc)
  define scales qs d dmin where "scales = take 16 block" and "qs = take 64 (drop 16 block)" and "d = half_at F block 80" and "dmin = half_at F block 82"
  define q where "q = (\<lambda>(half, j, off). map (\<lambda>l. drop_bit (2 * j) (take 32 (drop (half * 32) qs) ! (l + off)) AND 3) [0..<16])"
  define dl where "dl = (\<lambda>st. d * of_int (uint (scales ! sub_index st AND 0x0F)))"
  define ml where "ml = (\<lambda>st. dmin * of_int (uint (drop_bit 4 (scales ! sub_index st))))"
  define piece where "piece = (\<lambda>st. map (\<lambda>w. dl st * of_int (sint w) - ml st) (q st))"
  define step where "step = (\<lambda>acc st. let sb = i * 16 + sub_index st; off = sb * 16 in
    acc + xs ! (off div 32) * (dl st * dot_at F (q st) xq off - ml st * of_int (sint (block_sums xq 16 ! sb))))"
  have lenq: "length (q st) = 16" for st by (simp add: q_def case_prod_unfold)
  have qs: "length qs = 64" using 2 by (simp add: qs_def)
  have step: "step acc (k_steps ! s) = acc + wdot (activation xs xq) (i * 256 + s * 16) (piece (k_steps ! s))" if s: "s < length k_steps" for s acc
  proof -
    obtain st where st: "k_steps ! s = st" "sub_index st = s" "s < 16" using k_step [OF s] by metis
    let ?sb = "i * 16 + s"
    have room: "?sb * 16 + length (q st) \<le> length xq" "Suc ?sb * 16 \<le> length xq" using 2 xq st(3) lenq by simp_all
    have "wdot (activation xs xq) (?sb * 16) (piece st) = xs ! (?sb * 16 div 32) *
        (dl st * dot_at F (q st) xq (?sb * 16) - ml st * of_int (\<Sum>l < length (q st). sint (xq ! (?sb * 16 + l))))"
      unfolding piece_def by (rule wdot_affine [OF F _ room(1)]) (simp add: lenq, simp only: lenq sub_block_index)
    moreover have "i * 256 + s * 16 = ?sb * 16" by simp
    ultimately show ?thesis using sum_of_block [of 16 ?sb xq] room(2) by (simp only: step_def st Let_def lenq)
  qed
  have "foldl step acc k_steps = acc + wdot (activation xs xq) (i * 256) (concat (map piece k_steps))"
    by (rule fold_pieces [where k = 16]) (use step in \<open>simp_all add: piece_def lenq\<close>)
  moreover have "map piece k_steps = map (\<lambda>(half, j, off). map (\<lambda>qv. dl (half, j, off) * of_int (uint (drop_bit (2 * j) qv AND 3)) - ml (half, j, off))
      (take 16 (drop off (take 32 (drop (32 * half) qs))))) k_steps"
  proof (rule map_cong [OF refl])
    fix st assume "st \<in> set k_steps"
    then obtain s where s: "s < length k_steps" "st = k_steps ! s" by (metis in_set_conv_nth)
    then obtain half j off where st: "st = (half, j, off)" "half < 2" "off = 0 \<or> off = 16" using k_step [OF s(1)] by metis
    have "sint (w AND 3) = uint (w AND 3)" for w :: u8 using low_bounds(2) [of w] by (intro sint_small) simp
    moreover have "take 16 (drop off (take 32 (drop (32 * half) qs))) = map (\<lambda>l. take 32 (drop (32 * half) qs) ! (l + off)) [0..<16]"
      using st qs by (intro take_as_map) auto
    ultimately show "piece st = (case st of (half, j, off) \<Rightarrow> map (\<lambda>qv. dl (half, j, off) * of_int (uint (drop_bit (2 * j) qv AND 3)) - ml (half, j, off))
        (take 16 (drop off (take 32 (drop (32 * half) qs)))))"
      by (simp add: piece_def q_def st o_def mult.commute)
  qed
  ultimately show ?case
    by (simp add: Let_def case_prod_unfold ring_ops [OF F] step_def dl_def ml_def q_def
        flip: d_def dmin_def scales_def qs_def)
next
  case (3 block)
  then show ?case by (simp add: Let_def case_prod_unfold length_concat o_def k_steps_def upt_rec)
qed simp

lemma q3_k_dot_exact:
  assumes F: "exact_ring F" and row: "length row = n * 110" and xq: "length xq = n * 256"
  shows "q3_k_dot F row xq xs = wdot (activation xs xq) 0 (dequant_q3_k F row)"
  unfolding q3_k_dot_def dequant_q3_k_def ring_ops(1) [OF F]
proof (rule fold_blocks [OF row, where k = 256], goal_cases)
  case (2 i block acc)
  define hmask qs d scales where "hmask = take 32 block" and "qs = take 64 (drop 32 block)" and "d = half_at F block 108"
    and "scales = unpack_q3_k_scales (take 12 (drop 96 block))"
  define hb where "hb = (\<lambda>(half, j, off) l. if hmask ! (l + off) AND push_bit (4 * half + j) (1 :: u8) \<noteq> 0 then 0 else (4 :: int))"
  define bits where "bits = (\<lambda>(half, j, off) l. drop_bit (2 * j) (take 32 (drop (half * 32) qs) ! (l + off)) AND (3 :: u8))"
  define q where "q = (\<lambda>st. map (\<lambda>l. bits st l - word_of_int (hb st l)) [0..<16])"
  define dl where "dl = (\<lambda>st. d * of_int (sint (scales ! sub_index st) - 32))"
  define piece where "piece = (\<lambda>st. map (\<lambda>w. dl st * of_int (sint w)) (q st))"
  define step where "step = (\<lambda>acc st. let off = (i * 16 + sub_index st) * 16 in acc + xs ! (off div 32) * dl st * dot_at F (q st) xq off)"
  have lenq: "length (q st) = 16" for st by (simp add: q_def)
  have step: "step acc (k_steps ! s) = acc + wdot (activation xs xq) (i * 256 + s * 16) (piece (k_steps ! s))" if s: "s < length k_steps" for s acc
  proof -
    obtain st where st: "k_steps ! s = st" "sub_index st = s" "s < 16" using k_step [OF s] by metis
    let ?sb = "i * 16 + s"
    have room: "?sb * 16 + length (q st) \<le> length xq" using 2 xq st(3) lenq by simp
    have "wdot (activation xs xq) (?sb * 16) (piece st) = xs ! (?sb * 16 div 32) * (dl st * dot_at F (q st) xq (?sb * 16))"
      unfolding piece_def by (rule wdot_linear [OF F _ room]) (simp add: lenq, simp only: lenq sub_block_index)
    moreover have "i * 256 + s * 16 = ?sb * 16" by simp
    ultimately show ?thesis by (simp only: step_def st Let_def mult.assoc)
  qed
  have "foldl step acc k_steps = acc + wdot (activation xs xq) (i * 256) (concat (map piece k_steps))"
    by (rule fold_pieces [where k = 16]) (use step in \<open>simp_all add: piece_def lenq\<close>)
  moreover have "piece = (\<lambda>st. map (\<lambda>l. dl st * of_int (uint (bits st l) - hb st l)) [0..<16])"
  proof -
    have "uint (bits st l) < 128" for st l
      using low_bounds(2) by (cases st) (force simp: bits_def intro: less_trans)
    moreover have "0 \<le> hb st l \<and> hb st l \<le> 128" for st l by (simp add: hb_def case_prod_unfold)
    ultimately have "sint (bits st l - word_of_int (hb st l)) = uint (bits st l) - hb st l" for st l
      by (intro sint_minus_small) simp_all
    then show ?thesis by (simp add: piece_def q_def o_def)
  qed
  moreover have "q = (\<lambda>st. map (\<lambda>l. (drop_bit (2 * fst (snd st)) (take 32 (drop (fst st * 32) qs) ! (l + snd (snd st))) AND 3) -
      (if hmask ! (l + snd (snd st)) AND push_bit (4 * fst st + fst (snd st)) 1 \<noteq> 0 then 0 else 4)) [0..<16])"
    by (auto simp: q_def bits_def hb_def case_prod_unfold)
  ultimately show ?case
    by (simp add: Let_def case_prod_unfold ring_ops [OF F] step_def dl_def bits_def hb_def mult.commute [of 32]
        flip: d_def hmask_def scales_def qs_def)
next
  case (3 block)
  then show ?case by (simp add: Let_def case_prod_unfold length_concat o_def k_steps_def upt_rec)
qed simp

section \<open>\<open>Q6_K\<close>\<close>

lemma concat_strides: "concat (map (\<lambda>k. map (\<lambda>l. f (k * w + l)) [0..<w]) [0..<m]) = map f [0..<m * (w :: nat)]"
proof (induction m)
  case (Suc m)
  have "map (\<lambda>l. l + m * w) [0..<w] = [m * w..<w + m * w]" by (rule map_add_upt)
  then have "[0..<Suc m * w] = [0..<m * w] @ map (\<lambda>l. m * w + l) [0..<w]"
    using upt_add_eq_append [of 0 "m * w" w] by (simp add: add.commute)
  then show ?case using Suc by (simp add: o_def)
qed simp

text \<open>Strides within halves: the code's order of the sub-blocks of a \<open>Q6_K\<close> block.\<close>

lemma q6_strides:
  "concat (map (\<lambda>half. concat (map (\<lambda>k. map (\<lambda>l. g half k l) [0..<32]) [0..<4])) [0..<2]) =
     map (\<lambda>i. g (i div 128) (i mod 128 div 32) (i mod 32)) [0..<256]"
proof -
  have inner: "concat (map (\<lambda>k. map (\<lambda>l. g half k l) [0..<32]) [0..<4]) = map (\<lambda>i. g half (i div 32) (i mod 32)) [0..<128]" for half
  proof -
    have "concat (map (\<lambda>k. map (\<lambda>l. g half k l) [0..<32]) [0..<4]) =
        concat (map (\<lambda>k. map (\<lambda>l. g half ((k * 32 + l) div 32) ((k * 32 + l) mod 32)) [0..<32]) [0..<4])"
      by (intro arg_cong [where f = concat] map_cong refl) simp
    also have "\<dots> = map (\<lambda>i. g half (i div 32) (i mod 32)) [0..<4 * 32]" by (rule concat_strides)
    finally show ?thesis by simp
  qed
  have "concat (map (\<lambda>half. map (\<lambda>i. g half (i div 32) (i mod 32)) [0..<128]) [0..<2]) =
      concat (map (\<lambda>half. map (\<lambda>i. g ((half * 128 + i) div 128) ((half * 128 + i) mod 128 div 32) ((half * 128 + i) mod 32)) [0..<128]) [0..<2])"
  proof (intro arg_cong [where f = concat] map_cong refl)
    fix half i :: nat assume "i \<in> set [0..<128]"
    moreover have "(half * 128 + i) mod 32 = i mod 32"
      using mod_mult_self3 [of "half * 4" 32 i] by (simp add: mult.commute)
    ultimately show "g half (i div 32) (i mod 32) = g ((half * 128 + i) div 128) ((half * 128 + i) mod 128 div 32) ((half * 128 + i) mod 32)"
      by simp
  qed
  also have "\<dots> = map (\<lambda>i. g (i div 128) (i mod 128 div 32) (i mod 32)) [0..<2 * 128]" by (rule concat_strides)
  finally show ?thesis by (simp add: inner)
qed

lemma q6_index: "i div 128 * 8 + 2 * (i mod 128 div 32) + i mod 32 div 16 = i div (16 :: nat)"
proof -
  have "i mod 128 div 32 = i div 32 mod 4" "i mod 32 div 16 = i div 16 mod 2"
  proof -
    have "i mod (32 * 4) div 32 = i div 32 mod 4" "i mod (16 * 2) div 16 = i div 16 mod 2" unfolding mod_mult2_eq by simp_all
    then show "i mod 128 div 32 = i div 32 mod 4" "i mod 32 div 16 = i div 16 mod 2" by simp_all
  qed
  moreover have "i div 128 = i div 32 div 4" "i div 32 = i div 16 div 2"
    using div_mult2_eq [of i 32 4] div_mult2_eq [of i 16 2] by simp_all
  moreover have "i div 32 div 4 * 4 + i div 32 mod 4 = i div 32" "i div 16 div 2 * 2 + i div 16 mod 2 = i div 16"
    by (rule div_mult_mod_eq)+
  ultimately show ?thesis by linarith
qed

lemma q6_k_dot_exact:
  assumes F: "exact_ring F" and row: "length row = n * 210" and xq: "length xq = n * 256"
  shows "q6_k_dot F row xq xs = wdot (activation xs xq) 0 (dequant_q6_k F row)"
  unfolding q6_k_dot_def dequant_q6_k_def ring_ops(1) [OF F]
proof (rule fold_blocks [OF row, where k = 256], goal_cases)
  case (2 i block acc)
  define d sc where "d = half_at F block 208" and "sc = take 16 (drop 192 block)"
  define ql qh where "ql = (\<lambda>half. take 64 (drop (half * 64) block))" and "qh = (\<lambda>half. take 32 (drop (128 + half * 32) block))"
  define b where "b = (\<lambda>i. q6_bits (ql (i div 128)) (qh (i div 128)) (i mod 128 div 32) (i mod 32))"
  define q where "q = (\<lambda>s. map (\<lambda>l. b (s * 16 + l) - 32) [0..<16])"
  define c where "c = (\<lambda>s. d * of_int (sint (sc ! s)))"
  define piece where "piece = (\<lambda>s. map (\<lambda>w. c s * of_int (sint w)) (q s))"
  define step where "step = (\<lambda>acc s. let off = i * 256 + s * 16 in acc + xs ! (off div 32) * c s * dot_at F (q s) xq off)"
  have sc: "length sc = 16" using 2 by (simp add: sc_def)
  have quants: "q6_quants block = map (\<lambda>i. b i - 32) [0..<256]"
    using q6_strides [of "\<lambda>half k l. q6_bits (ql half) (qh half) k l - 32"]
    by (simp add: q6_quants_def Let_def b_def ql_def qh_def)
  have slice: "take 16 (drop (s * 16) (q6_quants block)) = q s" if "s < 16" for s
    using that by (subst take_as_map) (simp_all add: quants q_def add.commute)
  have step: "step acc s = acc + wdot (activation xs xq) (i * 256 + s * 16) (piece s)" if s: "s < 16" for s acc
  proof -
    have e: "i * 256 + s * 16 = (i * 16 + s) * 16" by simp
    have room: "(i * 16 + s) * 16 + length (q s) \<le> length xq" using 2 xq s by (simp add: q_def)
    have "wdot (activation xs xq) ((i * 16 + s) * 16) (piece s) = xs ! ((i * 16 + s) * 16 div 32) * (c s * dot_at F (q s) xq ((i * 16 + s) * 16))"
      unfolding piece_def by (rule wdot_linear [OF F _ room]) (simp add: q_def, simp only: q_def length_map length_upt diff_zero sub_block_index)
    then show ?thesis by (simp only: step_def Let_def mult.assoc e)
  qed
  have "foldl step acc [0..<16] = acc + wdot (activation xs xq) (i * 256) (concat (map piece [0..<16]))"
    by (rule fold_pieces [where k = 16]) (use step in \<open>simp_all add: piece_def q_def\<close>)
  moreover have "concat (map piece [0..<16]) = map (\<lambda>i. c (i div 16) * of_int (uint (b i) - 32)) [0..<256]"
  proof -
    have "piece = (\<lambda>s. map (\<lambda>l. c ((s * 16 + l) div 16) * of_int (uint (b (s * 16 + l)) - 32)) [0..<16])"
      by (rule ext) (simp add: piece_def q_def b_def sint_q6 o_def cong: map_cong)
    then have "concat (map piece [0..<16]) = map (\<lambda>i. c (i div 16) * of_int (uint (b i) - 32)) [0..<16 * 16]"
      by (simp only: concat_strides [of "\<lambda>i. c (i div 16) * of_int (uint (b i) - 32)" 16 16])
    then show ?thesis by simp
  qed
  moreover have "concat (map (\<lambda>half. concat (map (\<lambda>k. map (\<lambda>l.
        d * of_int (sint (drop (half * 8) sc ! (l div 16 + 2 * k))) *
        of_int (uint (q6_bits (drop (half * 64) (take 128 block)) (drop (half * 32) (take 64 (drop 128 block))) k l) - 32)) [0..<32]) [0..<4])) [0..<2]) =
      map (\<lambda>i. c (i div 16) * of_int (uint (b i) - 32)) [0..<256]"
  proof -
    have "d * of_int (sint (drop (half * 8) sc ! (l div 16 + 2 * k))) *
        of_int (uint (q6_bits (drop (half * 64) (take 128 block)) (drop (half * 32) (take 64 (drop 128 block))) k l) - 32) =
      c (half * 8 + 2 * k + l div 16) * of_int (uint (q6_bits (ql half) (qh half) k l) - 32)"
      if "half < 2" "k < 4" "l < 32" for half k l
      using that 2 sc by (auto simp: c_def q6_bits_def ql_def qh_def ac_simps)
    then have "concat (map (\<lambda>half. concat (map (\<lambda>k. map (\<lambda>l.
          d * of_int (sint (drop (half * 8) sc ! (l div 16 + 2 * k))) *
          of_int (uint (q6_bits (drop (half * 64) (take 128 block)) (drop (half * 32) (take 64 (drop 128 block))) k l) - 32)) [0..<32]) [0..<4])) [0..<2]) =
        concat (map (\<lambda>half. concat (map (\<lambda>k. map (\<lambda>l.
          c (half * 8 + 2 * k + l div 16) * of_int (uint (q6_bits (ql half) (qh half) k l) - 32)) [0..<32]) [0..<4])) [0..<2])"
      by (intro arg_cong [where f = concat] map_cong refl) simp
    also have "\<dots> = map (\<lambda>i. c (i div 128 * 8 + 2 * (i mod 128 div 32) + i mod 32 div 16) * of_int (uint (b i) - 32)) [0..<256]"
      using q6_strides [of "\<lambda>half k l. c (half * 8 + 2 * k + l div 16) * of_int (uint (q6_bits (ql half) (qh half) k l) - 32)"]
      by (simp only: b_def)
    also have "\<dots> = map (\<lambda>i. c (i div 16) * of_int (uint (b i) - 32)) [0..<256]"
    proof (intro map_cong refl)
      fix i :: nat
      note q6_index [of i]
      then show "c (i div 128 * 8 + 2 * (i mod 128 div 32) + i mod 32 div 16) * of_int (uint (b i) - 32) = c (i div 16) * of_int (uint (b i) - 32)"
        by simp
    qed
    finally show ?thesis .
  qed
  moreover have "enumerate 0 sc = map (\<lambda>s. (s, sc ! s)) [0..<16]"
    using sc by (intro nth_equalityI) (simp_all add: nth_enumerate_eq)
  moreover have "foldl (\<lambda>acc s. acc + xs ! ((i * 256 + s * 16) div 32) * d * of_int (sint (sc ! s)) *
        dot_at F (take 16 (drop (s * 16) (q6_quants block))) xq (i * 256 + s * 16)) acc [0..<16] = foldl step acc [0..<16]"
    by (rule foldl_cong) (simp_all add: step_def c_def slice mult.assoc Let_def)
  ultimately show ?case
    by (simp add: Let_def case_prod_unfold ring_ops [OF F] foldl_map flip: d_def sc_def)
next
  case (3 block)
  then show ?case by (simp add: Let_def case_prod_unfold length_concat o_def upt_rec)
qed simp

section \<open>Lengths\<close>

lemma length_blocks:
  assumes "length row = n * bytes" and "0 < bytes" and "\<And>b. length b = bytes \<Longrightarrow> length (f b) = k"
  shows "length (concat (map f (chunks_exact bytes row))) = n * k"
proof -
  note ch = chunks_exact_rows [OF assms(2,1)]
  have "(\<Sum>b \<leftarrow> chunks_exact bytes row. length (f b)) = (\<Sum>b \<leftarrow> chunks_exact bytes row. k)"
    using ch assms(3) by (intro arg_cong [where f = sum_list] map_cong) simp_all
  then show ?thesis using ch by (simp add: length_concat o_def sum_list_triv)
qed

lemma length_q8_0: "length row = n * 34 \<Longrightarrow> length (dequant_q8_0 F row) = n * 32"
  unfolding dequant_q8_0_def by (erule length_blocks) (simp_all add: Let_def)

lemma length_q2_k: "length row = n * 84 \<Longrightarrow> length (dequant_q2_k F row) = n * 256"
  unfolding dequant_q2_k_def by (erule length_blocks) (simp_all add: Let_def case_prod_unfold length_concat o_def k_steps_def upt_rec)

lemma length_q3_k: "length row = n * 110 \<Longrightarrow> length (dequant_q3_k F row) = n * 256"
  unfolding dequant_q3_k_def by (erule length_blocks) (simp_all add: Let_def case_prod_unfold length_concat o_def k_steps_def upt_rec)

lemma length_q4_k: "length row = n * 144 \<Longrightarrow> length (dequant_q4_k F row) = n * 256"
  unfolding dequant_q4_k_def by (erule length_blocks) (simp_all add: Let_def case_prod_unfold length_concat o_def upt_rec)

lemma length_q5_k: "length row = n * 176 \<Longrightarrow> length (dequant_q5_k F row) = n * 256"
  unfolding dequant_q5_k_def by (erule length_blocks) (simp_all add: Let_def case_prod_unfold length_concat o_def upt_rec)

lemma length_q6_k: "length row = n * 210 \<Longrightarrow> length (dequant_q6_k F row) = n * 256"
  unfolding dequant_q6_k_def by (erule length_blocks) (simp_all add: Let_def case_prod_unfold length_concat o_def upt_rec)

section \<open>Every kernel\<close>

text \<open>C30 Every integer kernel, for every format that has one and whatever the packed bytes: with a ring in place of
  the floats, its result is the row that the decoder gives, times the activation \<open>scale * q\<close> that was quantised.
  The packed weights are unpacked the same way in both, no sum of eight-bit products overflows, and factoring
  scales and minima out of the sums loses nothing.\<close>

theorem int8_dot_is_dequantised_dot:
  assumes "exact_ring F" and "has_int8_kernel t" and "byte_size t cols = Inr (length row)" and "cols < 2 ^ 60"
    and "length xq = cols"
  shows "\<exists>ws. dequant_into F t row cols = Inr ws \<and> length ws = cols \<and>
    int8_dot F t row xq xs (map_option (block_sums xq) (sum_width t)) =
      Some (\<Sum>i < cols. ws ! i * (xs ! (i div 32) * of_int (sint (xq ! i))))"
proof -
  obtain elems bytes where lay: "block_layout t = Some (elems, bytes)" "cols mod elems = 0" "length row = cols div elems * bytes mod 2 ^ 64"
    using byte_size_cases [OF assms(3)] by auto
  have e: "32 \<le> elems" "bytes \<le> 210"
    using assms(2) lay(1) by (auto simp: has_int8_kernel_def block_layout_def split: if_splits)
  have "cols div elems \<le> cols div 32" using e by (intro div_le_mono2) simp_all
  then have "cols div elems * bytes \<le> cols div 32 * 210" using e by (intro mult_mono) simp_all
  then have row: "length row = cols div elems * bytes" using lay(3) assms(4) by simp
  have xq: "length xq = cols div elems * elems" using assms(5) lay(2) div_mult_mod_eq [of cols elems] by simp
  have goal: ?thesis if "dequant_into F t row cols = Inr ws" "length ws = cols"
    "int8_dot F t row xq xs (map_option (block_sums xq) (sum_width t)) = Some (wdot (activation xs xq) 0 ws)" for ws
    using that by (simp add: wdot_def activation_def)
  consider "t = 8" | "t = 10" | "t = 11" | "t = 12" | "t = 13" | "t = 14" using assms(2) by (auto simp: has_int8_kernel_def)
  then show ?thesis
  proof cases
    case 1
    then have lay': "elems = 32" "bytes = 34" using lay(1) by (simp_all add: block_layout_def)
    show ?thesis
      using goal [of "dequant_q8_0 F row"] q8_0_dot_exact [OF assms(1) row [unfolded lay'] xq [unfolded lay'], of xs]
        length_q8_0 [OF row [unfolded lay'], of F] xq assms(3,5) 1 lay'
      by (simp add: dequant_into_def int8_dot_def sum_width_def)
  next
    case 2
    then have lay': "elems = 256" "bytes = 84" using lay(1) by (simp_all add: block_layout_def)
    show ?thesis
      using goal [of "dequant_q2_k F row"] q2_k_dot_exact [OF assms(1) row [unfolded lay'] xq [unfolded lay'], of xs]
        length_q2_k [OF row [unfolded lay'], of F] xq assms(3,5) 2 lay'
      by (simp add: dequant_into_def int8_dot_def sum_width_def)
  next
    case 3
    then have lay': "elems = 256" "bytes = 110" using lay(1) by (simp_all add: block_layout_def)
    show ?thesis
      using goal [of "dequant_q3_k F row"] q3_k_dot_exact [OF assms(1) row [unfolded lay'] xq [unfolded lay'], of xs]
        length_q3_k [OF row [unfolded lay'], of F] xq assms(3,5) 3 lay'
      by (simp add: dequant_into_def int8_dot_def sum_width_def)
  next
    case 4
    then have lay': "elems = 256" "bytes = 144" using lay(1) by (simp_all add: block_layout_def)
    show ?thesis
      using goal [of "dequant_q4_k F row"] q4_k_dot_exact [OF assms(1) row [unfolded lay'] xq [unfolded lay'], of xs]
        length_q4_k [OF row [unfolded lay'], of F] xq assms(3,5) 4 lay'
      by (simp add: dequant_into_def int8_dot_def sum_width_def)
  next
    case 5
    then have lay': "elems = 256" "bytes = 176" using lay(1) by (simp_all add: block_layout_def)
    show ?thesis
      using goal [of "dequant_q5_k F row"] q5_k_dot_exact [OF assms(1) row [unfolded lay'] xq [unfolded lay'], of xs]
        length_q5_k [OF row [unfolded lay'], of F] xq assms(3,5) 5 lay'
      by (simp add: dequant_into_def int8_dot_def sum_width_def)
  next
    case 6
    then have lay': "elems = 256" "bytes = 210" using lay(1) by (simp_all add: block_layout_def)
    show ?thesis
      using goal [of "dequant_q6_k F row"] q6_k_dot_exact [OF assms(1) row [unfolded lay'] xq [unfolded lay'], of xs]
        length_q6_k [OF row [unfolded lay'], of F] xq assms(3,5) 6 lay'
      by (simp add: dequant_into_def int8_dot_def sum_width_def)
  qed
qed

lemma int8_dot_is_dequantised_dot_witness:
  "\<exists>ws. dequant_into int_q 8 (0 # 60 # replicate 32 1) 32 = Inr ws \<and> length ws = 32 \<and>
    int8_dot int_q 8 (0 # 60 # replicate 32 1) (replicate 32 3) [2] (map_option (block_sums (replicate 32 3)) (sum_width 8)) =
      Some (\<Sum>i < 32. ws ! i * ([2] ! (i div 32) * of_int (sint (replicate 32 (3 :: 8 word) ! i))))"
  by (rule int8_dot_is_dequantised_dot)
     (simp_all add: exact_ring_def int_q_def has_int8_kernel_def byte_size_def block_layout_def)

end
