(* ===== verification/BlockStream.thy ===== *)
theory BlockStream
  imports Core
begin

text \<open>
  \<open>garuda/src/stream/mod.rs\<close>: the ring of buffers through which the blocks of a checkpoint
  larger than memory pass. A slot's mutex is the entry of \<open>held\<close>: a guard keeps its slot locked,
  and a fetch of that slot waits. What the kernel answers to a \<open>read_at\<close> is an argument, one
  answer per offset of the fill (within one fill the offset strictly grows). \<open>stream_step\<close> is
  the ring shared by the pass and the background readers, one lock acquisition at a time.
\<close>

section \<open>The ring\<close>

record slot_state =
  sl_block :: "nat option"
  sl_ready :: bool
  sl_buf :: "u8 list"

record block_streamer =
  st_file :: "u8 list"
  st_spans :: "(nat \<times> nat) list"
  st_slots :: "slot_state list"
  st_hits :: nat
  st_inline :: nat

definition SLOTS :: nat where
  "SLOTS = 3"

definition stream_open :: "u8 list option \<Rightarrow> (nat \<times> nat) list \<Rightarrow> block_streamer res" where
  "stream_open img spans = (case img of None \<Rightarrow> Inl (Io ''{e}'')
     | Some bs \<Rightarrow> Inr \<lparr>st_file = bs, st_spans = spans,
         st_slots = replicate SLOTS \<lparr>sl_block = None, sl_ready = False, sl_buf = []\<rparr>, st_hits = 0, st_inline = 0\<rparr>)"

definition span_at :: "block_streamer \<Rightarrow> nat \<Rightarrow> (nat \<times> nat) option" where
  "span_at S l = (if l < length (st_spans S) then Some (st_spans S ! l) else None)"

definition streams :: "block_streamer \<Rightarrow> nat \<Rightarrow> bool" where
  "streams S l = (case span_at S l of None \<Rightarrow> False | Some (_, len) \<Rightarrow> 0 < len)"

definition stream_base :: "block_streamer \<Rightarrow> nat \<Rightarrow> nat" where
  "stream_base S l = (case span_at S l of None \<Rightarrow> 0 | Some (start, _) \<Rightarrow> start)"

section \<open>Filling a slot\<close>

text \<open>A \<open>read_at\<close> fails, or copies some bytes of the file that fit the buffer. \<open>Some k\<close> is a
  kernel that would give up to \<open>k\<close> bytes.\<close>

definition read_at :: "u8 list \<Rightarrow> nat option \<Rightarrow> nat \<Rightarrow> nat \<Rightarrow> u8 list option" where
  "read_at img ans off room = (case ans of None \<Rightarrow> None | Some k \<Rightarrow> Some (take (min k room) (drop off img)))"

definition resize :: "nat \<Rightarrow> u8 list \<Rightarrow> u8 list" where
  "resize len buf = take len buf @ replicate (len - length buf) 0"

function fill_loop :: "u8 list \<Rightarrow> (nat \<Rightarrow> nat option) \<Rightarrow> nat \<Rightarrow> nat \<Rightarrow> nat \<Rightarrow> u8 list \<Rightarrow> nat \<times> u8 list" where
  "fill_loop img ans start len at buf =
     (if at < len then
        (case read_at img (ans at) (start + at) (len - at) of
           None \<Rightarrow> (at, buf)
         | Some bs \<Rightarrow> if bs = [] then (at, buf)
             else fill_loop img ans start len (at + length bs) (take at buf @ bs @ drop (at + length bs) buf))
      else (at, buf))"
  by pat_completeness auto
termination
  by (relation "measure (\<lambda>(img, ans, start, len, at, buf). len - at)")
    (auto simp: length_greater_0_conv [symmetric] simp del: length_greater_0_conv)

declare fill_loop.simps [simp del]

lemma fill_loop_steps:
  "len \<le> at \<Longrightarrow> fill_loop img ans start len at buf = (at, buf)"
  "at < len \<Longrightarrow> read_at img (ans at) (start + at) (len - at) = None \<Longrightarrow> fill_loop img ans start len at buf = (at, buf)"
  "at < len \<Longrightarrow> read_at img (ans at) (start + at) (len - at) = Some (b # bs) \<Longrightarrow> fill_loop img ans start len at buf =
     fill_loop img ans start len (at + length (b # bs)) (take at buf @ (b # bs) @ drop (at + length (b # bs)) buf)"
  by (simp_all add: fill_loop.simps [of img ans start len at buf])

definition fill :: "block_streamer \<Rightarrow> (nat \<Rightarrow> nat option) \<Rightarrow> nat \<Rightarrow> slot_state \<Rightarrow> slot_state" where
  "fill S ans l st = (case span_at S l of None \<Rightarrow> st
     | Some (start, len) \<Rightarrow>
         (case fill_loop (st_file S) ans start len 0 (resize len (sl_buf st)) of (at, buf) \<Rightarrow>
            if at = len then \<lparr>sl_block = Some l, sl_ready = True, sl_buf = buf\<rparr>
            else \<lparr>sl_block = None, sl_ready = False, sl_buf = buf\<rparr>))"

definition slot_of :: "block_streamer \<Rightarrow> nat \<Rightarrow> nat" where
  "slot_of S l = l mod length (st_slots S)"

definition has_block :: "nat \<Rightarrow> slot_state \<Rightarrow> bool" where
  "has_block l st \<longleftrightarrow> sl_block st = Some l \<and> sl_ready st"

definition fetch :: "(nat \<Rightarrow> nat option) \<Rightarrow> nat \<Rightarrow> block_streamer \<Rightarrow> block_streamer" where
  "fetch ans l S =
     (if \<not> streams S l then S
      else (let i = slot_of S l; st = st_slots S ! i in
        if has_block l st then S else S\<lparr>st_slots := (st_slots S)[i := fill S ans l st]\<rparr>))"

definition borrow :: "(nat \<Rightarrow> nat option) \<Rightarrow> nat \<Rightarrow> block_streamer \<Rightarrow> block_streamer" where
  "borrow ans l S = (let i = slot_of S l; st = st_slots S ! i in
     if has_block l st then S\<lparr>st_hits := st_hits S + 1\<rparr>
     else S\<lparr>st_inline := st_inline S + 1, st_slots := (st_slots S)[i := fill S ans l st]\<rparr>)"

definition guard_bytes :: "block_streamer \<Rightarrow> nat \<Rightarrow> u8 list" where
  "guard_bytes S i = sl_buf (st_slots S ! i)"

definition stream_stats :: "block_streamer \<Rightarrow> nat \<times> nat" where
  "stream_stats S = (st_hits S, st_inline S)"

section \<open>A filled slot holds the block\<close>

definition block_bytes :: "block_streamer \<Rightarrow> nat \<Rightarrow> u8 list" where
  "block_bytes S l = (case span_at S l of None \<Rightarrow> [] | Some (start, len) \<Rightarrow> take len (drop start (st_file S)))"

text \<open>The reads of a fill go through: no call fails or comes back empty-handed, and the span lies
  in the file.\<close>

definition reads_through :: "(nat \<Rightarrow> nat option) \<Rightarrow> bool" where
  "reads_through ans \<longleftrightarrow> (\<forall>at. \<exists>k > 0. ans at = Some k)"

definition span_in_file :: "block_streamer \<Rightarrow> nat \<Rightarrow> bool" where
  "span_in_file S l = (case span_at S l of None \<Rightarrow> False | Some (start, len) \<Rightarrow> start + len \<le> length (st_file S))"

lemma length_resize [simp]: "length (resize len buf) = len"
  by (simp add: resize_def)

lemma read_at_Some: "read_at img a off room = Some bs \<Longrightarrow> length bs \<le> room \<and> bs = take (length bs) (drop off img)"
  by (auto simp: read_at_def min_def split: option.splits)

lemma fill_loop_bytes:
  assumes "length buf = len" and "at \<le> len" and "take at buf = take at (drop start img)"
    and "fill_loop img ans start len at buf = (at', buf')"
  shows "length buf' = len \<and> at' \<le> len \<and> take at' buf' = take at' (drop start img)"
  using assms
proof (induction img ans start len at buf arbitrary: at' buf' rule: fill_loop.induct)
  case (1 img ans start len at buf)
  show ?case
  proof (cases "at < len")
    case False
    then have "fill_loop img ans start len at buf = (at, buf)" by (simp add: fill_loop.simps [of img ans start len at buf])
    then show ?thesis using 1(2-) by auto
  next
    case True
    show ?thesis
    proof (cases "read_at img (ans at) (start + at) (len - at)")
      case None
      then show ?thesis using 1(2-) True by (simp add: fill_loop.simps [of img ans start len at buf])
    next
      case (Some bs)
      note bs = read_at_Some [OF Some]
      let ?buf = "take at buf @ bs @ drop (at + length bs) buf"
      show ?thesis
      proof (cases "bs = []")
        case True
        then show ?thesis using 1(2-) Some \<open>at < len\<close> by (simp add: fill_loop.simps [of img ans start len at buf])
      next
        case False
        have "take (at + length bs) (drop start img) = take at (drop start img) @ take (length bs) (drop at (drop start img))"
          by (rule take_add)
        also have "drop at (drop start img) = drop (start + at) img" by (simp add: add.commute)
        also have "take (length bs) (drop (start + at) img) = bs" using bs by simp
        finally have eq: "take (at + length bs) (drop start img) = take at buf @ bs" using 1(4) by simp
        have pre: "take (at + length bs) ?buf = take (at + length bs) (drop start img)"
          using eq 1(2) True by (simp add: less_imp_le)
        have le: "at + length bs \<le> len" using conjunct1 [OF bs] True by linarith
        then have "length ?buf = len" using 1(2) by simp
        moreover have "fill_loop img ans start len (at + length bs) ?buf = (at', buf')"
          using 1(5) Some False True by (simp add: fill_loop.simps [of img ans start len at buf])
        ultimately show ?thesis using 1(1) [OF True Some False] pre le by blast
      qed
    qed
  qed
qed

lemma fill_loop_through:
  assumes "reads_through ans" and "start + len \<le> length img" and "at \<le> len"
  shows "fst (fill_loop img ans start len at buf) = len"
  using assms(3)
proof (induction "len - at" arbitrary: at buf rule: less_induct)
  case less
  show ?case
  proof (cases "at < len")
    case True
    obtain k where k: "ans at = Some k" "0 < k" using assms(1) unfolding reads_through_def by blast
    define bs where "bs = take (min k (len - at)) (drop (start + at) img)"
    have r: "read_at img (ans at) (start + at) (len - at) = Some bs" by (simp add: read_at_def k bs_def)
    have "length bs = min k (len - at)" using assms(2) True by (simp add: bs_def)
    then have n: "bs \<noteq> []" "at + length bs \<le> len" "len - (at + length bs) < len - at" using k True by auto
    show ?thesis using less(1) [OF n(3) n(2)] True r n(1) by (simp add: fill_loop.simps [of img ans start len at buf])
  qed (use less in \<open>simp add: fill_loop.simps\<close>)
qed

lemma fill_ready:
  assumes "sl_ready (fill S ans l st)" and "l < length (st_spans S)"
  shows "sl_block (fill S ans l st) = Some l \<and> sl_buf (fill S ans l st) = block_bytes S l"
proof -
  obtain start len where sp: "span_at S l = Some (start, len)" using assms(2) by (fastforce simp: span_at_def)
  obtain at buf where f: "fill_loop (st_file S) ans start len 0 (resize len (sl_buf st)) = (at, buf)" by fastforce
  have "at = len" using assms(1) sp f by (simp add: fill_def split: if_splits)
  moreover have b: "length buf = len" "take at buf = take at (drop start (st_file S))"
    using fill_loop_bytes [OF _ _ _ f] by simp_all
  moreover have "take len buf = buf" using b(1) by simp
  ultimately show ?thesis using sp f by (simp add: fill_def block_bytes_def)
qed

lemma fill_through:
  assumes "reads_through ans" and "span_in_file S l"
  shows "has_block l (fill S ans l st) \<and> sl_buf (fill S ans l st) = block_bytes S l"
proof -
  obtain start len where sp: "span_at S l = Some (start, len)" and le: "start + len \<le> length (st_file S)"
    using assms(2) by (auto simp: span_in_file_def split: option.splits)
  have "fst (fill_loop (st_file S) ans start len 0 (resize len (sl_buf st))) = len"
    using fill_loop_through [OF assms(1) le] by simp
  then have "has_block l (fill S ans l st)"
    using sp by (auto simp: fill_def has_block_def split: prod.splits)
  moreover have "l < length (st_spans S)" using sp by (auto simp: span_at_def split: if_splits)
  ultimately show ?thesis using fill_ready by (simp add: has_block_def)
qed

section \<open>The ring under interleaving\<close>

text \<open>The slots of a ring never claim a block whose bytes they do not hold.\<close>

definition ring_ok :: "block_streamer \<Rightarrow> bool" where
  "ring_ok S \<longleftrightarrow> length (st_slots S) = SLOTS \<and>
     (\<forall>st \<in> set (st_slots S). \<forall>l. has_block l st \<longrightarrow> l < length (st_spans S) \<and> sl_buf st = block_bytes S l)"

lemma slot_of_lt: "ring_ok S \<Longrightarrow> slot_of S l < length (st_slots S)"
  by (simp add: slot_of_def ring_ok_def SLOTS_def)

lemma fill_has_block:
  assumes "has_block m (fill S ans l st)" and "has_block m st \<Longrightarrow> m < length (st_spans S) \<and> sl_buf st = block_bytes S m"
  shows "m < length (st_spans S) \<and> sl_buf (fill S ans l st) = block_bytes S m"
proof (cases "l < length (st_spans S)")
  case True
  have "sl_ready (fill S ans l st)" using assms(1) by (simp add: has_block_def)
  from fill_ready [OF this True] assms(1) True show ?thesis by (simp add: has_block_def)
next
  case False
  then have "fill S ans l st = st" by (simp add: fill_def span_at_def)
  then show ?thesis using assms by simp
qed

lemma ring_ok_fill:
  assumes "ring_ok S"
  shows "ring_ok (S\<lparr>st_slots := (st_slots S)[i := fill S ans l (st_slots S ! i)], st_hits := h, st_inline := n\<rparr>)"
proof -
  have same: "block_bytes (S\<lparr>st_slots := x, st_hits := h, st_inline := n\<rparr>) m = block_bytes S m" for x m
    by (simp add: block_bytes_def span_at_def)
  have "m < length (st_spans S) \<and> sl_buf st = block_bytes S m"
    if "st \<in> set ((st_slots S)[i := fill S ans l (st_slots S ! i)])" and "has_block m st" for st m
  proof (cases "i < length (st_slots S) \<and> st = fill S ans l (st_slots S ! i)")
    case True
    then have "st_slots S ! i \<in> set (st_slots S)" by simp
    then show ?thesis using fill_has_block [of m S ans l "st_slots S ! i"] that(2) True assms unfolding ring_ok_def by blast
  next
    case False
    then have "st \<in> set (st_slots S)" using that(1)
      by (cases "i < length (st_slots S)") (auto simp: list_update_beyond dest: set_update_subset_insert [THEN subsetD])
    then show ?thesis using that(2) assms unfolding ring_ok_def by blast
  qed
  then show ?thesis using assms unfolding ring_ok_def by (simp add: same)
qed

lemma ring_ok_open: "stream_open f spans = Inr S \<Longrightarrow> ring_ok S"
  by (auto simp: stream_open_def ring_ok_def has_block_def split: option.splits)

lemma ring_ok_fetch: "ring_ok S \<Longrightarrow> ring_ok (fetch ans l S)"
  using ring_ok_fill [of S, where i = "slot_of S l" and ans = ans and l = l and h = "st_hits S" and n = "st_inline S"] by (simp add: fetch_def Let_def)

lemma ring_ok_borrow: "ring_ok S \<Longrightarrow> ring_ok (borrow ans l S)"
  using ring_ok_fill [of S, where i = "slot_of S l" and ans = ans and l = l and h = "st_hits S" and n = "st_inline S + 1"]
  by (auto simp: borrow_def Let_def ring_ok_def block_bytes_def span_at_def)

lemma borrow_bytes:
  assumes "ring_ok S" and "reads_through ans" and "span_in_file S l"
  shows "guard_bytes (borrow ans l S) (slot_of S l) = block_bytes S l"
proof (cases "has_block l (st_slots S ! slot_of S l)")
  case True
  have "st_slots S ! slot_of S l \<in> set (st_slots S)" using slot_of_lt [OF assms(1)] by simp
  then show ?thesis using True assms(1) by (auto simp: borrow_def Let_def guard_bytes_def ring_ok_def)
next
  case False
  then show ?thesis using fill_through [OF assms(2,3)] slot_of_lt [OF assms(1)]
    by (simp add: borrow_def Let_def guard_bytes_def)
qed

section \<open>The pass and its background readers\<close>

text \<open>\<open>ss_held\<close> are the slots the pass has borrowed, with the block it asked for; \<open>ss_jobs\<close> is the block
  each reader thread has taken off the channel and not yet fetched.\<close>

record stream_sys =
  ss_ring :: block_streamer
  ss_held :: "nat \<rightharpoonup> nat"
  ss_queue :: "nat list"
  ss_jobs :: "nat option list"

definition prefetcher_new :: "block_streamer \<Rightarrow> nat \<Rightarrow> stream_sys" where
  "prefetcher_new S threads = \<lparr>ss_ring = S, ss_held = Map.empty, ss_queue = [], ss_jobs = replicate (max threads 1) None\<rparr>"

definition stream_depth :: nat where
  "stream_depth = max (SLOTS - 1) 1"

text \<open>The channel holds as many requests as there are threads; a request that finds it full is dropped.\<close>

definition try_send :: "nat \<Rightarrow> nat list \<Rightarrow> nat \<Rightarrow> nat list" where
  "try_send cap q b = (if length q < cap then q @ [b] else q)"

definition hint_ahead :: "nat \<Rightarrow> stream_sys \<Rightarrow> stream_sys" where
  "hint_ahead l s = s\<lparr>ss_queue := foldl (\<lambda>q ahead. try_send (length (ss_jobs s)) q (l + ahead)) (ss_queue s) [1..<stream_depth + 1]\<rparr>"

text \<open>One step of the pass (\<open>Hint\<close>, \<open>Borrow\<close>, \<open>Release\<close>) or of reader \<open>t\<close> (\<open>Recv\<close>, \<open>Fetch\<close>); \<open>None\<close> is a thread that
  has to wait.\<close>

datatype stream_label = Hint nat | Recv nat | Fetch nat "nat \<Rightarrow> nat option" | Borrow nat "nat \<Rightarrow> nat option" | Release nat

fun stream_step :: "stream_label \<Rightarrow> stream_sys \<Rightarrow> stream_sys option" where
  "stream_step (Hint l) s = Some (hint_ahead l s)"
| "stream_step (Recv t) s = (case ss_queue s of [] \<Rightarrow> None
     | b # q \<Rightarrow> if t < length (ss_jobs s) \<and> ss_jobs s ! t = None
         then Some (s\<lparr>ss_queue := q, ss_jobs := (ss_jobs s)[t := Some b]\<rparr>) else None)"
| "stream_step (Fetch t ans) s = (case if t < length (ss_jobs s) then ss_jobs s ! t else None of None \<Rightarrow> None
     | Some b \<Rightarrow> if streams (ss_ring s) b \<and> ss_held s (slot_of (ss_ring s) b) \<noteq> None then None
         else Some (s\<lparr>ss_ring := fetch ans b (ss_ring s), ss_jobs := (ss_jobs s)[t := None]\<rparr>))"
| "stream_step (Borrow l ans) s = (let i = slot_of (ss_ring s) l in
     if ss_held s i \<noteq> None then None
     else Some (s\<lparr>ss_ring := borrow ans l (ss_ring s), ss_held := (ss_held s)(i \<mapsto> l)\<rparr>))"
| "stream_step (Release i) s = (if ss_held s i = None then None else Some (s\<lparr>ss_held := (ss_held s)(i := None)\<rparr>))"

fun stream_run :: "stream_label list \<Rightarrow> stream_sys \<Rightarrow> stream_sys option" where
  "stream_run [] s = Some s"
| "stream_run (a # as) s = (case stream_step a s of None \<Rightarrow> None | Some s' \<Rightarrow> stream_run as s')"

lemma ring_geometry [simp]:
  "st_spans (fetch ans l S) = st_spans S" "st_file (fetch ans l S) = st_file S"
  "st_spans (borrow ans l S) = st_spans S" "st_file (borrow ans l S) = st_file S"
  "length (st_slots (fetch ans l S)) = length (st_slots S)" "length (st_slots (borrow ans l S)) = length (st_slots S)"
  by (simp_all add: fetch_def borrow_def Let_def)

lemma stream_step_geometry:
  "stream_step a s = Some s' \<Longrightarrow> st_spans (ss_ring s') = st_spans (ss_ring s) \<and> st_file (ss_ring s') = st_file (ss_ring s) \<and>
     length (st_slots (ss_ring s')) = length (st_slots (ss_ring s))"
  by (cases a) (auto simp: hint_ahead_def Let_def split: option.splits if_splits list.splits)

lemma stream_step_ok: "stream_step a s = Some s' \<Longrightarrow> ring_ok (ss_ring s) \<Longrightarrow> ring_ok (ss_ring s')"
  by (cases a) (auto simp: hint_ahead_def Let_def ring_ok_fetch ring_ok_borrow split: option.splits if_splits list.splits)

lemma stream_run_ok: "stream_run as s = Some s' \<Longrightarrow> ring_ok (ss_ring s) \<Longrightarrow>
    ring_ok (ss_ring s') \<and> st_spans (ss_ring s') = st_spans (ss_ring s) \<and> st_file (ss_ring s') = st_file (ss_ring s)"
proof (induction as arbitrary: s)
  case (Cons a as)
  obtain s1 where s1: "stream_step a s = Some s1" "stream_run as s1 = Some s'"
    using Cons.prems(1) by (auto split: option.splits)
  show ?case using Cons.IH [OF s1(2) stream_step_ok [OF s1(1) Cons.prems(2)]] stream_step_geometry [OF s1(1)] by simp
qed simp

text \<open>A slot that is borrowed keeps its bytes until it is released.\<close>

lemma fetch_other: "slot_of S b \<noteq> i \<Longrightarrow> st_slots (fetch ans b S) ! i = st_slots S ! i"
  by (simp add: fetch_def Let_def)

lemma borrow_other: "slot_of S b \<noteq> i \<Longrightarrow> st_slots (borrow ans b S) ! i = st_slots S ! i"
  by (simp add: borrow_def Let_def)

lemma stream_step_held:
  assumes "stream_step a s = Some s'" and "ss_held s i \<noteq> None" and "a \<noteq> Release i"
  shows "guard_bytes (ss_ring s') i = guard_bytes (ss_ring s) i \<and> ss_held s' i = ss_held s i"
proof (cases a)
  case (Fetch t ans)
  then obtain b where s': "s' = s\<lparr>ss_ring := fetch ans b (ss_ring s), ss_jobs := (ss_jobs s)[t := None]\<rparr>"
    "\<not> (streams (ss_ring s) b \<and> ss_held s (slot_of (ss_ring s) b) \<noteq> None)"
    using assms(1) by (auto split: option.splits if_splits)
  then have "slot_of (ss_ring s) b \<noteq> i \<or> \<not> streams (ss_ring s) b" using assms(2) by metis
  then show ?thesis using s'(1) by (auto simp: guard_bytes_def fetch_other) (simp add: fetch_def)
next
  case (Borrow l ans)
  then have "slot_of (ss_ring s) l \<noteq> i" using assms(1,2) by (auto simp: Let_def split: if_splits)
  then show ?thesis using Borrow assms(1) by (auto simp: Let_def guard_bytes_def borrow_other split: if_splits)
qed (use assms in \<open>auto simp: hint_ahead_def split: list.splits if_splits\<close>)

lemma stream_run_held:
  "stream_run as s = Some s' \<Longrightarrow> ss_held s i \<noteq> None \<Longrightarrow> Release i \<notin> set as \<Longrightarrow>
     guard_bytes (ss_ring s') i = guard_bytes (ss_ring s) i \<and> ss_held s' i = ss_held s i"
proof (induction as arbitrary: s)
  case (Cons a as)
  obtain s1 where s1: "stream_step a s = Some s1" "stream_run as s1 = Some s'"
    using Cons.prems(1) by (auto split: option.splits)
  have "guard_bytes (ss_ring s1) i = guard_bytes (ss_ring s) i \<and> ss_held s1 i = ss_held s i"
    using stream_step_held [OF s1(1) Cons.prems(2)] Cons.prems(3) by auto
  with Cons.IH [OF s1(2)] Cons.prems show ?case by simp
qed simp

text \<open>C21 The block the pass borrows is the block the file holds. After any interleaving of hints,
  background fetches (whose reads may fail or come back short) and earlier borrows, a borrow whose
  own reads go through gives exactly the span's bytes, whether the block had been fetched ahead or
  is read inline; and for as long as the guard is kept, whatever the readers do meanwhile, the bytes
  stay those.\<close>

theorem borrowed_block_is_the_file:
  assumes "stream_open (Some img) spans = Inr S" and "stream_run as (prefetcher_new S threads) = Some s"
    and "stream_step (Borrow l ans) s = Some s1" and "reads_through ans"
    and "l < length spans" and "fst (spans ! l) + snd (spans ! l) \<le> length img"
    and "stream_run bs s1 = Some s2" and "Release (l mod SLOTS) \<notin> set bs"
  shows "guard_bytes (ss_ring s2) (l mod SLOTS) = take (snd (spans ! l)) (drop (fst (spans ! l)) img)"
proof -
  have S: "st_file S = img" "st_spans S = spans" using assms(1) by (auto simp: stream_open_def)
  have "ring_ok S" by (rule ring_ok_open [OF assms(1)])
  then have s: "ring_ok (ss_ring s)" "st_spans (ss_ring s) = spans" "st_file (ss_ring s) = img"
    using stream_run_ok [OF assms(2)] S by (simp_all add: prefetcher_new_def)
  then have i: "slot_of (ss_ring s) l = l mod SLOTS" by (simp add: slot_of_def ring_ok_def)
  have s1: "s1 = s\<lparr>ss_ring := borrow ans l (ss_ring s), ss_held := (ss_held s)(l mod SLOTS \<mapsto> l)\<rparr>"
    using assms(3) i by (auto simp: Let_def split: if_splits)
  have sp: "span_at (ss_ring s) l = Some (spans ! l)" using s(2) assms(5) by (simp add: span_at_def)
  then have "span_in_file (ss_ring s) l" using assms(6) s(3) by (cases "spans ! l") (simp add: span_in_file_def)
  then have "guard_bytes (ss_ring s1) (l mod SLOTS) = block_bytes (ss_ring s) l"
    using borrow_bytes [OF s(1) assms(4), of l] i by (simp add: s1)
  moreover have "guard_bytes (ss_ring s2) (l mod SLOTS) = guard_bytes (ss_ring s1) (l mod SLOTS)"
    using stream_run_held [OF assms(7) _ assms(8)] by (simp add: s1)
  ultimately show ?thesis using sp s(3) by (simp add: block_bytes_def split: prod.splits)
qed

definition one_byte :: "nat \<Rightarrow> nat option" where
  "one_byte at = Some 1"

definition no_read :: "nat \<Rightarrow> nat option" where
  "no_read at = None"

definition four_spans :: "(nat \<times> nat) list" where
  "four_spans = [(0, 1), (1, 2), (3, 1), (4, 2)]"

definition small_ring :: "slot_state \<Rightarrow> slot_state \<Rightarrow> nat \<Rightarrow> block_streamer" where
  "small_ring st1 st2 n = \<lparr>st_file = [10, 11, 12, 13, 14, 15], st_spans = four_spans,
     st_slots = [\<lparr>sl_block = None, sl_ready = False, sl_buf = []\<rparr>, st1, st2], st_hits = 0, st_inline = n\<rparr>"

definition empty_slot :: slot_state where
  "empty_slot = \<lparr>sl_block = None, sl_ready = False, sl_buf = []\<rparr>"

lemma ahead_list: "[1..<stream_depth + 1] = [1, 2]"
  by code_simp

lemma hint_ahead_two: "hint_ahead l s = (let c = length (ss_jobs s) in
    s\<lparr>ss_queue := try_send c (try_send c (ss_queue s) (l + 1)) (l + 2)\<rparr>)"
  unfolding hint_ahead_def ahead_list by (simp add: Let_def)

lemma small_fills:
  "fill (small_ring st1 st2 n) no_read 1 empty_slot = \<lparr>sl_block = None, sl_ready = False, sl_buf = [0, 0]\<rparr>"
  "fill (small_ring st1 st2 n) one_byte 1 \<lparr>sl_block = None, sl_ready = False, sl_buf = [0, 0]\<rparr> = \<lparr>sl_block = Some 1, sl_ready = True, sl_buf = [11, 12]\<rparr>"
  "fill (small_ring st1 st2 n) one_byte 2 empty_slot = \<lparr>sl_block = Some 2, sl_ready = True, sl_buf = [13]\<rparr>"
  by (simp_all add: fill_def small_ring_def four_spans_def span_at_def empty_slot_def resize_def fill_loop_steps read_at_def
      no_read_def one_byte_def eval_nat_numeral)

lemma borrowed_block_is_the_file_witness:
  "\<exists>s s1 s2. stream_run [Hint 0, Recv 0, Fetch 0 no_read] (prefetcher_new (small_ring empty_slot empty_slot 0) 2) = Some s \<and>
     stream_step (Borrow 1 one_byte) s = Some s1 \<and> stream_run [Recv 0, Fetch 0 one_byte, Hint 1] s1 = Some s2 \<and>
     guard_bytes (ss_ring s2) 1 = [11, 12]"
proof -
  let ?zero = "\<lparr>sl_block = None, sl_ready = False, sl_buf = [0, 0]\<rparr>"
  let ?one = "\<lparr>sl_block = Some 1, sl_ready = True, sl_buf = [11, 12]\<rparr>"
  let ?two = "\<lparr>sl_block = Some 2, sl_ready = True, sl_buf = [13]\<rparr>"
  note geo = streams_def span_at_def slot_of_def has_block_def four_spans_def Let_def try_send_def hint_ahead_two
  have o: "stream_open (Some [10, 11, 12, 13, 14, 15]) four_spans = Inr (small_ring empty_slot empty_slot 0)"
    by (simp add: stream_open_def small_ring_def SLOTS_def empty_slot_def numeral_3_eq_3)
  have f1: "fetch no_read 1 (small_ring empty_slot empty_slot 0) = small_ring ?zero empty_slot 0"
    using small_fills(1) [of empty_slot empty_slot 0] by (simp add: fetch_def geo small_ring_def) (simp add: empty_slot_def)
  have b1: "borrow one_byte 1 (small_ring ?zero empty_slot 0) = small_ring ?one empty_slot 1"
    using small_fills(2) [of ?zero empty_slot 0] by (simp add: borrow_def geo small_ring_def)
  have f2: "fetch one_byte 2 (small_ring ?one empty_slot 1) = small_ring ?one ?two 1"
    using small_fills(3) [of ?one empty_slot 1] by (simp add: fetch_def geo small_ring_def) (simp add: empty_slot_def)
  have at: "streams (small_ring x y n) 1" "streams (small_ring x y n) 2" "slot_of (small_ring x y n) 1 = 1"
    "slot_of (small_ring x y n) 2 = 2" for x y n
    by (simp_all add: small_ring_def geo)
  have p: "prefetcher_new (small_ring empty_slot empty_slot 0) 2 = \<lparr>ss_ring = small_ring empty_slot empty_slot 0,
      ss_held = Map.empty, ss_queue = [], ss_jobs = [None, None]\<rparr>" by (simp add: prefetcher_new_def numeral_2_eq_2)
  have s: "stream_run [Hint 0, Recv 0, Fetch 0 no_read] (prefetcher_new (small_ring empty_slot empty_slot 0) 2) =
      Some \<lparr>ss_ring = small_ring ?zero empty_slot 0, ss_held = Map.empty, ss_queue = [2], ss_jobs = [None, None]\<rparr>"
    using f1 by (simp add: p hint_ahead_two try_send_def Let_def at)
  have s1: "stream_step (Borrow 1 one_byte) \<lparr>ss_ring = small_ring ?zero empty_slot 0, ss_held = Map.empty, ss_queue = [2], ss_jobs = [None, None]\<rparr> =
      Some \<lparr>ss_ring = small_ring ?one empty_slot 1, ss_held = [1 \<mapsto> 1], ss_queue = [2], ss_jobs = [None, None]\<rparr>"
    using b1 at by (simp add: Let_def)
  have s2: "stream_run [Recv 0, Fetch 0 one_byte, Hint 1] \<lparr>ss_ring = small_ring ?one empty_slot 1, ss_held = [1 \<mapsto> 1], ss_queue = [2], ss_jobs = [None, None]\<rparr> =
      Some \<lparr>ss_ring = small_ring ?one ?two 1, ss_held = [1 \<mapsto> 1], ss_queue = [2, 3], ss_jobs = [None, None]\<rparr>"
    using f2 by (simp add: hint_ahead_two try_send_def Let_def at)
  have th: "reads_through one_byte" by (simp add: reads_through_def one_byte_def)
  have "guard_bytes (small_ring ?one ?two 1) (1 mod SLOTS) = [11, 12]"
    using borrowed_block_is_the_file [OF o s s1 th _ _ s2] by (simp add: four_spans_def SLOTS_def)
  then show ?thesis using s s1 s2 by (auto simp: SLOTS_def)
qed

text \<open>A read that fails or falls short is only logged, and the guard is handed out all the same: the pass
  computes on bytes that are not the block's.\<close>

lemma borrow_short_read:
  "guard_bytes (borrow no_read 1 (small_ring empty_slot st 0)) 1 = [0, 0] \<and> block_bytes (small_ring empty_slot st 0) 1 = [11, 12]"
  using small_fills(1) [of empty_slot st 0]
  by (simp add: guard_bytes_def borrow_def Let_def slot_of_def has_block_def block_bytes_def span_at_def small_ring_def four_spans_def)
    (simp add: empty_slot_def eval_nat_numeral)

text \<open>Every borrow is counted once.\<close>

lemma borrow_counted: "st_hits (borrow ans l S) + st_inline (borrow ans l S) = st_hits S + st_inline S + 1"
  by (simp add: borrow_def Let_def)

end
