(* ===== verification/Auth.thy ===== *)
theory Auth
  imports Strs
begin

text \<open>
  \<open>garuda/src/auth/mod.rs\<close>: the gate in front of every route. A request is its path and its
  headers, the first value of each name in lower case, as bytes; \<open>header_str\<close> is
  \<open>HeaderValue::to_str\<close>, which refuses anything but visible ASCII and tabs. The comparison in
  constant time is a parameter: the claims rest on its comparing for equality.
\<close>

type_synonym api_keys = "ustring list"

record http_request =
  uri_path :: ustring
  headers :: "string \<rightharpoonup> u8 list"

datatype gate = Forward | Unauthorized

definition is_enabled :: "api_keys \<Rightarrow> bool" where
  "is_enabled keys \<longleftrightarrow> keys \<noteq> []"

definition accepts :: "(u8 list \<Rightarrow> u8 list \<Rightarrow> bool) \<Rightarrow> api_keys \<Rightarrow> ustring \<Rightarrow> bool" where
  "accepts ct_eq keys presented = foldl (\<lambda>accepted key. accepted \<or> ct_eq (str_bytes key) (str_bytes presented)) False keys"

definition EXEMPT_PATHS :: "ustring list" where
  "EXEMPT_PATHS = [ascii ''/health'', ascii ''/'']"

definition WS_KEY_PROTOCOL_PREFIX :: ustring where
  "WS_KEY_PROTOCOL_PREFIX = ascii ''garuda.api-key.''"

definition nonempty :: "ustring option \<Rightarrow> ustring option" where
  "nonempty k = (case k of None \<Rightarrow> None | Some s \<Rightarrow> if s = [] then None else Some s)"

fun find_prefixed :: "ustring list \<Rightarrow> ustring option" where
  "find_prefixed [] = None"
| "find_prefixed (p # ps) = (case strip_prefix WS_KEY_PROTOCOL_PREFIX p of Some k \<Rightarrow> Some k | None \<Rightarrow> find_prefixed ps)"

definition ws_protocol_key :: "ustring \<Rightarrow> ustring option" where
  "ws_protocol_key protocols = nonempty (find_prefixed (map str_trim (str_split 44 protocols)))"

definition header_str :: "http_request \<Rightarrow> string \<Rightarrow> ustring option" where
  "header_str r name = (case headers r name of None \<Rightarrow> None
     | Some v \<Rightarrow> if \<forall>b \<in> set v. 32 \<le> b \<and> b < 127 \<or> b = 9 then Some (map unat v) else None)"

definition or_else :: "'a option \<Rightarrow> 'a option \<Rightarrow> 'a option" where
  "or_else a b = (case a of None \<Rightarrow> b | Some x \<Rightarrow> Some x)"

definition presented_key :: "http_request \<Rightarrow> ustring option" where
  "presented_key r =
     nonempty (or_else (or_else
       (Option.bind (header_str r ''authorization'') (strip_prefix (ascii ''Bearer '')))
       (header_str r ''x-api-key''))
       (Option.bind (header_str r ''sec-websocket-protocol'') ws_protocol_key))"

definition require_key :: "(u8 list \<Rightarrow> u8 list \<Rightarrow> bool) \<Rightarrow> api_keys \<Rightarrow> http_request \<Rightarrow> gate" where
  "require_key ct_eq keys r =
     (if \<not> is_enabled keys \<or> uri_path r \<in> set EXEMPT_PATHS then Forward
      else case presented_key r of
        Some key \<Rightarrow> if accepts ct_eq keys key then Forward else Unauthorized
      | None \<Rightarrow> Unauthorized)"

section \<open>What is accepted\<close>

lemma str_bytes_unique: "valid_str s \<Longrightarrow> valid_str s' \<Longrightarrow> str_bytes s = str_bytes s' \<Longrightarrow> s = s'"
  using from_utf8_str by (metis option.inject)

lemma header_valid: "header_str r n = Some s \<Longrightarrow> valid_str s"
proof -
  have "scalar (unat b)" for b :: u8
  proof -
    have "unat b < 256" using unsigned_less [of b] by simp
    then show ?thesis by (simp add: scalar_def)
  qed
  then show "header_str r n = Some s \<Longrightarrow> valid_str s" by (auto simp: header_str_def list_all_iff split: option.splits if_splits)
qed

lemma accepts_iff:
  assumes "\<And>a b. ct_eq a b \<longleftrightarrow> a = b"
  shows "accepts ct_eq keys k \<longleftrightarrow> (\<exists>key \<in> set keys. str_bytes key = str_bytes k)"
proof -
  have "foldl (\<lambda>accepted key. accepted \<or> ct_eq (str_bytes key) (str_bytes k)) a keys \<longleftrightarrow>
      a \<or> (\<exists>key \<in> set keys. str_bytes key = str_bytes k)" for a
    by (induction keys arbitrary: a) (auto simp: assms)
  then show ?thesis by (simp add: accepts_def)
qed

lemma find_prefixed_valid: "find_prefixed ps = Some k \<Longrightarrow> \<forall>p \<in> set ps. valid_str p \<Longrightarrow> valid_str k"
  by (induction ps) (auto simp: strip_prefix_Some split: option.splits)

lemma str_split_set: "w \<in> set (str_split sep s) \<Longrightarrow> set w \<subseteq> set s"
  by (induction s arbitrary: w) (fastforce split: list.splits if_splits)+

lemma presented_key_ok: "presented_key r = Some k \<Longrightarrow> k \<noteq> [] \<and> valid_str k"
proof -
  assume "presented_key r = Some k"
  then have k: "k \<noteq> []" and src: "Option.bind (header_str r ''authorization'') (strip_prefix (ascii ''Bearer '')) = Some k \<or>
      header_str r ''x-api-key'' = Some k \<or> Option.bind (header_str r ''sec-websocket-protocol'') ws_protocol_key = Some k"
    by (auto simp: presented_key_def nonempty_def or_else_def split: option.splits if_splits)
  have ws: "valid_str k" if h: "header_str r n = Some v" and w: "ws_protocol_key v = Some k" for n v
  proof -
    have "find_prefixed (map str_trim (str_split 44 v)) = Some k"
      using w by (auto simp: ws_protocol_key_def nonempty_def split: option.splits if_splits)
    moreover have "\<forall>p \<in> set (map str_trim (str_split 44 v)). valid_str p"
      using header_valid [OF h] str_trim_set str_split_set by (fastforce simp: list_all_iff)
    ultimately show ?thesis by (rule find_prefixed_valid)
  qed
  from src have "valid_str k"
    by (auto simp: bind_eq_Some_conv strip_prefix_Some dest: header_valid ws)
  with k show ?thesis by simp
qed

text \<open>A key offered as a subprotocol is found among the others, if it can be written there at all.\<close>

lemma ws_key_found:
  assumes "key \<noteq> []"
    and "\<forall>p \<in> set ps. 44 \<notin> set p \<and> strip_prefix WS_KEY_PROTOCOL_PREFIX (str_trim p) = None"
    and "\<forall>p \<in> set qs. 44 \<notin> set p"
    and "44 \<notin> set e" and "str_trim e = WS_KEY_PROTOCOL_PREFIX @ key"
  shows "ws_protocol_key (str_join 44 (ps @ [e] @ qs)) = Some key"
proof -
  have "str_split 44 (str_join 44 (ps @ [e] @ qs)) = ps @ [e] @ qs"
    using assms by (intro str_split_join) auto
  moreover have "find_prefixed (map str_trim ps @ ws) = find_prefixed ws" for ws
    using assms(2) by (induction ps) auto
  ultimately show ?thesis using assms(1,5) by (simp add: ws_protocol_key_def nonempty_def)
qed


definition ws_request :: "u8 list \<Rightarrow> http_request" where
  "ws_request v = \<lparr>uri_path = ascii ''/v1/ws'', headers = [''sec-websocket-protocol'' \<mapsto> v]\<rparr>"

definition offered :: ustring where
  "offered = ascii ''chat, garuda.api-key.k1''"

lemma ws_request_key: "presented_key (ws_request (map of_nat offered)) = Some (ascii ''k1'')"
proof -
  let ?e = "ascii '' garuda.api-key.k1''"
  have "strip_prefix WS_KEY_PROTOCOL_PREFIX (str_trim (ascii ''chat'')) = None"
    by (simp add: ascii_def WS_KEY_PROTOCOL_PREFIX_def str_trim_def white_def strip_prefix_def)
  moreover have "str_trim ?e = WS_KEY_PROTOCOL_PREFIX @ ascii ''k1''"
    by (simp add: ascii_def WS_KEY_PROTOCOL_PREFIX_def str_trim_def white_def)
  ultimately have "ws_protocol_key (str_join 44 ([ascii ''chat''] @ [?e] @ [])) = Some (ascii ''k1'')"
    by (intro ws_key_found) (simp_all add: ascii_def)
  moreover have "str_join 44 ([ascii ''chat''] @ [?e] @ []) = offered" by (simp add: offered_def ascii_def)
  moreover have "header_str (ws_request (map of_nat offered)) ''sec-websocket-protocol'' = Some offered"
    by (simp add: header_str_def ws_request_def offered_def ascii_def)
  moreover have "header_str (ws_request v) ''authorization'' = None" "header_str (ws_request v) ''x-api-key'' = None" for v
    by (simp_all add: header_str_def ws_request_def)
  ultimately show ?thesis by (simp add: presented_key_def or_else_def nonempty_def ascii_def)
qed


text \<open>A \<open>Bearer\<close> header without a key is taken as the answer: the key beside it is not looked at.\<close>

lemma empty_bearer_hides:
  assumes "headers r ''authorization'' = Some (map of_nat (ascii ''Bearer ''))"
  shows "presented_key r = None"
proof -
  have "header_str r ''authorization'' = Some (ascii ''Bearer '')" by (simp add: header_str_def assms ascii_def)
  then show ?thesis by (simp add: presented_key_def nonempty_def or_else_def strip_prefix_def)
qed

end
