(* ===== verification/Config.thy ===== *)
theory Config
  imports Auth Router Scheduler Tokenizer
begin

text \<open>
  \<open>garuda/src/config/mod.rs\<close>: the configuration, its defaults, its check, and what the rest of the
  program reads from it. The parse of a decimal into an \<open>f64\<close> and the arithmetic on it are
  parameters (\<open>size_ops\<close>); the numbers of the sampling section are the bit patterns of the
  \<open>f32\<close> values. Reading the file and the TOML parser stand outside.
\<close>

section \<open>The sections of the file\<close>

record model_config =
  mc_path :: path
  mc_gguf :: ustring
  mc_mmap :: bool
  mc_router :: string
  mc_context :: nat
  mc_experts :: nat
  mc_top_k :: nat
  mc_sliding_window :: nat
  mc_prefill_batch :: nat
  mc_draft_gguf :: ustring
  mc_draft_mmap :: bool
  mc_lookahead :: nat
  mc_thinking :: bool
  mc_gpu :: bool

definition default_model_config :: model_config where
  "default_model_config = \<lparr>mc_path = ''./models'', mc_gguf = [], mc_mmap = False, mc_router = ''mixtral'', mc_context = 4096,
     mc_experts = 8, mc_top_k = 2, mc_sliding_window = 0, mc_prefill_batch = 0, mc_draft_gguf = [], mc_draft_mmap = True,
     mc_lookahead = 4, mc_thinking = False, mc_gpu = False\<rparr>"

record memory_config =
  me_expert_cache :: ustring
  me_kv_resident_blocks :: nat
  me_prompt_cache_entries :: nat
  me_prompt_cache :: ustring
  me_weight_cache :: ustring
  me_archive_path :: ustring
  me_kv_spill :: bool

definition default_memory_config :: memory_config where
  "default_memory_config = \<lparr>me_expert_cache = ascii ''512MB'', me_kv_resident_blocks = 512, me_prompt_cache_entries = 64,
     me_prompt_cache = ascii ''512MB'', me_weight_cache = ascii ''0'', me_archive_path = [], me_kv_spill = True\<rparr>"

record runtime_config =
  rc_threads :: nat
  rc_prefetch :: bool
  rc_predictor :: bool

definition default_runtime_config :: runtime_config where
  "default_runtime_config = \<lparr>rc_threads = 0, rc_prefetch = True, rc_predictor = True\<rparr>"

record server_config =
  sv_host :: string
  sv_port :: "16 word"
  sv_max_concurrent :: nat
  sv_queue_capacity :: nat
  sv_max_per_user :: nat
  sv_timeout_secs :: nat
  sv_cors :: bool
  sv_api_keys :: api_keys

definition default_server_config :: server_config where
  "default_server_config = \<lparr>sv_host = ''127.0.0.1'', sv_port = 8080, sv_max_concurrent = 4, sv_queue_capacity = 256,
     sv_max_per_user = 8, sv_timeout_secs = 120, sv_cors = False, sv_api_keys = []\<rparr>"

record sampling_config =
  sa_temperature :: f32
  sa_top_p :: f32
  sa_top_k :: nat
  sa_max_tokens :: nat

text \<open>\<open>0.8\<close> and \<open>0.95\<close> as \<open>f32\<close>.\<close>

definition default_sampling_config :: sampling_config where
  "default_sampling_config = \<lparr>sa_temperature = 0x3F4CCCCD, sa_top_p = 0x3F733333, sa_top_k = 40, sa_max_tokens = 256\<rparr>"

record app_config =
  c_model :: model_config
  c_memory :: memory_config
  c_runtime :: runtime_config
  c_server :: server_config
  c_sampling :: sampling_config

definition default_app_config :: app_config where
  "default_app_config = \<lparr>c_model = default_model_config, c_memory = default_memory_config, c_runtime = default_runtime_config,
     c_server = default_server_config, c_sampling = default_sampling_config\<rparr>"

section \<open>Sizes\<close>

record 'd size_ops =
  z_parse :: "ustring \<Rightarrow> 'd option"
  z_finite :: "'d \<Rightarrow> bool"
  z_less :: "'d \<Rightarrow> 'd \<Rightarrow> bool"
  z_mul :: "'d \<Rightarrow> 'd \<Rightarrow> 'd"
  z_of_nat :: "nat \<Rightarrow> 'd"
  z_to_usize :: "'d \<Rightarrow> nat"

definition size_char :: "uchar \<Rightarrow> bool" where
  "size_char c \<longleftrightarrow> 48 \<le> c \<and> c \<le> 57 \<or> c = 46"

text \<open>The power of 1024 a unit stands for.\<close>

definition size_unit :: "ustring \<Rightarrow> nat option" where
  "size_unit u =
     (if u \<in> {[], ascii ''B''} then Some 0
      else if u \<in> {ascii ''K'', ascii ''KB'', ascii ''KIB''} then Some 1
      else if u \<in> {ascii ''M'', ascii ''MB'', ascii ''MIB''} then Some 2
      else if u \<in> {ascii ''G'', ascii ''GB'', ascii ''GIB''} then Some 3
      else if u \<in> {ascii ''T'', ascii ''TB'', ascii ''TIB''} then Some 4
      else None)"

definition usize_max :: nat where
  "usize_max = 2 ^ 64 - 1"

definition parse_size :: "'d size_ops \<Rightarrow> ustring \<Rightarrow> nat res" where
  "parse_size Z s =
     (let t = filter (\<lambda>c. c \<noteq> 32) (map upper_code (str_trim s)) in
      if t = [] then Inl (Config ''size is empty'')
      else case z_parse Z (takeWhile size_char t) of
        None \<Rightarrow> Inl (Config ''{s} is not a valid size'')
      | Some v \<Rightarrow>
          if \<not> z_finite Z v \<or> z_less Z v (z_of_nat Z 0) then Inl (Config ''{s} is not a valid size'')
          else case size_unit (dropWhile size_char t) of
            None \<Rightarrow> Inl (Config ''unknown size unit {other} in {s}'')
          | Some k \<Rightarrow>
              let bytes = z_mul Z v (z_of_nat Z (1024 ^ k)) in
              if z_less Z (z_of_nat Z usize_max) bytes then Inl (Config ''size {s} does not fit in memory'')
              else Inr (z_to_usize Z bytes))"

section \<open>What the program reads\<close>

definition trimmed_path :: "ustring \<Rightarrow> ustring option" where
  "trimmed_path s = (let p = str_trim s in if p = [] then None else Some p)"

definition draft_path :: "app_config \<Rightarrow> ustring option" where
  "draft_path c = trimmed_path (mc_draft_gguf (c_model c))"

definition gguf_path :: "app_config \<Rightarrow> ustring option" where
  "gguf_path c = trimmed_path (mc_gguf (c_model c))"

definition archive_path :: "app_config \<Rightarrow> ustring option" where
  "archive_path c = trimmed_path (me_archive_path (c_memory c))"

definition config_router :: "app_config \<Rightarrow> router_type res" where
  "config_router c = parse_router (mc_router (c_model c))"

text \<open>\<open>ModelDims::default\<close>; its \<open>rope_theta\<close> is \<open>10000.0\<close>.\<close>

definition default_dims :: model_dims where
  "default_dims = \<lparr>d_model = 128, n_heads = 4, head_dim = 32, d_ff = 256, n_experts = 8, dims_top_k = 2,
     vocab_size = byte_vocab, dims_block_size = 16, rope_theta = 0x461C4000\<rparr>"

definition config_dims :: "app_config \<Rightarrow> model_dims res" where
  "config_dims c =
     (let d = default_dims\<lparr>n_experts := mc_experts (c_model c), dims_top_k := mc_top_k (c_model c)\<rparr> in
      bindE (validate_dims d) (\<lambda>_. Inr d))"

definition expert_cache_bytes :: "'d size_ops \<Rightarrow> app_config \<Rightarrow> nat res" where
  "expert_cache_bytes Z c = parse_size Z (me_expert_cache (c_memory c))"

definition prompt_cache_bytes :: "'d size_ops \<Rightarrow> app_config \<Rightarrow> nat res" where
  "prompt_cache_bytes Z c = parse_size Z (me_prompt_cache (c_memory c))"

definition weight_cache_bytes :: "'d size_ops \<Rightarrow> app_config \<Rightarrow> nat res" where
  "weight_cache_bytes Z c = parse_size Z (me_weight_cache (c_memory c))"

definition config_window :: "app_config \<Rightarrow> nat option" where
  "config_window c = (if 0 < mc_sliding_window (c_model c) then Some (mc_sliding_window (c_model c)) else None)"

definition config_sampling :: "f32 fops \<Rightarrow> app_config \<Rightarrow> f32 sampling_params res" where
  "config_sampling F c =
     (let s = c_sampling c; p = \<lparr>temperature = sa_temperature s, top_p = sa_top_p s, sp_top_k = sa_top_k s,
        max_tokens = sa_max_tokens s, sp_seed = None\<rparr> in bindE (validate_params F p) (\<lambda>_. Inr p))"

definition config_scheduler :: "app_config \<Rightarrow> sched_config" where
  "config_scheduler c = \<lparr>max_concurrent = sv_max_concurrent (c_server c), speculative_lookahead = mc_lookahead (c_model c),
     queue_capacity = sv_queue_capacity (c_server c), max_per_user = sv_max_per_user (c_server c)\<rparr>"

definition config_timeout :: "app_config \<Rightarrow> nat" where
  "config_timeout c = sv_timeout_secs (c_server c)"

definition require :: "bool \<Rightarrow> string \<Rightarrow> unit res" where
  "require ok msg = (if ok then Inr () else Inl (Config msg))"

definition config_validate :: "f32 fops \<Rightarrow> 'd size_ops \<Rightarrow> app_config \<Rightarrow> unit res" where
  "config_validate F Z c =
     bindE (require (\<not> mc_gpu (c_model c)) ''gpu = true, but Garuda has no GPU backend. Implement core::InferenceBackend and wire it up, or set gpu = false.'') (\<lambda>_.
     bindE (if gguf_path c = None
            then bindE (config_router c) (\<lambda>_. bindE (config_dims c) validate_dims)
            else Inr ()) (\<lambda>_.
     bindE (bindE (config_sampling F c) (validate_params F)) (\<lambda>_.
     bindE (parse_size Z (me_expert_cache (c_memory c))) (\<lambda>_.
     bindE (parse_size Z (me_prompt_cache (c_memory c))) (\<lambda>_.
     bindE (require (mc_context (c_model c) \<noteq> 0) ''model.context must be at least 1'') (\<lambda>_.
     bindE (require (mc_sliding_window (c_model c) \<le> mc_context (c_model c))
              ''model.sliding_window ({}) exceeds model.context ({})'') (\<lambda>_.
     bindE (require (sv_max_concurrent (c_server c) \<noteq> 0) ''server.max_concurrent must be at least 1'') (\<lambda>_.
     bindE (require (sv_queue_capacity (c_server c) \<noteq> 0) ''server.queue_capacity must be at least 1'') (\<lambda>_.
     bindE (require (sv_max_per_user (c_server c) \<noteq> 0) ''server.max_concurrent_per_user must be at least 1'') (\<lambda>_.
     bindE (require (sv_timeout_secs (c_server c) \<noteq> 0) ''server.request_timeout_secs must be at least 1'') (\<lambda>_.
     bindE (require (\<not> (draft_path c \<noteq> None \<and> gguf_path c = None)) ''model.draft_gguf is set but model.gguf is not - there is nothing for the draft model to propose to'') (\<lambda>_.
     require (\<forall>k \<in> set (sv_api_keys (c_server c)). k \<noteq> []) ''server.api_keys must not contain an empty string - a request with an empty (but present) key would then authenticate''))))))))))))"

definition config_load :: "f32 fops \<Rightarrow> 'd size_ops \<Rightarrow> (path \<Rightarrow> ustring option) \<Rightarrow> (ustring \<Rightarrow> app_config option) \<Rightarrow> path \<Rightarrow> app_config res" where
  "config_load F Z read_file toml p =
     (case read_file p of None \<Rightarrow> Inl (Config ''reading {}: {e}'')
      | Some s \<Rightarrow> (case toml s of None \<Rightarrow> Inl (Config ''parsing {}: {e}'')
          | Some c \<Rightarrow> bindE (config_validate F Z c) (\<lambda>_. Inr c)))"

section \<open>What a checked configuration guarantees\<close>

lemma require_iff [result_iff]: "require ok msg = Inr u \<longleftrightarrow> ok" "require ok msg = Inl e \<longleftrightarrow> \<not> ok \<and> e = Config msg"
  by (auto simp: require_def)

lemma config_sampling_valid: "config_sampling F c = Inr p \<Longrightarrow> validate_params F p = Inr ()"
  by (auto simp: config_sampling_def Let_def bindE_Inr_iff)

lemma config_dims_valid: "config_dims c = Inr d \<Longrightarrow> validate_dims d = Inr ()"
  by (auto simp: config_dims_def Let_def bindE_Inr_iff)

lemma config_validate_iff:
  "config_validate F Z c = Inr u \<longleftrightarrow>
     \<not> mc_gpu (c_model c) \<and>
     (gguf_path c = None \<longrightarrow> (\<exists>rt. config_router c = Inr rt) \<and> (\<exists>d. config_dims c = Inr d)) \<and>
     (\<exists>p. config_sampling F c = Inr p) \<and> (\<exists>n. expert_cache_bytes Z c = Inr n) \<and> (\<exists>n. prompt_cache_bytes Z c = Inr n) \<and>
     0 < mc_context (c_model c) \<and> mc_sliding_window (c_model c) \<le> mc_context (c_model c) \<and>
     0 < sv_max_concurrent (c_server c) \<and> 0 < sv_queue_capacity (c_server c) \<and> 0 < sv_max_per_user (c_server c) \<and>
     0 < sv_timeout_secs (c_server c) \<and> (draft_path c \<noteq> None \<longrightarrow> gguf_path c \<noteq> None) \<and> [] \<notin> set (sv_api_keys (c_server c))"
  unfolding config_validate_def bindE_Inr_iff require_iff expert_cache_bytes_def prompt_cache_bytes_def
  using config_sampling_valid [of F c] config_dims_valid [of c]
  by (auto simp: bindE_Inr_iff)


text \<open>A weight budget that is no size passes the check; the server meets it only when it parses it.\<close>

lemma validate_ignores_weight_cache:
  "config_validate F Z (c\<lparr>c_memory := (c_memory c)\<lparr>me_weight_cache := w\<rparr>\<rparr>) = config_validate F Z c"
  by (simp add: config_validate_def gguf_path_def draft_path_def config_router_def config_dims_def config_sampling_def)

section \<open>Sizes are read as written\<close>

text \<open>What is relied on of the \<open>f64\<close> arithmetic: it is exact on whole numbers below \<open>2 ^ 53\<close>.\<close>

definition exact_sizes :: "'d size_ops \<Rightarrow> bool" where
  "exact_sizes Z \<longleftrightarrow>
     (\<forall>n < 2 ^ 53. z_parse Z (ascii (show_nat n)) = Some (z_of_nat Z n) \<and> z_finite Z (z_of_nat Z n) \<and>
        \<not> z_less Z (z_of_nat Z n) (z_of_nat Z 0) \<and> \<not> z_less Z (z_of_nat Z usize_max) (z_of_nat Z n) \<and>
        z_to_usize Z (z_of_nat Z n) = n) \<and>
     (\<forall>m n. m * n < 2 ^ 53 \<longrightarrow> z_mul Z (z_of_nat Z m) (z_of_nat Z n) = z_of_nat Z (m * n))"

lemma show_nat_codes: "c \<in> set (ascii (show_nat n)) \<Longrightarrow> 48 \<le> c \<and> c \<le> 57"
  using show_nat_digits by (auto simp: ascii_def is_digit_char_def)

lemma filter_dropWhile_white:
  "\<forall>c \<in> set s. white c \<longrightarrow> c = 32 \<Longrightarrow> filter (\<lambda>c. c \<noteq> 32) (dropWhile white s) = filter (\<lambda>c. c \<noteq> 32) s"
proof (induction s)
  case (Cons x s)
  then show ?case by (cases "white x") simp_all
qed simp

lemma filter_trim:
  assumes "\<forall>c \<in> set s. white c \<longrightarrow> c = 32"
  shows "filter (\<lambda>c. c \<noteq> 32) (str_trim s) = filter (\<lambda>c. c \<noteq> 32) s"
proof -
  have "filter (\<lambda>c. c \<noteq> 32) (str_trim s) = rev (filter (\<lambda>c. c \<noteq> 32) (dropWhile white (rev (dropWhile white s))))"
    by (simp add: str_trim_def rev_filter)
  also have "\<dots> = filter (\<lambda>c. c \<noteq> 32) (dropWhile white s)"
    using assms by (subst filter_dropWhile_white) (auto simp: rev_filter dest: set_dropWhileD)
  finally show ?thesis using filter_dropWhile_white [OF assms] by simp
qed

lemma parse_size_exact:
  assumes "exact_sizes Z" and "size_unit (map upper_code u) = Some k" and "n * 1024 ^ k < 2 ^ 53"
  shows "parse_size Z (replicate a 32 @ ascii (show_nat n) @ replicate b 32 @ u @ replicate c 32) = Inr (n * 1024 ^ k)"
proof -
  let ?d = "ascii (show_nat n)" and ?s = "replicate a 32 @ ascii (show_nat n) @ replicate b 32 @ u @ replicate c 32"
  have u: "\<forall>x \<in> set u. 65 \<le> upper_code x \<and> upper_code x \<le> 90"
  proof
    fix x assume "x \<in> set u"
    then have "upper_code x \<in> set (map upper_code u)" by simp
    then show "65 \<le> upper_code x \<and> upper_code x \<le> 90" using assms(2)
      by (auto simp: size_unit_def ascii_def split: if_splits)
  qed
  then have ux: "\<forall>x \<in> set u. \<not> white x \<and> x \<noteq> 32"
    by (fastforce simp: upper_code_def white_def split: if_splits)
  have d: "\<forall>x \<in> set ?d. \<not> white x \<and> x \<noteq> 32 \<and> upper_code x = x \<and> size_char x"
    using show_nat_codes by (fastforce simp: white_def upper_code_def size_char_def)
  have up: "upper_code x = 32 \<longleftrightarrow> x = 32" for x by (auto simp: upper_code_def)
  have "filter (\<lambda>c. c \<noteq> 32) (map upper_code (str_trim ?s)) = map upper_code (filter (\<lambda>c. c \<noteq> 32) (str_trim ?s))"
    by (simp add: filter_map o_def up)
  also have "filter (\<lambda>c. c \<noteq> 32) (str_trim ?s) = filter (\<lambda>c. c \<noteq> 32) ?s" using ux d by (intro filter_trim) auto
  also have "\<dots> = ?d @ u" using ux d by (simp add: filter_id_conv)
  also have "map upper_code (?d @ u) = ?d @ map upper_code u" using d by (simp add: map_idI)
  finally have t: "filter (\<lambda>c. c \<noteq> 32) (map upper_code (str_trim ?s)) = ?d @ map upper_code u" .
  have nd: "map upper_code u = [] \<or> \<not> size_char (hd (map upper_code u))"
    using u by (cases u) (auto simp: size_char_def)
  have tw: "takeWhile size_char (?d @ map upper_code u) = ?d" "dropWhile size_char (?d @ map upper_code u) = map upper_code u"
    using d nd by (simp_all add: takeWhile_append2 dropWhile_append2) (cases u; simp)+
  have "n * 1 \<le> n * 1024 ^ k" by (intro mult_le_mono2) simp
  from le_less_trans [OF this assms(3)] have n: "n < 2 ^ 53" by simp
  have "?d \<noteq> []" by (simp add: ascii_def)
  then show ?thesis using assms n unfolding parse_size_def t tw Let_def exact_sizes_def by simp
qed

text \<open>A size is read as it is written: a whole number, any spaces, and a unit in either case give the
  number of bytes, a kilobyte being 1024 of them, as long as the result stays below the 53 bits in
  which \<open>f64\<close> is exact.\<close>

theorem parse_size_reads:
  assumes "exact_sizes Z" and "size_unit (map upper_code u) = Some k" and "n * 1024 ^ k < 2 ^ 53"
  shows "parse_size Z (replicate a 32 @ ascii (show_nat n) @ replicate b 32 @ u @ replicate c 32) = Inr (n * 1024 ^ k)"
  by (rule parse_size_exact [OF assms])

definition nat_sizes :: "nat size_ops" where
  "nat_sizes = \<lparr>z_parse = (\<lambda>s. if s \<noteq> [] \<and> (\<forall>c \<in> set s. 48 \<le> c \<and> c \<le> 57) then Some (foldl (\<lambda>v c. 10 * v + (c - 48)) 0 s) else None),
     z_finite = (\<lambda>_. True), z_less = (<), z_mul = (*), z_of_nat = (\<lambda>n. n), z_to_usize = (\<lambda>n. n)\<rparr>"

lemma nat_sizes_exact: "exact_sizes nat_sizes"
proof -
  have "foldl (\<lambda>v c. 10 * v + (c - 48)) 0 (ascii (show_nat n)) = n" for n
  proof (induction n rule: show_nat.induct)
    case (1 n)
    show ?case by (cases "n < 10") (use 1 in \<open>simp_all add: show_nat.simps [of n] ascii_def of_char_digit\<close>)
  qed
  moreover have "ascii (show_nat n) \<noteq> []" for n by (simp add: ascii_def)
  ultimately show ?thesis using show_nat_codes by (auto simp: exact_sizes_def nat_sizes_def usize_max_def)
qed

lemma parse_size_reads_witness: "parse_size nat_sizes (ascii ''8 gb'') = Inr (8 * 1024 ^ 3)"
  using parse_size_reads [OF nat_sizes_exact, of "ascii ''gb''" 3 8 0 1 0]
  by (simp add: size_unit_def ascii_def upper_code_def show_nat.simps)

lemma default_loads:
  assumes "exact_sizes Z" and "validate_params F \<lparr>temperature = 0x3F4CCCCD, top_p = 0x3F733333, sp_top_k = 40, max_tokens = 256, sp_seed = None\<rparr> = Inr ()"
  shows "config_validate F Z default_app_config = Inr ()"
proof -
  have "parse_size Z (ascii ''512MB'') = Inr (512 * 1024 ^ 2)"
    using parse_size_exact [OF assms(1), of "ascii ''MB''" 2 512 0 0 0]
    by (simp add: size_unit_def ascii_def upper_code_def show_nat.simps)
  then show ?thesis unfolding config_validate_iff
    using assms(2) by (simp add: default_app_config_def default_model_config_def default_memory_config_def default_server_config_def
      default_sampling_config_def gguf_path_def draft_path_def trimmed_path_def str_trim_def config_router_def config_dims_def
      config_sampling_def expert_cache_bytes_def prompt_cache_bytes_def default_dims_def validate_dims_def
      parse_router_def ascii_lower_def lower_char_def Let_def)
qed

definition unit_f32 :: "f32 fops" where
  "unit_f32 = \<lparr>fzero = 0, fone = 0x3F800000, neg_infinity = 0, flt = (<), fle = (\<le>), ffinite = (\<lambda>_. True), fadd = (\<lambda>x _. x), fsub = (\<lambda>x _. x),
     fmul = (\<lambda>x _. x), fdiv = (\<lambda>x _. x), fmin = (\<lambda>x _. x), fmax = (\<lambda>x _. x), softmax = (\<lambda>x. x), unit_of = (\<lambda>_. 0)\<rparr>"


end
