(* ===== verification/Session.thy ===== *)
theory Session
  imports SchedulerBooks Bpe
begin

text \<open>
  \<open>garuda/src/session/mod.rs\<close>: what every wire format shares: submitting a prompt, and driving the
  events of the request either to a whole reply or as a stream of decoded pieces. The events are
  the ones the client's channel yields until it closes. \<open>client_events\<close> ties them to the
  scheduler: what was sent for one request, in order.
\<close>

datatype piece = TextPiece ustring | DonePiece stop_reason nat | ErrorPiece garuda_error

record reply =
  reply_text :: ustring
  reply_reason :: stop_reason
  reply_tokens :: nat

definition session_submit :: "nat \<Rightarrow> string \<Rightarrow> token list \<Rightarrow> 'f sampling_params \<Rightarrow> priority \<Rightarrow> nat \<Rightarrow>
    ('s, 'f, 'g, 't) sched \<Rightarrow> ('s, 'f, 'g, 't) sched \<times> nat res" where
  "session_submit timeout user prompt params prio t s =
     submit \<lparr>user_id = user, rs_prompt = prompt, rs_params = params, rs_priority = prio, rs_timeout = timeout\<rparr> t s"

fun collect_events :: "token list \<Rightarrow> stream_event list \<Rightarrow> (token list \<times> stop_reason option) res" where
  "collect_events toks [] = Inr (toks, None)"
| "collect_events toks (TokenEv t # evs) = collect_events (toks @ [t]) evs"
| "collect_events toks (DoneEv r # evs) = Inr (toks, Some r)"
| "collect_events toks (ErrorEv e # evs) = Inl e"

definition session_collect :: "(token list \<Rightarrow> ustring res) \<Rightarrow> stream_event list \<Rightarrow> reply res" where
  "session_collect decode evs =
     bindE (collect_events [] evs) (\<lambda>(toks, reason).
       case reason of None \<Rightarrow> Inl (Scheduler ''stream ended without a result'')
       | Some r \<Rightarrow> bindE (decode toks) (\<lambda>s. Inr \<lparr>reply_text = s, reply_reason = r, reply_tokens = length toks\<rparr>))"

definition text_piece :: "ustring \<Rightarrow> piece list" where
  "text_piece s = (if s = [] then [] else [TextPiece s])"

fun session_pieces :: "('d \<Rightarrow> token \<Rightarrow> 'd \<times> ustring) \<Rightarrow> ('d \<Rightarrow> ustring) \<Rightarrow> 'd \<Rightarrow> nat \<Rightarrow> stream_event list \<Rightarrow> piece list" where
  "session_pieces push finish d n [] = []"
| "session_pieces push finish d n (TokenEv t # evs) =
     (case push d t of (d', s) \<Rightarrow> text_piece s @ session_pieces push finish d' (Suc n) evs)"
| "session_pieces push finish d n (DoneEv r # evs) = text_piece (finish d) @ [DonePiece r n]"
| "session_pieces push finish d n (ErrorEv e # evs) = [ErrorPiece e]"

section \<open>The two ways agree\<close>

text \<open>The tokens before the first terminal event, and that event.\<close>

fun split_events :: "stream_event list \<Rightarrow> token list \<times> stream_event option" where
  "split_events [] = ([], None)"
| "split_events (TokenEv t # evs) = (case split_events evs of (ts, e) \<Rightarrow> (t # ts, e))"
| "split_events (e # evs) = ([], Some e)"

lemma collect_events_split:
  "collect_events toks evs = (case split_events evs of
     (ts, None) \<Rightarrow> Inr (toks @ ts, None)
   | (ts, Some (DoneEv r)) \<Rightarrow> Inr (toks @ ts, Some r)
   | (ts, Some (ErrorEv e)) \<Rightarrow> Inl e
   | (ts, Some (TokenEv t)) \<Rightarrow> Inr (toks @ ts, None))"
  by (induction toks evs rule: collect_events.induct) (auto split: prod.splits option.splits stream_event.splits)

lemma split_events_terminal: "split_events evs = (ts, Some e) \<Longrightarrow> terminal e"
  by (induction evs arbitrary: ts rule: split_events.induct) (auto simp: terminal_def split: prod.splits)

text \<open>What a client of a tokenizer relies on to stream: the decoder gives in the end what decoding all
  at once gives.\<close>

locale text_stream =
  fixes decode :: "token list \<Rightarrow> ustring res"
    and push :: "'d \<Rightarrow> token \<Rightarrow> 'd \<times> ustring"
    and finish :: "'d \<Rightarrow> ustring"
    and fresh :: 'd
  assumes agrees: "decode ts = Inr s \<Longrightarrow> stream_all push finish fresh ts = s"
begin

lemma pieces_from:
  "split_events evs = (ts, Some (DoneEv r)) \<Longrightarrow>
     \<exists>ss. session_pieces push finish d n evs = map TextPiece ss @ [DonePiece r (n + length ts)] \<and>
       [] \<notin> set ss \<and> concat ss = stream_all push finish d ts"
proof (induction evs arbitrary: d n ts)
  case (Cons e evs)
  show ?case
  proof (cases e)
    case (TokenEv t)
    obtain us where us: "split_events evs = (us, Some (DoneEv r))" "ts = t # us"
      using Cons.prems TokenEv by (auto split: prod.splits)
    obtain d' s where p: "push d t = (d', s)" by fastforce
    obtain ss where ss: "session_pieces push finish d' (Suc n) evs = map TextPiece ss @ [DonePiece r (Suc n + length us)]"
      "[] \<notin> set ss" "concat ss = stream_all push finish d' us" using Cons.IH [OF us(1)] by blast
    let ?ss = "(if s = [] then [] else [s]) @ ss"
    show ?thesis using p ss us(2) TokenEv by (intro exI [of _ ?ss]) (simp add: text_piece_def)
  next
    case (DoneEv r')
    let ?ss = "if finish d = [] then [] else [finish d]"
    show ?thesis using Cons.prems DoneEv by (intro exI [of _ ?ss]) (simp add: text_piece_def)
  qed (use Cons.prems in simp)
qed simp

lemma pieces_reply:
  assumes "session_collect decode evs = Inr y"
  shows "\<exists>ss. session_pieces push finish fresh 0 evs = map TextPiece ss @ [DonePiece (reply_reason y) (reply_tokens y)] \<and>
    [] \<notin> set ss \<and> concat ss = reply_text y"
proof -
  obtain ts r where c: "collect_events [] evs = Inr (ts, Some r)"
    and y: "reply_reason y = r" "reply_tokens y = length ts" "decode ts = Inr (reply_text y)"
    using assms unfolding session_collect_def bindE_Inr_iff by (fastforce split: option.splits prod.splits simp: bindE_Inr_iff)
  have e: "split_events evs = (ts, Some (DoneEv r))"
  proof (cases "snd (split_events evs)")
    case None
    then show ?thesis using c by (simp add: collect_events_split split: prod.splits)
  next
    case (Some x)
    moreover from this have "terminal x" using split_events_terminal by (metis prod.collapse)
    ultimately show ?thesis using c by (cases x) (simp_all add: collect_events_split terminal_def split: prod.splits)
  qed
  show ?thesis using pieces_from [OF e, of fresh 0] agrees [OF y(3)] y by auto
qed

end

interpretation bpe_text: text_stream "bpe_decode tk" "bpe_push tk" bpe_finish "[]"
  by unfold_locales (rule bpe_stream_agrees)


definition half_tk :: bpe where
  "half_tk = \<lparr>bp_vocab = \<lparr>bv_tokens = [byte_text [0xC3], byte_text [0xA9]], bv_special = [False, False]\<rparr>, bp_lookup = Map.empty,
     bp_merges = Map.empty, bp_eos = 0\<rparr>"

lemma half_tk_bytes: "bpe_token_bytes (bp_vocab half_tk) 0 = [0xC3]" "bpe_token_bytes (bp_vocab half_tk) 1 = [0xA9]"
  using text_bytes_back [of "[0xC3]"] text_bytes_back [of "[0xA9]"] by (simp_all add: bpe_token_bytes_def half_tk_def text_bytes_def)


section \<open>What the scheduler sent is what the client gets\<close>

definition client_events :: "nat \<Rightarrow> (nat \<times> stream_event) list \<Rightarrow> stream_event list" where
  "client_events q L = map snd (filter (\<lambda>(i, _). i = q) L)"

fun tokens_of :: "stream_event list \<Rightarrow> token list" where
  "tokens_of [] = []"
| "tokens_of (TokenEv t # evs) = t # tokens_of evs"
| "tokens_of (e # evs) = tokens_of evs"

lemma client_events_ok: "log_ok L \<Longrightarrow> sorted_wrt (\<lambda>e _. \<not> terminal e) (client_events q L)"
  unfolding log_ok_def client_events_def sorted_wrt_map
  by (rule sorted_wrt_mono_rel [OF _ sorted_wrt_filter [of "\<lambda>(q, e) (q', e'). terminal e \<longrightarrow> q \<noteq> q'"]]) auto

lemma split_events_ok:
  "sorted_wrt (\<lambda>e _. \<not> terminal e) evs \<Longrightarrow>
     split_events evs = (tokens_of evs, (case filter terminal evs of [] \<Rightarrow> None | e # _ \<Rightarrow> Some e)) \<and> length (filter terminal evs) \<le> 1"
proof (induction evs)
  case (Cons e evs)
  have "terminal e \<Longrightarrow> evs = []" using Cons.prems by (cases evs) auto
  then show ?case using Cons by (cases e) (auto simp: terminal_def split: prod.splits)
qed simp

text \<open>C22 From the scheduler to the reply nothing is lost and nothing is added. In every state the scheduler
  can reach, what a client collects is made of all the tokens sent for its request: with the end the
  scheduler gave it, the decoded tokens, its reason and their number; with a failure, that failure; and
  with no end yet (a channel closed early), an error rather than a truncated reply.\<close>

theorem reply_is_what_was_sent:
  assumes "sched_run W c rt st s"
  shows "session_collect decode (client_events q (sent s)) =
    (case filter terminal (client_events q (sent s)) of
       [] \<Rightarrow> Inl (Scheduler ''stream ended without a result'')
     | ErrorEv e # _ \<Rightarrow> Inl e
     | DoneEv r # _ \<Rightarrow> bindE (decode (tokens_of (client_events q (sent s)))) (\<lambda>x.
         Inr \<lparr>reply_text = x, reply_reason = r, reply_tokens = length (tokens_of (client_events q (sent s)))\<rparr>))"
proof -
  have "log_ok (sent s)" using sched_run_inv [OF assms] by (simp add: sched_inv_def books_def)
  note sp = split_events_ok [OF client_events_ok [OF this, of q]]
  show ?thesis
  proof (cases "filter terminal (client_events q (sent s))")
    case (Cons e es)
    then have "e \<in> set (filter terminal (client_events q (sent s)))" by simp
    then have "terminal e" by simp
    then show ?thesis using sp Cons by (cases e) (simp_all add: session_collect_def collect_events_split terminal_def)
  qed (use sp in \<open>simp add: session_collect_def collect_events_split\<close>)
qed

lemma reply_is_what_was_sent_witness:
  "session_collect (bpe_decode half_tk) (client_events 0 (sent one_waiting)) = Inl (Scheduler ''stream ended without a result'')"
  using reply_is_what_was_sent [OF one_waiting_run, of "bpe_decode half_tk" 0] by (simp add: client_events_def)

end
