(* ===== verification/Chat.thy ===== *)
theory Chat
  imports Bpe Strs
begin

text \<open>
  \<open>garuda/src/chat/mod.rs\<close>: turns as the tokens a checkpoint was tuned on. The markers of a
  format are looked up in the vocabulary and placed as single ids around content that only goes
  through the merge. A turn is the text of its role and its content. What the renderer uses of a
  tokenizer is the record \<open>chat_tk\<close>; \<open>bpe_chat\<close> and \<open>byte_chat\<close> are two of the
  implementations of the trait.
\<close>

section \<open>The formats\<close>

datatype chat_format = Plain | Zephyr | ChatMl | Qwen35 | Qwen35Thinking | Mistral | Llama3

datatype markup = Marker ustring | MText ustring

datatype seg = SegText ustring | SegControl token

record chat_tk =
  ct_encode :: "ustring \<Rightarrow> token list"
  ct_fragment :: "ustring \<Rightarrow> token list"
  ct_token_id :: "ustring \<Rightarrow> token option"
  ct_eos :: token

definition detect :: "ustring option \<Rightarrow> chat_format" where
  "detect template = (case template of None \<Rightarrow> Plain
     | Some t \<Rightarrow>
         if str_contains (ascii ''<|start_header_id|>'') t then Llama3
         else if str_contains (ascii ''<|im_start|>'') t \<and> str_contains (ascii ''<think>'') t then Qwen35
         else if str_contains (ascii ''<|im_start|>'') t then ChatMl
         else if str_contains (ascii ''<|assistant|>'') t then Zephyr
         else if str_contains (ascii ''[INST]'') t then Mistral
         else Plain)"

definition with_thinking :: "chat_format \<Rightarrow> bool \<Rightarrow> chat_format" where
  "with_thinking f on = (if f \<in> {Qwen35, Qwen35Thinking} then (if on then Qwen35Thinking else Qwen35) else f)"

definition chat_as_str :: "chat_format \<Rightarrow> string" where
  "chat_as_str f = (case f of Plain \<Rightarrow> ''plain'' | Zephyr \<Rightarrow> ''zephyr'' | ChatMl \<Rightarrow> ''chatml''
     | Qwen35 \<Rightarrow> ''qwen3.5 (thinking off)'' | Qwen35Thinking \<Rightarrow> ''qwen3.5 (thinking on)''
     | Mistral \<Rightarrow> ''mistral'' | Llama3 \<Rightarrow> ''llama3'')"

definition turn_end :: "chat_format \<Rightarrow> ustring option" where
  "turn_end f = (case f of
     ChatMl \<Rightarrow> Some (ascii ''<|im_end|>'') | Qwen35 \<Rightarrow> Some (ascii ''<|im_end|>'')
   | Qwen35Thinking \<Rightarrow> Some (ascii ''<|im_end|>'') | Llama3 \<Rightarrow> Some (ascii ''<|eot_id|>'')
   | Plain \<Rightarrow> None | Zephyr \<Rightarrow> None | Mistral \<Rightarrow> None)"

definition newline :: ustring where
  "newline = [10]"

definition im_prefix :: "ustring \<Rightarrow> markup list" where
  "im_prefix role = [Marker (ascii ''<|im_start|>''), MText (role @ newline)]"

definition header_prefix :: "ustring \<Rightarrow> markup list" where
  "header_prefix role = [Marker (ascii ''<|start_header_id|>''), MText role, Marker (ascii ''<|end_header_id|>''), MText (newline @ newline)]"

definition prefix_pieces :: "chat_format \<Rightarrow> ustring \<Rightarrow> markup list" where
  "prefix_pieces f role = (case f of
     Zephyr \<Rightarrow> [Marker (ascii ''<|'' @ role @ ascii ''|>''), MText newline]
   | ChatMl \<Rightarrow> im_prefix role | Qwen35 \<Rightarrow> im_prefix role | Qwen35Thinking \<Rightarrow> im_prefix role
   | Llama3 \<Rightarrow> header_prefix role
   | Plain \<Rightarrow> [] | Mistral \<Rightarrow> [])"

definition separator :: "chat_format \<Rightarrow> ustring" where
  "separator f = (case f of Zephyr \<Rightarrow> newline | ChatMl \<Rightarrow> newline | Qwen35 \<Rightarrow> newline | Qwen35Thinking \<Rightarrow> newline
   | Plain \<Rightarrow> [] | Mistral \<Rightarrow> [] | Llama3 \<Rightarrow> [])"

definition generation_pieces :: "chat_format \<Rightarrow> markup list" where
  "generation_pieces f = (case f of
     Zephyr \<Rightarrow> [Marker (ascii ''<|assistant|>''), MText newline]
   | ChatMl \<Rightarrow> im_prefix (ascii ''assistant'')
   | Qwen35 \<Rightarrow> im_prefix (ascii ''assistant'') @
       [Marker (ascii ''<think>''), MText (newline @ newline), Marker (ascii ''</think>''), MText (newline @ newline)]
   | Qwen35Thinking \<Rightarrow> im_prefix (ascii ''assistant'') @ [Marker (ascii ''<think>''), MText newline]
   | Llama3 \<Rightarrow> header_prefix (ascii ''assistant'')
   | Plain \<Rightarrow> [] | Mistral \<Rightarrow> [])"

section \<open>Rendering\<close>

definition resolve_piece :: "chat_tk \<Rightarrow> markup \<Rightarrow> seg" where
  "resolve_piece tk p = (case p of
     Marker m \<Rightarrow> (case ct_token_id tk m of Some t \<Rightarrow> SegControl t | None \<Rightarrow> SegText m)
   | MText s \<Rightarrow> SegText s)"

fun render_turns :: "(ustring \<times> ustring) list \<Rightarrow> ustring" where
  "render_turns [] = ascii ''assistant: ''"
| "render_turns ((role, content) # turns) = role @ ascii '': '' @ content @ newline @ render_turns turns"

definition inst :: "ustring \<Rightarrow> seg" where
  "inst body = SegText (ascii ''[INST] '' @ body @ ascii '' [/INST]'')"

fun mistral_segments :: "token \<Rightarrow> ustring \<Rightarrow> (ustring \<times> ustring) list \<Rightarrow> seg list" where
  "mistral_segments end system [] = (if system = [] then [] else [inst system])"
| "mistral_segments end system ((role, content) # turns) =
     (if role = ascii ''system'' then
        mistral_segments end ((if system = [] then [] else system @ newline @ newline) @ content) turns
      else if role = ascii ''assistant'' then SegText content # SegControl end # mistral_segments end system turns
      else inst (if system = [] then content else system @ newline @ newline @ content) # mistral_segments end [] turns)"

definition turn_segments :: "chat_format \<Rightarrow> chat_tk \<Rightarrow> token \<Rightarrow> ustring \<times> ustring \<Rightarrow> seg list" where
  "turn_segments f tk end turn = (case turn of (role, content) \<Rightarrow>
     map (resolve_piece tk) (prefix_pieces f role) @ [SegText content, SegControl end, SegText (separator f)])"

fun emit_segs :: "chat_tk \<Rightarrow> bool \<Rightarrow> seg list \<Rightarrow> token list" where
  "emit_segs tk first [] = []"
| "emit_segs tk first (SegControl t # segs) = (if first then ct_encode tk [] else []) @ t # emit_segs tk False segs"
| "emit_segs tk first (SegText s # segs) =
     (if s = [] then emit_segs tk first segs
      else (if first then ct_encode tk s else ct_fragment tk s) @ emit_segs tk False segs)"

definition turn_end_id :: "chat_format \<Rightarrow> chat_tk \<Rightarrow> token" where
  "turn_end_id f tk = (case Option.bind (turn_end f) (ct_token_id tk) of Some t \<Rightarrow> t | None \<Rightarrow> ct_eos tk)"

definition encode_chat :: "chat_format \<Rightarrow> chat_tk \<Rightarrow> (ustring \<times> ustring) list \<Rightarrow> token list" where
  "encode_chat f tk turns =
     (if f = Plain then ct_encode tk (render_turns turns)
      else let end = turn_end_id f tk;
               segs = (if f = Mistral then mistral_segments end [] turns
                       else concat (map (turn_segments f tk end) turns) @ map (resolve_piece tk) (generation_pieces f))
           in emit_segs tk True segs)"

section \<open>Where control tokens come from\<close>

text \<open>The control ids the format itself places, given the roles of the turns and nothing else.\<close>

definition placed :: "chat_tk \<Rightarrow> markup list \<Rightarrow> token list" where
  "placed tk ps = List.map_filter (\<lambda>p. case p of Marker m \<Rightarrow> ct_token_id tk m | MText _ \<Rightarrow> None) ps"

definition chat_controls :: "chat_format \<Rightarrow> chat_tk \<Rightarrow> ustring list \<Rightarrow> token list" where
  "chat_controls f tk roles =
     (if f = Plain then []
      else if f = Mistral then map (\<lambda>_. turn_end_id f tk) (filter (\<lambda>r. r = ascii ''assistant'') roles)
      else concat (map (\<lambda>role. placed tk (prefix_pieces f role) @ [turn_end_id f tk]) roles) @ placed tk (generation_pieces f))"

fun seg_controls :: "seg list \<Rightarrow> token list" where
  "seg_controls [] = []"
| "seg_controls (SegControl t # segs) = t # seg_controls segs"
| "seg_controls (SegText s # segs) = seg_controls segs"

lemma seg_controls_append [simp]: "seg_controls (a @ b) = seg_controls a @ seg_controls b"
  by (induction a rule: seg_controls.induct) simp_all

lemma seg_controls_resolve [simp]: "seg_controls (map (resolve_piece tk) ps) = placed tk ps"
  by (induction ps) (auto simp: placed_def resolve_piece_def List.map_filter_simps split: markup.splits option.splits)

lemma seg_controls_mistral: "\<And>system. seg_controls (mistral_segments end system turns) =
    map (\<lambda>_. end) (filter (\<lambda>r. r = ascii ''assistant'') (map fst turns))"
proof (induction turns)
  case (Cons turn turns)
  have "ascii ''system'' \<noteq> ascii ''assistant''" by (simp add: ascii_def)
  then show ?case using Cons by (cases turn) (auto simp: inst_def)
qed (simp add: inst_def)

lemma seg_controls_turns: "seg_controls (concat (map (turn_segments f tk end) turns)) =
    concat (map (\<lambda>role. placed tk (prefix_pieces f role) @ [end]) (map fst turns))"
  by (induction turns) (auto simp: turn_segments_def)

text \<open>A tokenizer whose encoder keeps to ordinary tokens: text alone, whatever it says, is never one of
  the tokens in \<open>special\<close>.\<close>

locale clean_encoder =
  fixes tk :: chat_tk and special :: "token \<Rightarrow> bool"
  assumes encode_clean: "t \<in> set (ct_encode tk s) \<Longrightarrow> \<not> special t"
    and fragment_clean: "t \<in> set (ct_fragment tk s) \<Longrightarrow> \<not> special t"
begin

lemma no_special: "filter special (ct_encode tk s) = []" "filter special (ct_fragment tk s) = []"
  using encode_clean fragment_clean by (auto simp: filter_empty_conv)

lemma emit_specials: "filter special (emit_segs tk first segs) = filter special (seg_controls segs)"
proof (induction segs arbitrary: first)
  case (Cons x segs)
  then show ?case by (cases x) (simp_all add: no_special)
qed simp

lemma chat_specials:
  "filter special (encode_chat f tk turns) = filter special (chat_controls f tk (map fst turns))"
proof (cases "f = Plain \<or> f = Mistral")
  case True
  then show ?thesis
    by (auto simp: encode_chat_def chat_controls_def no_special emit_specials seg_controls_mistral Let_def)
next
  case False
  then show ?thesis
    by (simp add: encode_chat_def chat_controls_def emit_specials seg_controls_turns Let_def del: map_map)
qed

end

definition bpe_chat :: "ucd \<Rightarrow> bpe \<Rightarrow> chat_tk" where
  "bpe_chat U tk = \<lparr>ct_encode = bpe_encode U tk, ct_fragment = bpe_encode U tk, ct_token_id = bpe_token_id tk, ct_eos = bp_eos tk\<rparr>"

definition byte_chat :: chat_tk where
  "byte_chat = \<lparr>ct_encode = byte_encode, ct_fragment = byte_encode, ct_token_id = (\<lambda>_. None), ct_eos = 2\<rparr>"

definition bpe_special :: "bpe \<Rightarrow> token \<Rightarrow> bool" where
  "bpe_special tk t \<longleftrightarrow> unat t < length (bv_tokens (bp_vocab tk)) \<and> bv_special (bp_vocab tk) ! unat t"

lemma sym_tokens_plain:
  assumes "bpe_ok tk" and "t \<in> set (sym_tokens tk w)"
  shows "\<not> bpe_special tk t"
proof -
  obtain v where "bp_lookup tk v = Some t" using assms(2)
    by (auto simp: sym_tokens_def List.map_filter_def split: option.splits)
  then show ?thesis using assms(1) by (auto simp: bpe_ok_def bpe_special_def)
qed

interpretation byte_clean: clean_encoder byte_chat is_special
  by unfold_locales (auto simp: byte_chat_def byte_encode_def is_special_def byte_token)

lemma bpe_clean: "bpe_ok tk \<Longrightarrow> clean_encoder (bpe_chat U tk) (bpe_special tk)"
  by unfold_locales (auto simp: bpe_chat_def bpe_encode_def dest: sym_tokens_plain)


text \<open>A vocabulary of two markers and the 256 bytes.\<close>

definition chat_gguf :: gguf where
  "chat_gguf = \<lparr>gversion = 3,
     metadata = [ascii ''tokenizer.ggml.model'' \<mapsto> VString (ascii ''gpt2''),
                 ascii ''tokenizer.ggml.tokens'' \<mapsto>
                   VArray (map VString ([ascii ''<|im_start|>'', ascii ''<|im_end|>''] @ map (\<lambda>c. [c]) byte_to_char)),
                 ascii ''tokenizer.ggml.token_type'' \<mapsto> VArray (map VU64 ([3, 3] @ replicate 256 1)),
                 ascii ''tokenizer.ggml.merges'' \<mapsto> VArray [VString (ascii ''a b'')]],
     tensors = [], data_offset = 0\<rparr>"

lemma read_lookup_entry:
  assumes "(i, w) \<in> set (enumerate 0 tokens)" and "type_of types i \<notin> {3, 4, 5}"
  shows "read_lookup tokens types w \<noteq> None"
proof -
  define f where "f = (\<lambda>(i, tok) m. if type_of types i \<in> {3, 4, 5} \<or> m tok \<noteq> None then m else (m(tok \<mapsto> of_nat i)) :: ustring \<rightharpoonup> token)"
  have "(i, w) \<in> set es \<or> m w \<noteq> None \<Longrightarrow> fold f es m w \<noteq> None" for es m
  proof (induction es arbitrary: m)
    case (Cons e es)
    have "(i, w) \<in> set es \<or> f e m w \<noteq> None" using Cons.prems assms(2) by (cases e) (auto simp: f_def)
    then show ?case using Cons.IH by simp
  qed simp
  then show ?thesis using assms(1) unfolding read_lookup_def f_def by blast
qed

lemma chat_gguf_loads:
  obtains tk where "bpe_from_gguf chat_gguf = Inr tk" and "length (bv_tokens (bp_vocab tk)) = 258"
    and "bpe_token_id tk (ascii ''<|im_start|>'') = Some 0" and "bpe_token_id tk (ascii ''<|im_end|>'') = Some 1"
    and "bpe_special tk 0" and "bpe_special tk 1"
proof -
  let ?tokens = "[ascii ''<|im_start|>'', ascii ''<|im_end|>''] @ map (\<lambda>c. [c]) byte_to_char"
  let ?types = "[3, 3] @ replicate 256 1 :: u64 list"
  have get: "gget chat_gguf ''tokenizer.ggml.model'' = Some (VString (ascii ''gpt2''))"
    "gget chat_gguf ''tokenizer.ggml.tokens'' = Some (VArray (map VString ?tokens))"
    "gget chat_gguf ''tokenizer.ggml.merges'' = Some (VArray [VString (ascii ''a b'')])"
    "gget chat_gguf ''tokenizer.ggml.token_type'' = Some (VArray (map VU64 ?types))"
    "gget chat_gguf ''tokenizer.ggml.eos_token_id'' = None"
    by (simp_all add: gget_def gguf_get_def chat_gguf_def ascii_def)
  have m: "read_merges [VString (ascii ''a b'')] = [(([97], [98]), 0)]"
    by (simp add: read_merges_def as_str_def split_once_def ascii_def List.map_filter_simps)
  have all: "\<not> (\<exists>c \<in> set byte_to_char. read_lookup ?tokens ?types [c] = None)"
  proof
    assume "\<exists>c \<in> set byte_to_char. read_lookup ?tokens ?types [c] = None"
    then obtain k where k: "k < length byte_to_char" "read_lookup ?tokens ?types [byte_to_char ! k] = None"
      by (auto simp: in_set_conv_nth)
    have "(k + 2, [byte_to_char ! k]) \<in> set (enumerate 0 ?tokens)" using k(1) by (simp add: in_set_enumerate_eq)
    moreover have "type_of ?types (k + 2) = 1" using k(1) by (simp add: type_of_def)
    ultimately have "read_lookup ?tokens ?types [byte_to_char ! k] \<noteq> None" by (intro read_lookup_entry [of "k + 2"]) simp_all
    then show False using k(2) by (rule notE)
  qed
  let ?tk = "\<lparr>bp_vocab = \<lparr>bv_tokens = ?tokens, bv_special = map (\<lambda>i. type_of ?types i \<in> {3, 5}) [0..<length ?tokens]\<rparr>,
        bp_lookup = read_lookup ?tokens ?types, bp_merges = map_of (rev [(([97], [98]), 0)]), bp_eos = 0\<rparr>"
  have len: "length ?tokens = 258" by simp
  have vs: "as_str (VString x) = Some x" "as_array (VArray xs) = Some xs" "as_u64 (VU64 u) = Some u" for x xs u
    by (simp_all add: as_str_def as_array_def as_u64_def)
  have o: "(\<lambda>v. case as_str v of Some s \<Rightarrow> s | None \<Rightarrow> []) \<circ> VString = (\<lambda>s. s)"
    "(\<lambda>v. case as_u64 v of Some u \<Rightarrow> u | None \<Rightarrow> 1) \<circ> VU64 = (\<lambda>u. u)"
    by (simp_all add: fun_eq_iff vs)
  have "bpe_from_gguf chat_gguf = Inr ?tk"
    using all unfolding bpe_from_gguf_def get Let_def
    by (simp add: vs o m del: map_append append.simps map_replicate)
  moreover have "type_of ?types 0 = 3" "type_of ?types 1 = 3" by (simp_all add: type_of_def)
  ultimately show thesis
    by (intro that [of ?tk]) (simp_all add: bpe_token_id_def bpe_special_def ascii_def nth_append)
qed


text \<open>A role, by contrast, is spelled into a marker, and a request may name any role it likes: in the Zephyr
  format it selects the control token of that name.\<close>

lemma role_places_control:
  "bpe_token_id tk (ascii ''<|'' @ role @ ascii ''|>'') = Some t \<Longrightarrow> t \<in> set (chat_controls Zephyr (bpe_chat U tk) [role])"
  by (simp add: chat_controls_def placed_def prefix_pieces_def bpe_chat_def List.map_filter_simps)

section \<open>Formats\<close>

lemma detect_reachable:
  "detect (Some (ascii ''<|im_start|>{{ role }}<|im_end|>'')) = ChatMl"
  "detect (Some (ascii ''<|im_start|>{{ role }}<|im_end|><think>'')) = Qwen35"
  by (simp_all add: detect_def ascii_def)

lemma with_thinking_idem: "with_thinking (with_thinking f a) b = with_thinking f b"
  by (simp add: with_thinking_def)

end
