(* ===== verification/ChatSpm.thy ===== *)
theory ChatSpm
  imports SpmLossless Chat
begin

text \<open>
  The renderer of \<open>garuda/src/chat/mod.rs\<close> over a SentencePiece vocabulary. The contract of
  \<open>clean_encoder\<close> does not hold there: the merges look pieces up among all entries, control tokens
  included, and content can spell one.
\<close>

definition spm_encode_fragment :: "spm \<Rightarrow> ustring \<Rightarrow> token list" where
  "spm_encode_fragment tk s = the (encode_spm tk s False)"

definition spm_token_id :: "spm \<Rightarrow> ustring \<Rightarrow> token option" where
  "spm_token_id tk piece = sp_lookup tk (str_bytes piece)"

definition spm_chat :: "spm \<Rightarrow> chat_tk" where
  "spm_chat tk = \<lparr>ct_encode = spm_encode tk, ct_fragment = spm_encode_fragment tk, ct_token_id = spm_token_id tk,
     ct_eos = sv_eos (sp_vocab tk)\<rparr>"

definition slash_vocab :: "ustring list" where
  "slash_vocab = map ascii [''<unk>'', ''<s>'', ''</s>'', ''<'', ''/'', ''s'', ''>'', ''</'', ''s>'', ''a'']"

definition slash_tk :: spm where
  "slash_tk = \<lparr>sp_vocab = \<lparr>sv_tokens = slash_vocab, byte_value = replicate 10 None,
       is_control = [True, True, True, False, False, False, False, False, False, False], sv_bos = 1, sv_eos = 2\<rparr>,
     sp_scores = replicate 10 0, sp_lookup = spm_lookup slash_vocab, byte_token_of = replicate 256 0, sp_unk = 0, add_bos = False\<rparr>"

lemma slash_merges: "encode_spm slash_tk (ascii ''</s>'') False = Some [2]"
  by code_simp

text \<open>A second turn that says \<open></s>\<close> ends with two end-of-sequence tokens, where the format places one.\<close>

lemma content_ends_turn:
  "ct_eos (spm_chat slash_tk) = 2 \<and> emit_segs (spm_chat slash_tk) False [SegText (ascii ''</s>''), SegControl 2] = [2, 2]"
proof -
  have "ascii ''</s>'' \<noteq> []" by (simp add: ascii_def)
  then show ?thesis using slash_merges by (simp add: spm_chat_def spm_encode_fragment_def) (simp add: slash_tk_def)
qed

lemma spm_not_clean: "\<not> clean_encoder (spm_chat slash_tk) (\<lambda>t. unat t < 10 \<and> is_control (sp_vocab slash_tk) ! unat t)"
proof
  let ?special = "\<lambda>t. unat t < 10 \<and> is_control (sp_vocab slash_tk) ! unat t"
  assume c: "clean_encoder (spm_chat slash_tk) ?special"
  have m: "2 \<in> set (ct_fragment (spm_chat slash_tk) (ascii ''</s>''))"
    by (simp add: spm_chat_def spm_encode_fragment_def slash_merges)
  from clean_encoder.fragment_clean [OF c m] show False by (simp add: slash_tk_def)
qed

end
