(* ===== verification/Spec2Isabelle.thy ===== *)
theory Spec2Isabelle
  imports SchedulerBooks PrefetchEngine Moe Bpe SpmLossless QuantExact BlockStream Config Session ChatSpm
begin

text \<open>
  A verification development of garuda, a mixture-of-experts inference server.
\<close>

end
